(* ===== verification/Chorus_Prelude.thy ===== *)
theory Chorus_Prelude
  imports Main "HOL-Library.Word" "HOL-Library.Multiset" "HOL-Library.Sublist"
begin

text \<open>
  Shared vocabulary of the development: byte strings, results (a sum type whose
  left summand is the error), unsigned machine arithmetic on natural numbers
  with the overflow checks the Rust code writes out, big-endian integers,
  order statistics of a list, and the collections of simplification rules the
  component theories extend.
\<close>

section \<open>Rule collections\<close>

named_theorems result_simps \<open>laws of the result combinators\<close>
named_theorems frame_simps \<open>laws of the record framing\<close>
named_theorems tracker_simps \<open>field updates of the commit tracker\<close>
named_theorems manifest_simps \<open>laws of the manifest register transforms\<close>
named_theorems codec_simps \<open>printing and parsing of integers and fields\<close>


section \<open>Types\<close>

type_synonym byte = "8 word"
type_synonym bytes = "byte list"


section \<open>Results\<close>

text \<open>\<open>and_then\<close> is the \<open>?\<close> operator of the source: an error returns at once.\<close>

definition and_then :: "'e + 'a \<Rightarrow> ('a \<Rightarrow> 'e + 'b) \<Rightarrow> 'e + 'b" where
  "and_then r f = (case r of Inl e \<Rightarrow> Inl e | Inr x \<Rightarrow> f x)"

definition ok_or :: "'a option \<Rightarrow> 'e \<Rightarrow> 'e + 'a" where
  "ok_or x e = (case x of None \<Rightarrow> Inl e | Some y \<Rightarrow> Inr y)"

definition require :: "bool \<Rightarrow> 'e \<Rightarrow> 'e + unit" where
  "require b e = (if b then Inr () else Inl e)"

fun is_ok :: "'e + 'a \<Rightarrow> bool" where
  "is_ok (Inl _) = False"
| "is_ok (Inr _) = True"

fun collect_results :: "('e + 'a) list \<Rightarrow> 'e + 'a list" where
  "collect_results [] = Inr []"
| "collect_results (r # rs) =
     and_then r (\<lambda>x. and_then (collect_results rs) (\<lambda>xs. Inr (x # xs)))"

lemma and_then_simps [simp, result_simps]:
  "and_then (Inl e) f = Inl e"
  "and_then (Inr x) f = f x"
  by (simp_all add: and_then_def)

lemma and_then_Inr_iff [result_simps]:
  "and_then r f = Inr y \<longleftrightarrow> (\<exists>x. r = Inr x \<and> f x = Inr y)"
  by (cases r) auto

lemma and_then_Inl_iff [result_simps]:
  "and_then r f = Inl e \<longleftrightarrow> r = Inl e \<or> (\<exists>x. r = Inr x \<and> f x = Inl e)"
  by (cases r) auto

lemma and_then_cong [fundef_cong]:
  assumes "r = r'" and "\<And>x. r' = Inr x \<Longrightarrow> f x = g x"
  shows "and_then r f = and_then r' g"
  using assms by (cases r') auto

lemma ok_or_simps [simp, result_simps]:
  "ok_or None e = Inl e"
  "ok_or (Some x) e = Inr x"
  by (simp_all add: ok_or_def)

lemma ok_or_Inr_iff [result_simps]: "ok_or x e = Inr y \<longleftrightarrow> x = Some y"
  by (cases x) auto

lemma require_simps [simp, result_simps]:
  "require True e = Inr ()"
  "require False e = Inl e"
  by (simp_all add: require_def)

lemma require_Inr_iff [result_simps]: "require b e = Inr u \<longleftrightarrow> b"
  by (simp add: require_def)

lemma require_Inl_iff [result_simps]: "require b e = Inl e' \<longleftrightarrow> \<not> b \<and> e' = e"
  by (auto simp: require_def)

lemma is_ok_iff: "is_ok r \<longleftrightarrow> (\<exists>x. r = Inr x)"
  by (cases r) auto

lemma collect_results_map_Inr [simp]:
  "(\<And>x. x \<in> set xs \<Longrightarrow> f x = Inr (g x)) \<Longrightarrow> collect_results (map f xs) = Inr (map g xs)"
  by (induction xs) auto


section \<open>Unsigned machine arithmetic\<close>

definition u32_max :: nat where "u32_max = 2 ^ 32 - 1"
definition u64_max :: nat where "u64_max = 2 ^ 64 - 1"

text \<open>\<open>usize\<close> is 64 bits wide on the supported targets.\<close>

abbreviation usize_max :: nat where "usize_max \<equiv> u64_max"

definition checked_add :: "nat \<Rightarrow> nat \<Rightarrow> nat \<Rightarrow> nat option" where
  "checked_add lim a b = (if a + b \<le> lim then Some (a + b) else None)"

definition checked_sub :: "nat \<Rightarrow> nat \<Rightarrow> nat option" where
  "checked_sub a b = (if b \<le> a then Some (a - b) else None)"

definition saturating_add :: "nat \<Rightarrow> nat \<Rightarrow> nat \<Rightarrow> nat" where
  "saturating_add lim a b = min lim (a + b)"

definition saturating_mul :: "nat \<Rightarrow> nat \<Rightarrow> nat \<Rightarrow> nat" where
  "saturating_mul lim a b = min lim (a * b)"

lemma checked_add_Some_iff [result_simps]:
  "checked_add lim a b = Some c \<longleftrightarrow> c = a + b \<and> a + b \<le> lim"
  by (auto simp: checked_add_def)

lemma checked_add_None_iff [result_simps]: "checked_add lim a b = None \<longleftrightarrow> lim < a + b"
  by (auto simp: checked_add_def)

lemma checked_sub_Some_iff [result_simps]:
  "checked_sub a b = Some c \<longleftrightarrow> b \<le> a \<and> c = a - b"
  by (auto simp: checked_sub_def)


section \<open>Big-endian integers\<close>

fun be_bytes :: "nat \<Rightarrow> nat \<Rightarrow> bytes" where
  "be_bytes 0 n = []"
| "be_bytes (Suc k) n = be_bytes k (n div 256) @ [of_nat n]"

definition be_nat :: "bytes \<Rightarrow> nat" where
  "be_nat bs = foldl (\<lambda>acc b. acc * 256 + unat b) 0 bs"

lemma be_nat_Nil [simp]: "be_nat [] = 0"
  by (simp add: be_nat_def)

lemma be_nat_snoc [simp]: "be_nat (bs @ [b]) = be_nat bs * 256 + unat b"
  by (simp add: be_nat_def)

lemma length_be_bytes [simp]: "length (be_bytes k n) = k"
  by (induction k arbitrary: n) auto

lemma unat_byte_less: "unat (b :: byte) < 256"
  using unsigned_less [of b] by simp

lemma be_nat_bound: "be_nat bs < 256 ^ length bs"
proof (induction bs rule: rev_induct)
  case (snoc b bs)
  have "be_nat bs * 256 + unat b < (be_nat bs + 1) * 256"
    using unat_byte_less [of b] by simp
  also have "\<dots> \<le> 256 ^ length bs * 256"
    using snoc by (intro mult_right_mono) auto
  finally show ?case by simp
qed simp

lemma unat_of_nat_byte: "unat (of_nat n :: byte) = n mod 256"
  by (simp add: unat_of_nat)

lemma be_nat_be_bytes [simp]: "be_nat (be_bytes k n) = n mod 256 ^ k"
proof (induction k arbitrary: n)
  case (Suc k)
  have "(n div 256 mod 256 ^ k) * 256 + n mod 256 = n mod (256 * 256 ^ k)"
    by (simp add: mod_mult2_eq mult.commute)
  then show ?case by (simp add: Suc unat_of_nat_byte)
qed simp

lemma be_bytes_be_nat: "be_bytes (length bs) (be_nat bs) = bs"
proof (induction bs rule: rev_induct)
  case (snoc b bs)
  have "(be_nat bs * 256 + unat b) div 256 = be_nat bs"
    using unat_byte_less [of b] by simp
  moreover have "(of_nat (be_nat bs * 256 + unat b) :: byte) = b"
  proof -
    have "(256 :: byte) = 0" by simp
    then show ?thesis by (simp only: of_nat_add of_nat_mult of_nat_numeral of_nat_unat)
        simp
  qed
  ultimately show ?case using snoc by simp
qed simp


section \<open>Lists\<close>

lemma take_drop_split: "i \<le> j \<Longrightarrow> take i xs @ take (j - i) (drop i xs) = take j xs"
  by (metis le_add_diff_inverse take_add)

lemma prefix_take [simp]: "prefix (take n xs) xs"
  by (metis append_take_drop_id prefixI)

lemma take_prefix: "prefix xs zs \<Longrightarrow> n \<le> length xs \<Longrightarrow> take n xs = take n zs"
  by (auto simp: prefix_def)

lemma prefix_comparable_take:
  assumes "prefix xs zs" and "prefix ys zs"
  shows "take (min (length xs) (length ys)) xs = take (min (length xs) (length ys)) ys"
  using take_prefix [OF assms(1)] take_prefix [OF assms(2)] by simp

lemma prefix_take_iff: "prefix xs ys \<longleftrightarrow> take (length xs) ys = xs"
  by (metis append_eq_conv_conj append_take_drop_id prefix_def)

lemma take_min_eq_iff:
  "take (min (length xs) (length ys)) xs = take (min (length xs) (length ys)) ys
     \<longleftrightarrow> prefix xs ys \<or> prefix ys xs"
proof (cases "length xs \<le> length ys")
  case True
  then have "prefix ys xs \<Longrightarrow> prefix xs ys" using prefix_length_prefix by blast
  with True show ?thesis by (auto simp: min_def prefix_take_iff)
next
  case False
  then have "prefix xs ys \<Longrightarrow> prefix ys xs" by (auto dest: prefix_length_le)
  with False show ?thesis by (auto simp: min_def prefix_take_iff)
qed

lemma length_filter_two:
  "length (filter P xs) + length (filter Q xs)
     \<le> length xs + length (filter (\<lambda>x. P x \<and> Q x) xs)"
  by (induction xs) auto

text \<open>Two predicates whose counts exceed the length together share an element.\<close>

lemma filter_overlap:
  assumes "length xs < length (filter P xs) + length (filter Q xs)"
  shows "\<exists>x \<in> set xs. P x \<and> Q x"
proof -
  from length_filter_two [of P xs Q] assms
  have "0 < length (filter (\<lambda>x. P x \<and> Q x) xs)" by linarith
  then show ?thesis by (auto simp: filter_empty_conv)
qed

lemma length_filter_mono:
  "(\<And>x. x \<in> set xs \<Longrightarrow> P x \<Longrightarrow> Q x) \<Longrightarrow> length (filter P xs) \<le> length (filter Q xs)"
  by (induction xs) auto


section \<open>Order statistics\<close>

text \<open>
  The element \<open>sort xs ! (length xs - q)\<close> is the largest value that at least
  \<open>q\<close> elements of \<open>xs\<close> reach.
\<close>

lemma length_filter_sort: "length (filter P (sort xs)) = length (filter P xs)"
  by (metis mset_filter mset_sort size_mset)

lemma sorted_filter_ge:
  fixes xs :: "'a :: linorder list"
  assumes "sorted xs" and "0 < q" and "q \<le> length xs"
  shows "q \<le> length (filter (\<lambda>x. v \<le> x) xs) \<longleftrightarrow> v \<le> xs ! (length xs - q)"
proof
  assume v: "v \<le> xs ! (length xs - q)"
  have "\<forall>x \<in> set (drop (length xs - q) xs). v \<le> x"
    using assms v by (auto simp: in_set_conv_nth intro!: order_trans [OF v] sorted_nth_mono)
  then have "length (filter (\<lambda>x. v \<le> x) (drop (length xs - q) xs)) = q"
    using assms by simp
  moreover have "filter (\<lambda>x. v \<le> x) xs
      = filter (\<lambda>x. v \<le> x) (take (length xs - q) xs) @ filter (\<lambda>x. v \<le> x) (drop (length xs - q) xs)"
    by (metis append_take_drop_id filter_append)
  ultimately show "q \<le> length (filter (\<lambda>x. v \<le> x) xs)" by simp
next
  assume q: "q \<le> length (filter (\<lambda>x. v \<le> x) xs)"
  show "v \<le> xs ! (length xs - q)"
  proof (rule ccontr)
    assume "\<not> v \<le> xs ! (length xs - q)"
    then have below: "xs ! (length xs - q) < v" by simp
    have "xs ! i < v" if "i \<le> length xs - q" for i
      using assms that by (intro le_less_trans [OF _ below] sorted_nth_mono) auto
    then have "\<forall>x \<in> set (take (Suc (length xs - q)) xs). \<not> v \<le> x"
      by (auto simp: in_set_conv_nth less_Suc_eq_le not_le)
    then have "filter (\<lambda>x. v \<le> x) (take (Suc (length xs - q)) xs) = []"
      by simp
    then have "filter (\<lambda>x. v \<le> x) xs = filter (\<lambda>x. v \<le> x) (drop (Suc (length xs - q)) xs)"
      by (metis append_Nil append_take_drop_id filter_append)
    then have "length (filter (\<lambda>x. v \<le> x) xs) \<le> q - 1"
      using assms length_filter_le [of "\<lambda>x. v \<le> x" "drop (Suc (length xs - q)) xs"] by simp
    with q \<open>0 < q\<close> show False by simp
  qed
qed

lemma quorum_value_iff:
  fixes xs :: "'a :: linorder list"
  assumes "0 < q" and "q \<le> length xs"
  shows "v \<le> sort xs ! (length xs - q) \<longleftrightarrow> q \<le> length (filter (\<lambda>x. v \<le> x) xs)"
  using sorted_filter_ge [of "sort xs" q v] assms by (simp add: length_filter_sort)

end
