(* ===== verification/Text.thy ===== *)
theory Text
  imports Chorus_Prelude
begin

text \<open>
  The parts of Rust's formatting and parsing the sources use: decimal and
  hexadecimal printing with zero padding, \<open>str::parse\<close> and \<open>from_str_radix\<close>
  for unsigned integers (an optional leading plus sign, at least one digit,
  an error on overflow), and splitting and joining on a separator character.
\<close>

section \<open>Definitions\<close>

definition digit_char :: "nat \<Rightarrow> char" where
  "digit_char d = (if d < 10 then char_of (48 + d) else char_of (87 + d))"

definition digit_value :: "nat \<Rightarrow> char \<Rightarrow> nat option" where
  "digit_value base c =
     (let n = (of_char c :: nat);
          v = if 48 \<le> n \<and> n \<le> 57 then Some (n - 48)
              else if 97 \<le> n \<and> n \<le> 122 then Some (n - 87)
              else if 65 \<le> n \<and> n \<le> 90 then Some (n - 55)
              else None
      in case v of None \<Rightarrow> None | Some d \<Rightarrow> if d < base then Some d else None)"

function radix_digits :: "nat \<Rightarrow> nat \<Rightarrow> nat list" where
  "radix_digits base n =
     (if base < 2 \<or> n < base then [n] else radix_digits base (n div base) @ [n mod base])"
  by pat_completeness auto
termination
  by (relation "measure snd") auto

declare radix_digits.simps [simp del]

definition show_radix :: "nat \<Rightarrow> nat \<Rightarrow> string" where
  "show_radix base n = map digit_char (radix_digits base n)"

abbreviation show_dec :: "nat \<Rightarrow> string" where "show_dec \<equiv> show_radix 10"
abbreviation show_hex :: "nat \<Rightarrow> string" where "show_hex \<equiv> show_radix 16"

definition pad_zero :: "nat \<Rightarrow> string \<Rightarrow> string" where
  "pad_zero w s = replicate (w - length s) (CHR ''0'') @ s"

fun parse_digits :: "nat \<Rightarrow> nat \<Rightarrow> string \<Rightarrow> nat option" where
  "parse_digits base acc [] = Some acc"
| "parse_digits base acc (c # cs) =
     (case digit_value base c of
        None \<Rightarrow> None
      | Some d \<Rightarrow> parse_digits base (acc * base + d) cs)"

text \<open>
  The value is checked against the bound of the integer type at the end; the
  source's digit loop stops at the first overflow, with the same result.
\<close>

definition from_str_radix :: "nat \<Rightarrow> nat \<Rightarrow> string \<Rightarrow> nat option" where
  "from_str_radix lim base s =
     (let ds = (case s of c # cs \<Rightarrow> if c = CHR ''+'' then cs else s | [] \<Rightarrow> [])
      in if ds = [] then None
         else case parse_digits base 0 ds of
           None \<Rightarrow> None
         | Some n \<Rightarrow> if n \<le> lim then Some n else None)"

abbreviation parse_u64 :: "string \<Rightarrow> nat option" where "parse_u64 \<equiv> from_str_radix u64_max 10"

fun split_on :: "char \<Rightarrow> string \<Rightarrow> string list" where
  "split_on sep [] = [[]]"
| "split_on sep (c # cs) =
     (if c = sep then [] # split_on sep cs
      else case split_on sep cs of
        [] \<Rightarrow> [[c]]
      | w # ws \<Rightarrow> (c # w) # ws)"

fun join_with :: "char \<Rightarrow> string list \<Rightarrow> string" where
  "join_with sep [] = []"
| "join_with sep [w] = w"
| "join_with sep (w # v # ws) = w @ sep # join_with sep (v # ws)"


section \<open>Printing and parsing integers\<close>

lemma digit_value_digit_char:
  assumes "d < base" "base \<le> 16"
  shows "digit_value base (digit_char d) = Some d"
proof (cases "d < 10")
  case True
  then have "(of_char (char_of (48 + d) :: char) :: nat) = 48 + d" by simp
  with True assms show ?thesis by (simp add: digit_value_def digit_char_def)
next
  case False
  with assms have "(of_char (char_of (87 + d) :: char) :: nat) = 87 + d" by simp
  with False assms show ?thesis by (simp add: digit_value_def digit_char_def)
qed

lemma digit_char_not_plus: "d < 16 \<Longrightarrow> digit_char d \<noteq> CHR ''+''"
  using digit_value_digit_char [of d 16] by (auto simp: digit_value_def Let_def)

lemma radix_digits_less: "2 \<le> base \<Longrightarrow> d \<in> set (radix_digits base n) \<Longrightarrow> d < base"
proof (induction base n rule: radix_digits.induct)
  case (1 base n)
  then show ?case by (subst (asm) radix_digits.simps [of base n]) (auto split: if_splits)
qed

lemma radix_digits_nonempty [simp]: "radix_digits base n \<noteq> []"
  by (subst radix_digits.simps) simp

lemma parse_digits_append:
  "parse_digits base acc (xs @ ys) =
     (case parse_digits base acc xs of None \<Rightarrow> None | Some a \<Rightarrow> parse_digits base a ys)"
  by (induction xs arbitrary: acc) (auto split: option.splits)

lemma parse_digits_zeros [simp]:
  "0 < base \<Longrightarrow> parse_digits base 0 (replicate k (CHR ''0'')) = Some 0"
  by (induction k) (auto simp: digit_value_def)

lemma parse_digits_show:
  assumes "2 \<le> base" "base \<le> 16"
  shows "parse_digits base 0 (show_radix base n) = Some n"
  using assms
proof (induction base n rule: radix_digits.induct)
  case (1 base n)
  show ?case
  proof (cases "n < base")
    case True
    with "1.prems" show ?thesis
      by (simp add: show_radix_def radix_digits.simps [of base n] digit_value_digit_char)
  next
    case False
    then have "parse_digits base 0 (show_radix base (n div base)) = Some (n div base)"
      using "1.IH" "1.prems" by simp
    moreover have "show_radix base n = show_radix base (n div base) @ [digit_char (n mod base)]"
      using False "1.prems" by (simp add: show_radix_def radix_digits.simps [of base n])
    ultimately show ?thesis
      using "1.prems" by (simp add: parse_digits_append digit_value_digit_char)
  qed
qed

lemma show_radix_chars: "c \<in> set (show_radix base n) \<Longrightarrow> 2 \<le> base \<Longrightarrow> \<exists>d < base. c = digit_char d"
  by (auto simp: show_radix_def dest: radix_digits_less)

lemma show_radix_nonempty [simp]: "show_radix base n \<noteq> []"
  by (simp add: show_radix_def)

lemma pad_zero_Cons: "s \<noteq> [] \<Longrightarrow> pad_zero w s \<noteq> []"
  by (simp add: pad_zero_def)

text \<open>Printing an integer that fits, padded or not, and parsing it gives it back.\<close>

lemma from_str_radix_show [codec_simps]:
  assumes "2 \<le> base" "base \<le> 16" "n \<le> lim"
  shows "from_str_radix lim base (pad_zero w (show_radix base n)) = Some n"
proof -
  let ?s = "pad_zero w (show_radix base n)"
  have "parse_digits base 0 ?s = Some n"
    using assms by (simp add: pad_zero_def parse_digits_append parse_digits_show)
  moreover have "?s \<noteq> []" by (simp add: pad_zero_Cons)
  moreover have "hd ?s \<noteq> CHR ''+''"
  proof (cases "w - length (show_radix base n)")
    case 0
    then have "hd ?s \<in> set (show_radix base n)" by (simp add: pad_zero_def)
    then obtain d where "d < base" "hd ?s = digit_char d"
      using assms show_radix_chars [of "hd ?s" base n] by auto
    then show ?thesis using assms digit_char_not_plus [of d] by simp
  next
    case (Suc k)
    then show ?thesis by (simp add: pad_zero_def)
  qed
  ultimately show ?thesis
    using assms by (cases ?s) (auto simp: from_str_radix_def Let_def)
qed

lemma pad_zero_0 [simp]: "pad_zero 0 s = s"
  by (simp add: pad_zero_def)

lemma parse_u64_show [codec_simps]: "n \<le> u64_max \<Longrightarrow> parse_u64 (show_dec n) = Some n"
  using from_str_radix_show [of 10 n u64_max 0] by simp

lemma from_str_radix_bound: "from_str_radix lim base s = Some n \<Longrightarrow> n \<le> lim"
  by (auto simp: from_str_radix_def Let_def split: option.splits if_splits)

lemma digit_char_code:
  assumes "d < 16"
  shows "digit_char d \<in> set ''0123456789abcdef''"
proof -
  have "list_all (\<lambda>d. digit_char d \<in> set ''0123456789abcdef'') [0..<16]" by code_simp
  with assms show ?thesis by (auto simp: list_all_iff)
qed

lemma show_radix_alnum:
  assumes "2 \<le> base" "base \<le> 16"
  shows "set (pad_zero w (show_radix base n)) \<subseteq> set ''0123456789abcdef''"
  using assms show_radix_chars [of _ base n] digit_char_code
  by (fastforce simp: pad_zero_def)


section \<open>Splitting and joining\<close>

lemma split_on_nonempty [simp]: "split_on sep s \<noteq> []"
  by (cases s) (auto split: list.splits)

lemma split_on_word: "sep \<notin> set w \<Longrightarrow> split_on sep w = [w]"
  by (induction w) auto

lemma split_on_append:
  "sep \<notin> set w \<Longrightarrow> split_on sep (w @ sep # s) = w # split_on sep s"
  by (induction w) auto

lemma split_on_join:
  assumes "ws \<noteq> []" and "\<And>w. w \<in> set ws \<Longrightarrow> sep \<notin> set w"
  shows "split_on sep (join_with sep ws) = ws"
  using assms by (induction sep ws rule: join_with.induct) (auto simp: split_on_word split_on_append)

lemma join_split [simp]: "join_with sep (split_on sep s) = s"
proof (induction s)
  case (Cons c s)
  then show ?case by (cases "split_on sep s" rule: list.exhaust; cases "tl (split_on sep s)") auto
qed simp

lemma length_join:
  "length (join_with sep ws) = sum_list (map length ws) + (length ws - 1)"
  by (induction sep ws rule: join_with.induct) auto

end
