(* ===== verification/Record_Frame.thy ===== *)
theory Record_Frame
  imports Chorus_Prelude
begin

text \<open>
  The durable record envelope of \<open>record.rs\<close>: a four-byte big-endian length
  that counts itself, then the payload.  The loops of the source are recursive
  functions over the remaining input; they end because a decoded length is at
  least the header length.
\<close>

section \<open>Definitions\<close>

record record_frame =
  payload :: bytes

datatype record_error = Truncated | InvalidLength nat | TooLarge

definition HEADER_LEN :: nat where "HEADER_LEN = 4"

definition MAX_PAYLOAD_BYTES :: nat where "MAX_PAYLOAD_BYTES = u32_max - HEADER_LEN"

definition encoded_len :: "record_frame \<Rightarrow> record_error + nat" where
  "encoded_len f =
     and_then (ok_or (checked_add usize_max HEADER_LEN (length (payload f))) TooLarge) (\<lambda>total_len.
     and_then (require (total_len \<le> u32_max) TooLarge) (\<lambda>_.
     Inr total_len))"

definition encode :: "record_frame \<Rightarrow> record_error + bytes" where
  "encode f = and_then (encoded_len f) (\<lambda>total_len. Inr (be_bytes 4 total_len @ payload f))"

definition decoded_len :: "bytes \<Rightarrow> record_error + nat" where
  "decoded_len input =
     (if length input < HEADER_LEN then Inl Truncated
      else let total_len = be_nat (take HEADER_LEN input) in
        if total_len < HEADER_LEN then Inl (InvalidLength total_len)
        else if length input < total_len then Inl Truncated
        else Inr total_len)"

definition decode_one :: "bytes \<Rightarrow> record_error + (record_frame \<times> nat)" where
  "decode_one input =
     and_then (decoded_len input) (\<lambda>total_len.
       Inr (\<lparr>payload = drop HEADER_LEN (take total_len input)\<rparr>, total_len))"

lemma decoded_len_bounds:
  "decoded_len input = Inr n \<Longrightarrow> HEADER_LEN \<le> n \<and> n \<le> length input"
  by (auto simp: decoded_len_def Let_def split: if_splits)

lemma decoded_len_pos: "decoded_len input = Inr n \<Longrightarrow> 0 < n \<and> 0 < length input"
  using decoded_len_bounds [of input n] by (auto simp: HEADER_LEN_def)

lemma decode_one_consumes:
  "decode_one input = Inr (f, n) \<Longrightarrow> 0 < n \<and> 0 < length input"
  by (auto simp: decode_one_def and_then_Inr_iff dest: decoded_len_pos)

text \<open>
  \<open>decode_all_bytes\<close> shares storage with its input where \<open>decode_one\<close> copies;
  as values the two forms of the single-record decoder coincide.
\<close>

function decode_all_bytes :: "bytes \<Rightarrow> record_error + record_frame list" where
  "decode_all_bytes input =
     (if input = [] then Inr []
      else and_then (decode_one input) (\<lambda>(record, consumed).
           and_then (decode_all_bytes (drop consumed input)) (\<lambda>records.
           Inr (record # records))))"
  by pat_completeness auto
termination
  by (relation "measure length") (auto dest: decode_one_consumes)

function validate_all :: "bytes \<Rightarrow> record_error + nat" where
  "validate_all input =
     (if input = [] then Inr 0
      else and_then (decoded_len input) (\<lambda>consumed.
           and_then (validate_all (drop consumed input)) (\<lambda>records.
           Inr (records + 1))))"
  by pat_completeness auto
termination
  by (relation "measure length") (auto dest: decoded_len_pos)

function decode_complete_prefix :: "bytes \<Rightarrow> record_frame list \<times> nat" where
  "decode_complete_prefix input =
     (if input = [] then ([], 0)
      else case decode_one input of
        Inl _ \<Rightarrow> ([], 0)
      | Inr (record, record_len) \<Rightarrow>
          (let (records, consumed) = decode_complete_prefix (drop record_len input)
           in (record # records, record_len + consumed)))"
  by pat_completeness auto
termination
  by (relation "measure length") (auto dest: decode_one_consumes)

function complete_prefix_ends_from :: "nat \<Rightarrow> bytes \<Rightarrow> nat list" where
  "complete_prefix_ends_from consumed input =
     (case decoded_len (drop consumed input) of
        Inl _ \<Rightarrow> []
      | Inr record_len \<Rightarrow>
          (consumed + record_len) # complete_prefix_ends_from (consumed + record_len) input)"
  by pat_completeness auto
termination
  by (relation "measure (\<lambda>(consumed, input). length input - consumed)")
    (auto dest: decoded_len_pos)

definition complete_prefix_ends :: "bytes \<Rightarrow> nat list" where
  "complete_prefix_ends input = complete_prefix_ends_from 0 input"

declare decode_all_bytes.simps [simp del] validate_all.simps [simp del]
  decode_complete_prefix.simps [simp del] complete_prefix_ends_from.simps [simp del]

text \<open>The bytes a run of records occupies: the writer concatenates encoded frames.\<close>

fun encode_all :: "record_frame list \<Rightarrow> record_error + bytes" where
  "encode_all [] = Inr []"
| "encode_all (f # fs) =
     and_then (encode f) (\<lambda>b. and_then (encode_all fs) (\<lambda>bs. Inr (b @ bs)))"


section \<open>One frame\<close>

lemma encode_Inr_iff:
  "encode f = Inr b \<longleftrightarrow>
     length (payload f) \<le> MAX_PAYLOAD_BYTES \<and> b = be_bytes 4 (4 + length (payload f)) @ payload f"
  by (auto simp: encode_def encoded_len_def MAX_PAYLOAD_BYTES_def HEADER_LEN_def u32_max_def
      u64_max_def result_simps checked_add_def)

lemma encode_Inl_iff:
  "encode f = Inl e \<longleftrightarrow> MAX_PAYLOAD_BYTES < length (payload f) \<and> e = TooLarge"
  by (auto simp: encode_def encoded_len_def MAX_PAYLOAD_BYTES_def HEADER_LEN_def u32_max_def
      u64_max_def require_def checked_add_def)

lemma take_header: "take HEADER_LEN (be_bytes 4 n @ rest) = be_bytes 4 n"
  by (simp add: HEADER_LEN_def)

lemma decode_one_encode:
  assumes "encode f = Inr b"
  shows "decode_one (b @ rest) = Inr (f, length b)"
proof -
  from assms have f: "length (payload f) \<le> MAX_PAYLOAD_BYTES"
      and b: "b = be_bytes 4 (4 + length (payload f)) @ payload f"
    by (auto simp: encode_Inr_iff)
  have "(4 + length (payload f)) mod 256 ^ 4 = 4 + length (payload f)"
    using f by (simp add: MAX_PAYLOAD_BYTES_def u32_max_def HEADER_LEN_def)
  then have "decoded_len (b @ rest) = Inr (4 + length (payload f))"
    by (simp add: decoded_len_def b HEADER_LEN_def Let_def del: be_bytes.simps)
  then show ?thesis
    by (simp add: decode_one_def b HEADER_LEN_def del: be_bytes.simps)
qed

lemma encode_decode_one:
  assumes "decode_one input = Inr (f, n)"
  shows "encode f = Inr (take n input) \<and> n \<le> length input"
proof -
  from assms have len: "decoded_len input = Inr n"
      and f: "f = \<lparr>payload = drop 4 (take n input)\<rparr>"
    by (auto simp: decode_one_def and_then_Inr_iff HEADER_LEN_def)
  then have n: "n = be_nat (take 4 input)" "4 \<le> n" "n \<le> length input"
    by (auto simp: decoded_len_def HEADER_LEN_def Let_def split: if_splits)
  then have hdr: "length (take 4 input) = 4" by simp
  then have "be_bytes 4 n = take 4 input"
    using be_bytes_be_nat [of "take 4 input"] n(1) by presburger
  moreover have "n \<le> u32_max"
    using be_nat_bound [of "take 4 input"] n(1) unfolding hdr by (simp add: u32_max_def)
  moreover have "take n input = take 4 input @ drop 4 (take n input)"
    using n(2) append_take_drop_id [of 4 "take n input"] by (simp add: min_absorb1)
  ultimately show ?thesis
    using n f by (simp add: encode_Inr_iff MAX_PAYLOAD_BYTES_def HEADER_LEN_def
        del: be_bytes.simps)
qed

lemma length_encode: "encode f = Inr b \<Longrightarrow> length b = HEADER_LEN + length (payload f)"
  by (auto simp: encode_Inr_iff HEADER_LEN_def)

lemma encode_nonempty: "encode f = Inr b \<Longrightarrow> b \<noteq> []"
  using length_encode by (fastforce simp: HEADER_LEN_def)

lemma decode_one_append:
  assumes "decode_one input = Inr (f, n)"
  shows "decode_one (input @ rest) = Inr (f, n)"
proof -
  from encode_decode_one [OF assms] have e: "encode f = Inr (take n input)" and n: "n \<le> length input"
    by auto
  have "decode_one (take n input @ drop n input @ rest) = Inr (f, length (take n input))"
    using e by (rule decode_one_encode)
  then show ?thesis using n by (simp add: min_absorb2 flip: append_assoc)
qed


section \<open>Runs of frames\<close>

lemma decode_all_bytes_step [frame_simps]:
  "decode_one input = Inr (f, n) \<Longrightarrow>
     decode_all_bytes input = and_then (decode_all_bytes (drop n input)) (\<lambda>fs. Inr (f # fs))"
  by (frule decode_one_consumes) (simp add: decode_all_bytes.simps [of input])

lemma decode_all_bytes_stop [frame_simps]:
  "decode_one input = Inl e \<Longrightarrow> decode_all_bytes input = (if input = [] then Inr [] else Inl e)"
  by (simp add: decode_all_bytes.simps [of input])

lemma decode_complete_prefix_step [frame_simps]:
  "decode_one input = Inr (f, n) \<Longrightarrow>
     decode_complete_prefix input =
       (f # fst (decode_complete_prefix (drop n input)), n + snd (decode_complete_prefix (drop n input)))"
  by (frule decode_one_consumes)
    (simp add: decode_complete_prefix.simps [of input] split: prod.splits)

lemma decode_complete_prefix_halt [frame_simps]:
  "decode_one input = Inl e \<Longrightarrow> decode_complete_prefix input = ([], 0)"
  by (simp add: decode_complete_prefix.simps [of input])

lemma decode_one_cases:
  obtains (stop) e where "decode_one input = Inl e"
  | (step) f n where "decode_one input = Inr (f, n)" "input \<noteq> []"
proof (cases "decode_one input")
  case (Inr r)
  then obtain f n where "decode_one input = Inr (f, n)" by (cases r) auto
  with step decode_one_consumes show ?thesis by blast
qed (rule stop)

lemma encode_all_append:
  "encode_all (fs @ gs) =
     and_then (encode_all fs) (\<lambda>a. and_then (encode_all gs) (\<lambda>b. Inr (a @ b)))"
proof (induction fs)
  case Nil
  show ?case by (cases "encode_all gs") auto
next
  case (Cons f fs)
  then show ?case by (cases "encode f"; cases "encode_all fs"; cases "encode_all gs") auto
qed

lemma decode_all_encode_all:
  "encode_all fs = Inr input \<Longrightarrow> decode_all_bytes input = Inr fs"
proof (induction fs arbitrary: input)
  case Nil
  then show ?case by (simp add: decode_all_bytes.simps)
next
  case (Cons f fs)
  then obtain b bs where b: "encode f = Inr b" and bs: "encode_all fs = Inr bs"
      and input: "input = b @ bs"
    by (auto simp: and_then_Inr_iff)
  with Cons.IH [OF bs] decode_one_encode [OF b, of bs] show ?case by (simp add: frame_simps)
qed

lemma encode_all_decode_all:
  "decode_all_bytes input = Inr fs \<Longrightarrow> encode_all fs = Inr input"
proof (induction input arbitrary: fs rule: decode_all_bytes.induct)
  case (1 input)
  show ?case
  proof (cases input rule: decode_one_cases)
    case stop
    with "1.prems" show ?thesis by (auto simp: frame_simps split: if_splits)
  next
    case (step f n)
    with "1.prems" obtain gs where rest: "decode_all_bytes (drop n input) = Inr gs"
        and fs: "fs = f # gs"
      by (auto simp: frame_simps and_then_Inr_iff)
    have "encode_all gs = Inr (drop n input)"
      using "1.IH" [OF step(2,1) refl rest] .
    with encode_decode_one [OF step(1)] fs show ?thesis by simp
  qed
qed

lemma validate_all_eq:
  "validate_all input = (case decode_all_bytes input of Inl e \<Rightarrow> Inl e | Inr fs \<Rightarrow> Inr (length fs))"
proof (induction input rule: validate_all.induct)
  case (1 input)
  show ?case
  proof (cases "input = [] \<or> (\<exists>e. decoded_len input = Inl e)")
    case True
    then show ?thesis
      by (auto simp: validate_all.simps [of input] decode_all_bytes.simps [of input]
          decode_one_def)
  next
    case False
    then obtain n where n: "decoded_len input = Inr n" and ne: "input \<noteq> []"
      by (cases "decoded_len input") auto
    show ?thesis
      using "1.IH" [OF ne n] n ne
      by (cases "decode_all_bytes (drop n input)")
        (simp_all add: validate_all.simps [of input] decode_all_bytes.simps [of input]
          decode_one_def)
  qed
qed

lemma decode_complete_prefix_sound:
  "n = snd (decode_complete_prefix input) \<Longrightarrow>
     n \<le> length input \<and> encode_all (fst (decode_complete_prefix input)) = Inr (take n input)"
proof (induction input arbitrary: n rule: decode_complete_prefix.induct)
  case (1 input)
  show ?case
  proof (cases input rule: decode_one_cases)
    case stop
    with "1.prems" show ?thesis by (auto simp: frame_simps)
  next
    case (step f m)
    have "snd (decode_complete_prefix (drop m input)) \<le> length input - m"
        and "encode_all (fst (decode_complete_prefix (drop m input)))
          = Inr (take (snd (decode_complete_prefix (drop m input))) (drop m input))"
      using "1.IH" [OF step(2,1) refl refl] by auto
    with encode_decode_one [OF step(1)] "1.prems" step show ?thesis
      by (auto simp: take_add frame_simps)
  qed
qed

text \<open>The decoded prefix of a run of whole frames followed by anything starts with that run.\<close>

lemma decode_complete_prefix_append:
  "encode_all fs = Inr b \<Longrightarrow>
     decode_complete_prefix (b @ rest) =
       (fs @ fst (decode_complete_prefix rest), length b + snd (decode_complete_prefix rest))"
proof (induction fs arbitrary: b)
  case (Cons f fs)
  then obtain c bs where c: "encode f = Inr c" and bs: "encode_all fs = Inr bs"
      and b: "b = c @ bs"
    by (auto simp: and_then_Inr_iff)
  with Cons.IH [OF bs] decode_one_encode [OF c, of "bs @ rest"] show ?case
    by (simp add: frame_simps)
qed simp

lemma decode_complete_prefix_maximal:
  assumes "encode_all gs = Inr (take m input)" and "m \<le> length input"
  shows "m \<le> snd (decode_complete_prefix input) \<and> prefix gs (fst (decode_complete_prefix input))"
  using decode_complete_prefix_append [OF assms(1), of "drop m input"] assms(2)
  by (simp add: min_absorb2)

text \<open>The cumulative end offsets of a list of records.\<close>

fun record_ends :: "record_frame list \<Rightarrow> nat list" where
  "record_ends [] = []"
| "record_ends (f # fs) =
     (HEADER_LEN + length (payload f)) # map ((+) (HEADER_LEN + length (payload f))) (record_ends fs)"

lemma complete_prefix_ends_from_eq:
  "complete_prefix_ends_from k input
     = map ((+) k) (record_ends (fst (decode_complete_prefix (drop k input))))"
proof (induction k input rule: complete_prefix_ends_from.induct)
  case (1 k input)
  show ?case
  proof (cases "decoded_len (drop k input)")
    case (Inl e)
    then have "decode_one (drop k input) = Inl e" by (simp add: decode_one_def)
    with Inl show ?thesis by (simp add: complete_prefix_ends_from.simps [of k] frame_simps)
  next
    case (Inr n)
    then obtain f where one: "decode_one (drop k input) = Inr (f, n)"
      by (auto simp: decode_one_def)
    have "n = HEADER_LEN + length (payload f)"
      using encode_decode_one [OF one] length_encode [of f "take n (drop k input)"] by simp
    with one Inr "1.IH" [OF Inr] show ?thesis
      by (simp add: complete_prefix_ends_from.simps [of k] frame_simps add.commute add.assoc)
  qed
qed


section \<open>Properties\<close>

text \<open>
  C28. Decoding a complete segment is the exact inverse of concatenating encoded
  frames: a byte string decodes to a list of records if and only if it is the
  concatenation of the encodings of exactly those records.  So no record is
  lost, invented or reordered by the framing, and a byte string has one reading.
\<close>

theorem decode_all_bytes_roundtrip:
  "decode_all_bytes input = Inr fs \<longleftrightarrow> encode_all fs = Inr input"
  using decode_all_encode_all encode_all_decode_all by blast

text \<open>
  C29. The prefix recovery reads from an appendable object is sound and maximal:
  it is a run of whole frames at the front of the input, no longer run of whole
  frames starts there, and the offsets computed without copying payloads are
  the end offsets of exactly those records.
\<close>

theorem decode_complete_prefix_longest:
  "case decode_complete_prefix input of (fs, n) \<Rightarrow>
     n \<le> length input \<and> encode_all fs = Inr (take n input)
     \<and> \<not> (\<exists>m gs. n < m \<and> m \<le> length input \<and> encode_all gs = Inr (take m input))
     \<and> complete_prefix_ends input = record_ends fs"
proof -
  obtain fs n where p: "decode_complete_prefix input = (fs, n)" by fastforce
  have "m \<le> n" if "m \<le> length input" "encode_all gs = Inr (take m input)" for m gs
    using decode_complete_prefix_maximal [OF that(2,1)] p by simp
  then have "\<not> (\<exists>m gs. n < m \<and> m \<le> length input \<and> encode_all gs = Inr (take m input))"
    by (meson not_le)
  moreover have "complete_prefix_ends input = record_ends fs"
    using complete_prefix_ends_from_eq [of 0 input] p by (simp add: complete_prefix_ends_def map_idI)
  ultimately show ?thesis
    using decode_complete_prefix_sound [OF refl, of input] p by simp
qed

text \<open>
  C38. Validating a sealed segment without decoding it accepts and rejects the
  same inputs with the same errors as decoding it, and its count is the number
  of records decoding yields.
\<close>

theorem validate_all_counts_records:
  "validate_all input =
     (case decode_all_bytes input of Inl e \<Rightarrow> Inl e | Inr fs \<Rightarrow> Inr (length fs))"
  by (rule validate_all_eq)

end
