(* ===== verification/Transport.thy ===== *)
theory Transport
  imports Text Record_Frame
begin

text \<open>
  The provider-neutral vocabulary of \<open>transport.rs\<close> and \<open>manifest_store.rs\<close> and
  the error types of \<open>protocol.rs\<close> and \<open>error.rs\<close>: failure codes with their
  retry and fencing classification, object snapshots, append tokens, and the
  conversions between the error layers.
\<close>

section \<open>Transport failures\<close>

type_synonym metadata = "string \<rightharpoonup> string"

definition META_FORMAT :: string where "META_FORMAT = ''chorus.format''"
definition FORMAT_VERSION :: string where "FORMAT_VERSION = ''1''"

datatype transport_code =
    NotFound | AlreadyExists | InvalidArgument | FailedPrecondition | Aborted | OutOfRange
  | ResourceExhausted | Unimplemented | DataLoss | Ambiguous | Unauthenticated
  | PermissionDenied | Unavailable | DeadlineExceeded | Internal

fun transient :: "transport_code \<Rightarrow> bool" where
  "transient ResourceExhausted = True"
| "transient Unavailable = True"
| "transient DeadlineExceeded = True"
| "transient Internal = True"
| "transient _ = False"

fun fences_writer :: "transport_code \<Rightarrow> bool" where
  "fences_writer FailedPrecondition = True"
| "fences_writer Aborted = True"
| "fences_writer _ = False"

fun as_metric_label :: "transport_code \<Rightarrow> string" where
  "as_metric_label NotFound = ''NotFound''"
| "as_metric_label AlreadyExists = ''AlreadyExists''"
| "as_metric_label InvalidArgument = ''InvalidArgument''"
| "as_metric_label FailedPrecondition = ''FailedPrecondition''"
| "as_metric_label Aborted = ''Aborted''"
| "as_metric_label OutOfRange = ''OutOfRange''"
| "as_metric_label ResourceExhausted = ''ResourceExhausted''"
| "as_metric_label Unimplemented = ''Unimplemented''"
| "as_metric_label DataLoss = ''DataLoss''"
| "as_metric_label Ambiguous = ''Ambiguous''"
| "as_metric_label Unauthenticated = ''Unauthenticated''"
| "as_metric_label PermissionDenied = ''PermissionDenied''"
| "as_metric_label Unavailable = ''Unavailable''"
| "as_metric_label DeadlineExceeded = ''DeadlineExceeded''"
| "as_metric_label Internal = ''Internal''"

record transport_error =
  te_zone :: nat
  te_code :: transport_code
  te_message :: string

text \<open>The display form \<open>zone {zone}: {code:?}: {message}\<close>; the debug form of a code is its name.\<close>

definition show_transport_error :: "transport_error \<Rightarrow> string" where
  "show_transport_error e =
     ''zone '' @ show_dec (te_zone e) @ '': '' @ as_metric_label (te_code e) @ '': '' @ te_message e"


section \<open>Objects\<close>

text \<open>\<open>ListedObject\<close>, \<open>ReplicaSnapshot\<close>, \<open>ReplicaRangeRead\<close>, \<open>AppendToken\<close>; modification times in
  seconds.\<close>

record listed_object =
  lo_zone :: nat
  lo_name :: string
  lo_generation :: int
  lo_size :: int
  lo_finalized :: bool
  lo_last_modified :: "nat option"
  lo_crc32c :: "nat option"
  lo_metadata :: metadata

record replica_snapshot =
  rs_zone :: nat
  rs_generation :: int
  rs_metageneration :: int
  rs_persisted_size :: int
  rs_finalized :: bool
  rs_crc32c :: "nat option"
  rs_metadata :: metadata
  rs_bytes :: bytes

record replica_range_read =
  rr_zone :: nat
  rr_generation :: int
  rr_bytes :: bytes

record append_token =
  tk_zone :: nat
  tk_generation :: "int option"
  tk_metageneration :: "int option"
  tk_persisted_size :: int
  tk_write_handle :: "bytes option"

record lane_durable_change =
  ldc_persisted_size :: int
  ldc_error :: "transport_error option"


section \<open>Manifest register values and failures\<close>

datatype manifest_version = ManifestVersion (version_number: nat)

record versioned_manifest =
  vm_version :: manifest_version
  vm_fields :: metadata

datatype manifest_store_error = Conflict | RegisterExists | StoreUnavailable string | Backend string

definition GCS_MAX_DIRECTORY_BYTES :: nat where "GCS_MAX_DIRECTORY_BYTES = 6144"

definition store_error :: "transport_error \<Rightarrow> manifest_store_error" where
  "store_error e =
     (case te_code e of
        FailedPrecondition \<Rightarrow> Conflict
      | AlreadyExists \<Rightarrow> RegisterExists
      | code \<Rightarrow> if transient code then StoreUnavailable (show_transport_error e)
                else Backend (show_transport_error e))"


section \<open>Sequence numbers\<close>

datatype wal_seq_no = WalSeqNo (get_seq: nat)

instantiation wal_seq_no :: linorder
begin

definition less_eq_wal_seq_no :: "wal_seq_no \<Rightarrow> wal_seq_no \<Rightarrow> bool" where
  "less_eq_wal_seq_no a b = (get_seq a \<le> get_seq b)"

definition less_wal_seq_no :: "wal_seq_no \<Rightarrow> wal_seq_no \<Rightarrow> bool" where
  "less_wal_seq_no a b = (get_seq a < get_seq b)"

instance
  by standard (auto simp: less_eq_wal_seq_no_def less_wal_seq_no_def wal_seq_no.expand)

end


section \<open>Protocol and public errors\<close>

datatype protocol_error =
    PE_ReplicaCount
  | PE_NoQuorum
  | PE_Poisoned
  | PE_Fenced string
  | PE_ConflictingPrefix nat
  | PE_RecoveryPrefixTooShort nat nat
  | PE_SealDigestMismatch string string
  | PE_SealCrc32cMismatch nat nat
  | PE_InvalidManifest string
  | PE_SegmentDirectoryFull
  | PE_ManifestStore manifest_store_error
  | PE_ManifestUnavailable
  | PE_PipelineClosed
  | PE_Finalized
  | PE_Record record_error
  | PE_Transport transport_error

text \<open>Durations are in nanoseconds.\<close>

datatype error =
    Err_Closed
  | Err_ShutdownTimeout nat
  | Err_Connection string
  | Err_TokenSource string
  | Err_Uninitialized
  | Err_InvalidToken
  | Err_InvalidRefreshInterval
  | Err_InvalidConfig string
  | Err_NoReadQuorum
  | Err_NoQuorum
  | Err_InvalidCatalog string
  | Err_CheckpointRegression wal_seq_no wal_seq_no
  | Err_ReadOnlyLagged wal_seq_no wal_seq_no
  | Err_InvalidSegmentData string
  | Err_ConflictingPrefix nat
  | Err_RecoveryPrefixTooShort nat nat
  | Err_SealDigestMismatch string string
  | Err_SealCrc32cMismatch nat nat
  | Err_InvalidManifest string
  | Err_SegmentDirectoryFull
  | Err_ManifestUnavailable
  | Err_ManifestStore manifest_store_error
  | Err_PipelineClosed
  | Err_Finalized
  | Err_Internal string
  | Err_Poisoned
  | Err_Fenced string
  | Err_OutOfOrder wal_seq_no wal_seq_no
  | Err_RecordTooLarge nat nat
  | Err_ActiveSegmentFull nat nat nat
  | Err_SequenceExhausted
  | Err_RecoveryIncomplete
  | Err_Transport nat transport_code string

fun may_have_committed :: "error \<Rightarrow> bool" where
  "may_have_committed Err_Closed = True"
| "may_have_committed (Err_Internal _) = True"
| "may_have_committed Err_Poisoned = True"
| "may_have_committed (Err_Fenced _) = True"
| "may_have_committed Err_PipelineClosed = True"
| "may_have_committed (Err_Transport _ _ _) = True"
| "may_have_committed _ = False"

definition error_of_transport :: "transport_error \<Rightarrow> error" where
  "error_of_transport e = Err_Transport (te_zone e) (te_code e) (te_message e)"

fun show_record_error :: "record_error \<Rightarrow> string" where
  "show_record_error Truncated = ''truncated record''"
| "show_record_error (InvalidLength n) = ''invalid record length '' @ show_dec n"
| "show_record_error TooLarge = ''record exceeds u32 bytes''"

definition error_of_record :: "record_error \<Rightarrow> error" where
  "error_of_record e = Err_InvalidSegmentData (show_record_error e)"

fun error_of_protocol :: "protocol_error \<Rightarrow> error" where
  "error_of_protocol PE_ReplicaCount = Err_InvalidConfig ''replica count must be 1, 3, or 5''"
| "error_of_protocol PE_NoQuorum = Err_NoQuorum"
| "error_of_protocol PE_Poisoned = Err_Poisoned"
| "error_of_protocol (PE_Fenced m) = Err_Fenced m"
| "error_of_protocol (PE_ConflictingPrefix i) = Err_ConflictingPrefix i"
| "error_of_protocol (PE_RecoveryPrefixTooShort e a) = Err_RecoveryPrefixTooShort e a"
| "error_of_protocol (PE_SealDigestMismatch e a) = Err_SealDigestMismatch e a"
| "error_of_protocol (PE_SealCrc32cMismatch e a) = Err_SealCrc32cMismatch e a"
| "error_of_protocol (PE_InvalidManifest m) = Err_InvalidManifest m"
| "error_of_protocol PE_SegmentDirectoryFull = Err_SegmentDirectoryFull"
| "error_of_protocol (PE_ManifestStore e) = Err_ManifestStore e"
| "error_of_protocol PE_ManifestUnavailable = Err_ManifestUnavailable"
| "error_of_protocol PE_PipelineClosed = Err_PipelineClosed"
| "error_of_protocol PE_Finalized = Err_Finalized"
| "error_of_protocol (PE_Record e) = error_of_record e"
| "error_of_protocol (PE_Transport e) = error_of_transport e"


section \<open>Classification lemmas\<close>

lemma transient_not_fencing: "transient c \<Longrightarrow> \<not> fences_writer c"
  by (cases c) auto

lemma fencing_not_transient: "fences_writer c \<Longrightarrow> \<not> transient c"
  by (cases c) auto

lemma error_of_transport_ambiguous [simp]: "may_have_committed (error_of_transport e)"
  by (simp add: error_of_transport_def)

lemma as_metric_label_inj: "as_metric_label a = as_metric_label b \<longleftrightarrow> a = b"
  by (cases a; cases b; simp)

end
