(* ===== verification/Commit_Tracker.thy ===== *)
theory Commit_Tracker
  imports Transport
begin

text \<open>
  The commit tracker of \<open>protocol.rs\<close>: lanes publish monotonic durable byte
  offsets, and the tracker resolves the quorum offset against the record
  boundaries that are still unresolved.  The mutex-protected state, the watch
  channel and the per-zone lag gauge are one record; every method is a function
  on it.  A zone index outside the lane vector panics in the source, which is
  \<open>None\<close> here.
\<close>

section \<open>Definitions\<close>

definition majority :: "nat \<Rightarrow> nat" where
  "majority replica_count = replica_count div 2 + 1"

definition SUPPORTED_REPLICA_COUNTS :: "nat list" where
  "SUPPORTED_REPLICA_COUNTS = [1, 3, 5]"

datatype commit_failure =
    CF_Poisoned
  | CF_Fenced string
  | CF_Transport transport_error

fun commit_failure_error :: "commit_failure \<Rightarrow> protocol_error" where
  "commit_failure_error CF_Poisoned = PE_Poisoned"
| "commit_failure_error (CF_Fenced m) = PE_Fenced m"
| "commit_failure_error (CF_Transport e) = PE_Transport e"

record commit_snapshot =
  sn_committed :: nat
  sn_failure :: "commit_failure option"

record lane_commit_state =
  lc_durable :: int
  lc_represented_end :: int
  lc_finished :: bool
  lc_error :: "transport_error option"

definition default_lane :: lane_commit_state where
  "default_lane = \<lparr>lc_durable = 0, lc_represented_end = 0, lc_finished = True, lc_error = None\<rparr>"

record commit_state =
  boundaries :: "int list"
  admitted :: nat
  committed :: nat
  committed_bytes :: nat
  failure :: "commit_failure option"
  lanes :: "lane_commit_state list"

record commit_tracker =
  quorum :: nat
  state :: commit_state
  updates :: commit_snapshot
  lag_gauge :: "int list"

definition lane_durable_lag :: "lane_commit_state \<Rightarrow> int" where
  "lane_durable_lag lane =
     (if lc_finished lane then 0 else max 0 (lc_represented_end lane - lc_durable lane))"

definition quorum_durable_watermark :: "lane_commit_state list \<Rightarrow> nat \<Rightarrow> int" where
  "quorum_durable_watermark ls q = sort (map lc_durable ls) ! (length ls - q)"

fun prefer_lower_zone :: "transport_error option \<Rightarrow> transport_error \<Rightarrow> transport_error option" where
  "prefer_lower_zone None candidate = Some candidate"
| "prefer_lower_zone (Some existing) candidate =
     (if te_zone candidate < te_zone existing then Some candidate else Some existing)"

fun classify_lane_errors ::
  "transport_error option \<times> transport_error option \<Rightarrow> transport_error list
     \<Rightarrow> transport_error option \<times> transport_error option" where
  "classify_lane_errors acc [] = acc"
| "classify_lane_errors (fenced, terminal) (e # es) =
     classify_lane_errors
       (if fences_writer (te_code e) then (prefer_lower_zone fenced e, terminal)
        else if \<not> transient (te_code e) then (fenced, prefer_lower_zone terminal e)
        else (fenced, terminal)) es"

definition select_commit_failure :: "lane_commit_state list \<Rightarrow> int \<Rightarrow> commit_failure" where
  "select_commit_failure ls boundary =
     (let represented = filter (\<lambda>l. lc_represented_end l \<ge> boundary) ls
      in case classify_lane_errors (None, None) (List.map_filter lc_error represented) of
           (Some e, _) \<Rightarrow> CF_Fenced (show_transport_error e)
         | (None, Some e) \<Rightarrow> CF_Transport e
         | (None, None) \<Rightarrow> CF_Poisoned)"

text \<open>The loop of \<open>recompute_locked\<close> that pops every boundary the watermark covers.\<close>

fun drain_boundaries :: "int \<Rightarrow> int list \<Rightarrow> nat \<Rightarrow> nat \<Rightarrow> int list \<times> nat \<times> nat" where
  "drain_boundaries w [] c cb = ([], c, cb)"
| "drain_boundaries w (b # bs) c cb =
     (if b \<le> w then drain_boundaries w bs (c + 1) (nat b) else (b # bs, c, cb))"

definition possible_lanes :: "lane_commit_state list \<Rightarrow> int \<Rightarrow> nat" where
  "possible_lanes ls oldest =
     length (filter (\<lambda>l. lc_durable l \<ge> oldest
        \<or> (\<not> lc_finished l \<and> lc_represented_end l \<ge> oldest)) ls)"

definition publish_locked :: "commit_tracker \<Rightarrow> commit_tracker" where
  "publish_locked t =
     t\<lparr>updates := \<lparr>sn_committed = committed (state t), sn_failure = failure (state t)\<rparr>\<rparr>"

definition recompute_state :: "nat \<Rightarrow> commit_state \<Rightarrow> commit_state" where
  "recompute_state q s =
     (let w = quorum_durable_watermark (lanes s) q;
          (bs, c, cb) = drain_boundaries w (boundaries s) (committed s) (committed_bytes s);
          s1 = s\<lparr>boundaries := bs, committed := c, committed_bytes := cb\<rparr>
      in case bs of
           [] \<Rightarrow> s1
         | oldest # _ \<Rightarrow>
             if possible_lanes (lanes s) oldest < q
             then s1\<lparr>failure := Some (select_commit_failure (lanes s) oldest)\<rparr>
             else s1)"

text \<open>
  \<open>publish_locked\<close> runs only when something changed.  Publishing an unchanged
  state would store the snapshot the channel already holds, so the change test
  is part of the model only as the comparison below.
\<close>

definition recompute_locked :: "commit_tracker \<Rightarrow> commit_tracker" where
  "recompute_locked t =
     (if failure (state t) \<noteq> None then t
      else let s = recompute_state (quorum t) (state t);
               t1 = t\<lparr>state := s\<rparr>
           in if committed s \<noteq> committed (state t) \<or> failure s \<noteq> None
              then publish_locked t1 else t1)"

definition tracker_new :: "nat \<Rightarrow> nat \<Rightarrow> int list \<Rightarrow> commit_tracker" where
  "tracker_new n q gauge =
     \<lparr>quorum = q,
      state = \<lparr>boundaries = [], admitted = 0, committed = 0, committed_bytes = 0,
               failure = None, lanes = replicate n default_lane\<rparr>,
      updates = \<lparr>sn_committed = 0, sn_failure = None\<rparr>,
      lag_gauge = gauge\<rparr>"

text \<open>Updating one lane adjusts that zone's gauge by the change of its lag.\<close>

definition set_lane ::
  "nat \<Rightarrow> (lane_commit_state \<Rightarrow> lane_commit_state) \<Rightarrow> commit_tracker \<Rightarrow> commit_tracker" where
  "set_lane z f t =
     (let l = lanes (state t) ! z; l' = f l
      in t\<lparr>state := (state t)\<lparr>lanes := (lanes (state t))[z := l']\<rparr>,
           lag_gauge := (lag_gauge t)[z := lag_gauge t ! z + (lane_durable_lag l' - lane_durable_lag l)]\<rparr>)"

definition activate_lane :: "nat \<Rightarrow> int \<Rightarrow> commit_tracker \<Rightarrow> commit_tracker option" where
  "activate_lane z d t =
     (if z < length (lanes (state t))
      then Some (set_lane z (\<lambda>l. l\<lparr>lc_durable := max d 0, lc_finished := False\<rparr>) t)
      else None)"

fun represent_zones :: "int \<Rightarrow> nat list \<Rightarrow> commit_tracker \<Rightarrow> commit_tracker option" where
  "represent_zones end [] t = Some t"
| "represent_zones end (z # zs) t =
     (if z < length (lanes (state t))
      then represent_zones end zs
             (set_lane z (\<lambda>l. l\<lparr>lc_represented_end := max (lc_represented_end l) end\<rparr>) t)
      else None)"

text \<open>The admitted range is \<open>(first_offset, end_offset)\<close>; an empty window panics.\<close>

definition admit_window ::
  "int list \<Rightarrow> nat list \<Rightarrow> commit_tracker \<Rightarrow> (commit_tracker \<times> nat \<times> nat) option" where
  "admit_window bs zones t =
     (if bs = [] then None
      else let first = admitted (state t);
               t1 = t\<lparr>state := (state t)\<lparr>admitted := first + length bs,
                                          boundaries := boundaries (state t) @ bs\<rparr>\<rparr>
           in case represent_zones (last bs) zones t1 of
                None \<Rightarrow> None
              | Some t2 \<Rightarrow> let t3 = recompute_locked t2 in Some (t3, first, admitted (state t3)))"

definition publish_durable :: "nat \<Rightarrow> int \<Rightarrow> commit_tracker \<Rightarrow> commit_tracker option" where
  "publish_durable z d t =
     (if z < length (lanes (state t))
      then if d \<le> lc_durable (lanes (state t) ! z) then Some t
           else Some (recompute_locked (set_lane z (\<lambda>l. l\<lparr>lc_durable := d\<rparr>) t))
      else None)"

definition finish_lane :: "nat \<Rightarrow> transport_error option \<Rightarrow> commit_tracker \<Rightarrow> commit_tracker option" where
  "finish_lane z e t =
     (if z < length (lanes (state t))
      then let t1 = set_lane z (\<lambda>l. l\<lparr>lc_finished := True,
                                     lc_error := (case e of None \<Rightarrow> lc_error l | Some _ \<Rightarrow> e)\<rparr>) t
           in Some (case e of
                Some err \<Rightarrow>
                  if fences_writer (te_code err)
                  then if failure (state t1) = None
                       then publish_locked
                              (t1\<lparr>state := (state t1)\<lparr>failure := Some (CF_Fenced (show_transport_error err))\<rparr>\<rparr>)
                       else t1
                  else recompute_locked t1
              | None \<Rightarrow> recompute_locked t1)
      else None)"

definition poison :: "commit_tracker \<Rightarrow> commit_tracker" where
  "poison t =
     (if failure (state t) = None
      then publish_locked (t\<lparr>state := (state t)\<lparr>failure := Some CF_Poisoned\<rparr>\<rparr>)
      else t)"

definition admitted_len :: "commit_tracker \<Rightarrow> nat" where
  "admitted_len t = admitted (state t)"

definition committed_len :: "commit_tracker \<Rightarrow> nat" where
  "committed_len t = committed (state t)"

definition is_poisoned :: "commit_tracker \<Rightarrow> bool" where
  "is_poisoned t = (failure (state t) \<noteq> None)"

text \<open>What a waiter on an admitted range observes, \<open>CommitRange::progress\<close>.\<close>

definition range_progress :: "commit_tracker \<Rightarrow> nat \<times> protocol_error option" where
  "range_progress t =
     (sn_committed (updates t), map_option commit_failure_error (sn_failure (updates t)))"

text \<open>Dropping the tracker takes the remaining lag of every lane off the gauge.\<close>

definition drop_tracker :: "commit_tracker \<Rightarrow> commit_tracker" where
  "drop_tracker t =
     t\<lparr>state := (state t)\<lparr>lanes := map (\<lambda>l. if lane_durable_lag l \<noteq> 0 then l\<lparr>lc_finished := True\<rparr> else l)
                             (lanes (state t))\<rparr>,
       lag_gauge := map (\<lambda>z. if z < length (lanes (state t))
                             then lag_gauge t ! z - lane_durable_lag (lanes (state t) ! z)
                             else lag_gauge t ! z) [0..<length (lag_gauge t)]\<rparr>"


section \<open>Executions\<close>

text \<open>
  The calls a segment's writer and its lanes make on the tracker.  Lanes are
  activated while the writer is built, before any record is admitted; admitted
  boundaries are positive cumulative offsets.  \<open>run_tracker\<close> also accumulates
  every boundary admitted so far.
\<close>

datatype tracker_event =
    Activate nat int
  | Admit "int list" "nat list"
  | Durable nat int
  | Finish nat "transport_error option"
  | Poison

fun tracker_step :: "int list \<times> commit_tracker \<Rightarrow> tracker_event \<Rightarrow> (int list \<times> commit_tracker) option" where
  "tracker_step (bs, t) (Activate z d) =
     (if bs = [] then map_option (Pair bs) (activate_lane z d t) else None)"
| "tracker_step (bs, t) (Admit ws zones) =
     (if sorted (0 # bs @ ws) then map_option (\<lambda>(t', _, _). (bs @ ws, t')) (admit_window ws zones t)
      else None)"
| "tracker_step (bs, t) (Durable z d) = map_option (Pair bs) (publish_durable z d t)"
| "tracker_step (bs, t) (Finish z e) = map_option (Pair bs) (finish_lane z e t)"
| "tracker_step (bs, t) Poison = Some (bs, poison t)"

fun run_tracker :: "int list \<times> commit_tracker \<Rightarrow> tracker_event list \<Rightarrow> (int list \<times> commit_tracker) option" where
  "run_tracker c [] = Some c"
| "run_tracker c (e # es) = (case tracker_step c e of None \<Rightarrow> None | Some c' \<Rightarrow> run_tracker c' es)"


section \<open>The watermark\<close>

lemma majority_bounds: "0 < n \<Longrightarrow> 0 < majority n \<and> majority n \<le> n \<and> n < 2 * majority n"
  by (auto simp: majority_def)

lemma watermark_iff:
  assumes "0 < q" "q \<le> length ls"
  shows "v \<le> quorum_durable_watermark ls q \<longleftrightarrow> q \<le> length (filter (\<lambda>l. v \<le> lc_durable l) ls)"
  using quorum_value_iff [of q "map lc_durable ls" v] assms
  by (simp add: quorum_durable_watermark_def filter_map o_def)

lemma length_filter_list_update:
  "z < length xs \<Longrightarrow> (P (xs ! z) \<Longrightarrow> P y) \<Longrightarrow>
     length (filter P xs) \<le> length (filter P (xs[z := y]))"
proof (induction xs arbitrary: z)
  case (Cons x xs)
  then show ?case by (cases z) auto
qed simp

lemma watermark_mono:
  assumes "0 < q" "q \<le> length ls" "z < length ls" "lc_durable (ls ! z) \<le> lc_durable l"
  shows "quorum_durable_watermark ls q \<le> quorum_durable_watermark (ls[z := l]) q"
proof -
  let ?w = "quorum_durable_watermark ls q"
  have "q \<le> length (filter (\<lambda>l. ?w \<le> lc_durable l) ls)"
    using watermark_iff [of q ls ?w] assms by simp
  also have "\<dots> \<le> length (filter (\<lambda>l. ?w \<le> lc_durable l) (ls[z := l]))"
    using assms by (intro length_filter_list_update) auto
  finally show ?thesis using watermark_iff [of q "ls[z := l]" ?w] assms by simp
qed


section \<open>Draining\<close>

lemma drain_boundaries_drop:
  assumes "c \<le> length bs" and "sorted bs"
  shows "\<exists>c'. drain_boundaries w (drop c bs) c cb
           = (drop c' bs, c', if c' = c then cb else nat (bs ! (c' - 1)))
       \<and> c \<le> c' \<and> c' \<le> length bs \<and> (c < c' \<longrightarrow> bs ! (c' - 1) \<le> w) \<and> (c' < length bs \<longrightarrow> w < bs ! c')"
  using assms
proof (induction "length bs - c" arbitrary: c cb)
  case 0
  then show ?case by (intro exI [of _ c]) simp
next
  case (Suc k)
  then have c: "c < length bs" by simp
  then have d: "drop c bs = bs ! c # drop (Suc c) bs" by (simp add: Cons_nth_drop_Suc)
  show ?case
  proof (cases "bs ! c \<le> w")
    case True
    have k: "k = length bs - Suc c" using Suc.hyps(2) by simp
    obtain c' where c': "drain_boundaries w (drop (Suc c) bs) (Suc c) (nat (bs ! c))
           = (drop c' bs, c', if c' = Suc c then nat (bs ! c) else nat (bs ! (c' - 1)))"
        "Suc c \<le> c'" "c' \<le> length bs" "Suc c < c' \<longrightarrow> bs ! (c' - 1) \<le> w" "c' < length bs \<longrightarrow> w < bs ! c'"
      using Suc.hyps(1) [OF k, of "nat (bs ! c)"] Suc.prems c by auto
    then have "c < c' \<and> bs ! (c' - 1) \<le> w" using True by (cases "c' = Suc c") auto
    with c' d True show ?thesis by (intro exI [of _ c']) auto
  next
    case False
    with d c show ?thesis by (intro exI [of _ c]) simp
  qed
qed


section \<open>Invariant\<close>

text \<open>
  The part every operation keeps at every moment: the unresolved boundaries are
  the admitted ones past the committed count, the committed prefix is covered by
  the quorum watermark, the channel shows the current state, and each zone's
  gauge exceeds its initial value by that lane's lag.
\<close>

definition tracker_core :: "nat \<Rightarrow> nat \<Rightarrow> int list \<Rightarrow> int list \<Rightarrow> commit_tracker \<Rightarrow> bool" where
  "tracker_core n q g bs t \<longleftrightarrow>
     0 < q \<and> q \<le> n \<and> quorum t = q \<and> length (lanes (state t)) = n \<and> length g = n
   \<and> sorted (0 # bs) \<and> admitted (state t) = length bs \<and> committed (state t) \<le> length bs
   \<and> boundaries (state t) = drop (committed (state t)) bs
   \<and> committed_bytes (state t) =
       (if committed (state t) = 0 then 0 else nat (bs ! (committed (state t) - 1)))
   \<and> (0 < committed (state t) \<longrightarrow>
       bs ! (committed (state t) - 1) \<le> quorum_durable_watermark (lanes (state t)) q)
   \<and> updates t = \<lparr>sn_committed = committed (state t), sn_failure = failure (state t)\<rparr>
   \<and> length (lag_gauge t) = n
   \<and> (\<forall>z < n. lag_gauge t ! z = g ! z + lane_durable_lag (lanes (state t) ! z))"

text \<open>While no failure is recorded nothing committable is pending, and the oldest record can commit.\<close>

definition tracker_settled :: "nat \<Rightarrow> commit_tracker \<Rightarrow> bool" where
  "tracker_settled q t \<longleftrightarrow>
     (failure (state t) = None \<and> boundaries (state t) \<noteq> [] \<longrightarrow>
        quorum_durable_watermark (lanes (state t)) q < hd (boundaries (state t))
      \<and> q \<le> possible_lanes (lanes (state t)) (hd (boundaries (state t))))"

lemma recompute_state_fields [tracker_simps]:
  "lanes (recompute_state q s) = lanes s"
  "admitted (recompute_state q s) = admitted s"
  "boundaries (recompute_state q s) =
     fst (drain_boundaries (quorum_durable_watermark (lanes s) q) (boundaries s) (committed s) (committed_bytes s))"
  "committed (recompute_state q s) =
     fst (snd (drain_boundaries (quorum_durable_watermark (lanes s) q) (boundaries s) (committed s) (committed_bytes s)))"
  "committed_bytes (recompute_state q s) =
     snd (snd (drain_boundaries (quorum_durable_watermark (lanes s) q) (boundaries s) (committed s) (committed_bytes s)))"
  by (simp_all add: recompute_state_def Let_def split: prod.splits list.splits)

lemma recompute_state_failure [tracker_simps]:
  "failure (recompute_state q s) =
     (case boundaries (recompute_state q s) of
        [] \<Rightarrow> failure s
      | b # _ \<Rightarrow> if possible_lanes (lanes s) b < q then Some (select_commit_failure (lanes s) b) else failure s)"
  by (simp add: recompute_state_fields) (simp add: recompute_state_def Let_def split: prod.splits list.splits)

lemma recompute_locked_fields [tracker_simps]:
  "quorum (recompute_locked t) = quorum t"
  "lag_gauge (recompute_locked t) = lag_gauge t"
  "state (recompute_locked t) =
     (if failure (state t) = None then recompute_state (quorum t) (state t) else state t)"
  by (simp_all add: recompute_locked_def publish_locked_def Let_def)

definition snapshot_of :: "commit_state \<Rightarrow> commit_snapshot" where
  "snapshot_of s = \<lparr>sn_committed = committed s, sn_failure = failure s\<rparr>"

lemma recompute_locked_updates:
  "updates t = snapshot_of (state t) \<Longrightarrow>
     updates (recompute_locked t) = snapshot_of (state (recompute_locked t))"
  by (auto simp: recompute_locked_def publish_locked_def snapshot_of_def Let_def)

lemma recompute_preserves:
  assumes core: "tracker_core n q g bs t"
  shows "tracker_core n q g bs (recompute_locked t) \<and> tracker_settled q (recompute_locked t)"
proof (cases "failure (state t)")
  case (Some f)
  then have "recompute_locked t = t" by (simp add: recompute_locked_def)
  with core Some show ?thesis by (simp add: tracker_settled_def)
next
  case None
  let ?s = "state t" and ?w = "quorum_durable_watermark (lanes (state t)) q"
    and ?t = "recompute_locked t"
  have q: "quorum t = q" and bs: "sorted bs" and c: "committed ?s \<le> length bs"
      and bnd: "boundaries ?s = drop (committed ?s) bs"
      and upd: "updates ?t = snapshot_of (state ?t)"
    using core recompute_locked_updates [of t] by (auto simp: tracker_core_def snapshot_of_def)
  obtain c' where dr: "drain_boundaries ?w (boundaries ?s) (committed ?s) (committed_bytes ?s)
        = (drop c' bs, c', if c' = committed ?s then committed_bytes ?s else nat (bs ! (c' - 1)))"
      and c': "committed ?s \<le> c'" "c' \<le> length bs" "committed ?s < c' \<longrightarrow> bs ! (c' - 1) \<le> ?w"
        "c' < length bs \<longrightarrow> ?w < bs ! c'"
    using drain_boundaries_drop [OF c bs] unfolding bnd by metis
  have fields: "lanes (state ?t) = lanes ?s" "admitted (state ?t) = admitted ?s"
      "boundaries (state ?t) = drop c' bs" "committed (state ?t) = c'"
      "committed_bytes (state ?t) = (if c' = committed ?s then committed_bytes ?s else nat (bs ! (c' - 1)))"
    using None by (simp_all add: tracker_simps q dr)
  have "tracker_core n q g bs ?t"
    unfolding tracker_core_def fields upd snapshot_of_def
    using core c' by (auto simp: tracker_core_def recompute_locked_fields)
  moreover have "tracker_settled q ?t"
  proof (cases "drop c' bs")
    case Nil
    then show ?thesis by (simp add: tracker_settled_def fields)
  next
    case (Cons b rest)
    then have "b = bs ! c'" "c' < length bs"
      by (metis hd_drop_conv_nth list.sel(1) drop_eq_Nil2 leI list.discI)
        (metis Cons drop_eq_Nil leI list.discI)
    moreover have "failure (state ?t) = None \<Longrightarrow> q \<le> possible_lanes (lanes ?s) b"
      using None Cons by (auto simp: recompute_locked_fields recompute_state_failure
          recompute_state_fields q dr split: if_splits)
    ultimately show ?thesis using c' Cons by (simp add: tracker_settled_def fields)
  qed
  ultimately show ?thesis by blast
qed

lemma set_lane_fields [tracker_simps]:
  "quorum (set_lane z f t) = quorum t"
  "updates (set_lane z f t) = updates t"
  "lanes (state (set_lane z f t)) = (lanes (state t))[z := f (lanes (state t) ! z)]"
  "boundaries (state (set_lane z f t)) = boundaries (state t)"
  "admitted (state (set_lane z f t)) = admitted (state t)"
  "committed (state (set_lane z f t)) = committed (state t)"
  "committed_bytes (state (set_lane z f t)) = committed_bytes (state t)"
  "failure (state (set_lane z f t)) = failure (state t)"
  "lag_gauge (set_lane z f t) = (lag_gauge t)[z := lag_gauge t ! z
     + (lane_durable_lag (f (lanes (state t) ! z)) - lane_durable_lag (lanes (state t) ! z))]"
  by (simp_all add: set_lane_def Let_def)

lemma set_lane_core:
  assumes core: "tracker_core n q g bs t" and z: "z < n"
    and mono: "bs = [] \<or> lc_durable (lanes (state t) ! z) \<le> lc_durable (f (lanes (state t) ! z))"
  shows "tracker_core n q g bs (set_lane z f t)"
proof -
  have "bs ! (committed (state t) - 1) \<le> quorum_durable_watermark ((lanes (state t))[z := f (lanes (state t) ! z)]) q"
    if "0 < committed (state t)"
  proof -
    have "bs \<noteq> []" using that core by (auto simp: tracker_core_def)
    then have "quorum_durable_watermark (lanes (state t)) q
        \<le> quorum_durable_watermark ((lanes (state t))[z := f (lanes (state t) ! z)]) q"
      using mono z core by (intro watermark_mono) (auto simp: tracker_core_def)
    then show ?thesis using that core by (auto simp: tracker_core_def)
  qed
  with core z show ?thesis
    by (auto simp: tracker_core_def set_lane_fields nth_list_update)
qed

lemma represent_zones_core:
  "tracker_core n q g bs t \<Longrightarrow> represent_zones end zs t = Some t' \<Longrightarrow> tracker_core n q g bs t'"
proof (induction zs arbitrary: t)
  case (Cons z zs)
  then have "z < n" by (auto simp: tracker_core_def split: if_splits)
  then have "tracker_core n q g bs
      (set_lane z (\<lambda>l. l\<lparr>lc_represented_end := max (lc_represented_end l) end\<rparr>) t)"
    using Cons.prems by (intro set_lane_core) auto
  with Cons show ?case by (auto split: if_splits)
qed simp

lemma admit_window_inv:
  assumes core: "tracker_core n q g bs t" and "sorted (0 # bs @ ws)"
    and "admit_window ws zones t = Some (t', first, end)"
  shows "tracker_core n q g (bs @ ws) t' \<and> tracker_settled q t'"
proof -
  let ?t1 = "t\<lparr>state := (state t)\<lparr>admitted := admitted (state t) + length ws,
                 boundaries := boundaries (state t) @ ws\<rparr>\<rparr>"
  obtain t2 where t2: "represent_zones (last ws) zones ?t1 = Some t2" and t': "t' = recompute_locked t2"
    using assms(3) by (auto simp: admit_window_def Let_def split: if_splits option.splits)
  have "tracker_core n q g (bs @ ws) ?t1"
    using core assms(2) by (auto simp: tracker_core_def nth_append)
  then have "tracker_core n q g (bs @ ws) t2" using t2 by (rule represent_zones_core)
  then show ?thesis unfolding t' by (rule recompute_preserves)
qed

lemma fail_core:
  assumes "tracker_core n q g bs t"
  shows "tracker_core n q g bs (publish_locked (t\<lparr>state := (state t)\<lparr>failure := Some f\<rparr>\<rparr>))
    \<and> tracker_settled q (publish_locked (t\<lparr>state := (state t)\<lparr>failure := Some f\<rparr>\<rparr>))"
  using assms by (simp add: tracker_core_def tracker_settled_def publish_locked_def)

lemma finish_lane_inv:
  assumes core: "tracker_core n q g bs t" and fin: "finish_lane z e t = Some t'"
  shows "tracker_core n q g bs t' \<and> tracker_settled q t'"
proof -
  let ?t1 = "set_lane z (\<lambda>l. l\<lparr>lc_finished := True,
      lc_error := (case e of None \<Rightarrow> lc_error l | Some _ \<Rightarrow> e)\<rparr>) t"
  have "z < n" using core fin by (auto simp: finish_lane_def tracker_core_def split: if_splits)
  then have core1: "tracker_core n q g bs ?t1" using core by (intro set_lane_core) auto
  have "tracker_settled q ?t1" if "failure (state ?t1) \<noteq> None"
    using that by (auto simp: tracker_settled_def)
  then show ?thesis
    using fin core1 recompute_preserves [OF core1] fail_core [OF core1]
    by (auto simp: finish_lane_def Let_def split: if_splits option.splits)
qed

lemma publish_durable_inv:
  assumes core: "tracker_core n q g bs t" and settled: "tracker_settled q t"
    and pub: "publish_durable z d t = Some t'"
  shows "tracker_core n q g bs t' \<and> tracker_settled q t'"
proof (cases "d \<le> lc_durable (lanes (state t) ! z)")
  case True
  with pub core settled show ?thesis by (auto simp: publish_durable_def split: if_splits)
next
  case False
  have "z < n" using core pub by (auto simp: publish_durable_def tracker_core_def split: if_splits)
  then have "tracker_core n q g bs (set_lane z (\<lambda>l. l\<lparr>lc_durable := d\<rparr>) t)"
    using core False by (intro set_lane_core) auto
  with recompute_preserves False pub show ?thesis
    by (auto simp: publish_durable_def split: if_splits)
qed

lemma activate_lane_inv:
  assumes core: "tracker_core n q g [] t" and act: "activate_lane z d t = Some t'"
  shows "tracker_core n q g [] t' \<and> tracker_settled q t'"
proof -
  have "z < n" using core act by (auto simp: activate_lane_def tracker_core_def split: if_splits)
  with core have "tracker_core n q g [] (set_lane z (\<lambda>l. l\<lparr>lc_durable := max d 0, lc_finished := False\<rparr>) t)"
    by (intro set_lane_core) auto
  with act show ?thesis
    by (auto simp: activate_lane_def tracker_core_def tracker_settled_def split: if_splits)
qed

lemma tracker_step_inv:
  assumes "tracker_core n q g bs t" "tracker_settled q t" "tracker_step (bs, t) e = Some (bs', t')"
  shows "tracker_core n q g bs' t' \<and> tracker_settled q t'"
proof (cases e)
  case (Admit ws zones)
  with assms(3) obtain i j where w: "sorted (0 # bs @ ws)" "admit_window ws zones t = Some (t', i, j)"
      "bs' = bs @ ws"
    by (auto split: if_splits)
  show ?thesis unfolding w(3) by (rule admit_window_inv [OF assms(1) w(1,2)])
next
  case Poison
  with assms fail_core [OF assms(1)] show ?thesis by (auto simp: poison_def split: if_splits)
next
  case (Activate z d)
  with assms(3) have "bs = []" "bs' = []" "activate_lane z d t = Some t'" by (auto split: if_splits)
  with assms(1) show ?thesis using activate_lane_inv by blast
next
  case (Durable z d)
  with assms(3) have "bs' = bs" "publish_durable z d t = Some t'" by auto
  with assms(1,2) show ?thesis using publish_durable_inv by blast
next
  case (Finish z err)
  with assms(3) have "bs' = bs" "finish_lane z err t = Some t'" by auto
  with assms(1) show ?thesis using finish_lane_inv by blast
qed

lemma tracker_new_inv:
  assumes "0 < q" "q \<le> n" "length g = n"
  shows "tracker_core n q g [] (tracker_new n q g) \<and> tracker_settled q (tracker_new n q g)"
  using assms
  by (auto simp: tracker_core_def tracker_settled_def tracker_new_def default_lane_def lane_durable_lag_def)

lemma run_tracker_inv:
  assumes "tracker_core n q g bs t" "tracker_settled q t" "run_tracker (bs, t) es = Some (bs', t')"
  shows "tracker_core n q g bs' t' \<and> tracker_settled q t'"
  using assms
proof (induction es arbitrary: bs t)
  case (Cons e es)
  then obtain bs1 t1 where "tracker_step (bs, t) e = Some (bs1, t1)" "run_tracker (bs1, t1) es = Some (bs', t')"
    by (auto split: option.splits)
  with Cons tracker_step_inv show ?case by blast
qed simp

lemma run_tracker_reachable_inv:
  assumes "0 < q" "q \<le> n" "length g = n" "run_tracker ([], tracker_new n q g) es = Some (bs, t)"
  shows "tracker_core n q g bs t \<and> tracker_settled q t"
  using run_tracker_inv [OF _ _ assms(4)] tracker_new_inv [OF assms(1-3)] by blast


section \<open>Monotonicity\<close>

lemma drain_boundaries_mono: "c \<le> fst (snd (drain_boundaries w bs c cb))"
proof (induction w bs c cb rule: drain_boundaries.induct)
  case (2 w b bs c cb)
  then show ?case by (cases "b \<le> w") auto
qed simp

lemma recompute_locked_mono:
  "committed (state t) \<le> committed (state (recompute_locked t))"
  "failure (state t) \<noteq> None \<Longrightarrow> recompute_locked t = t"
  "admitted (state (recompute_locked t)) = admitted (state t)"
  by (simp_all add: recompute_locked_fields recompute_state_fields drain_boundaries_mono)
    (simp add: recompute_locked_def)

lemma represent_zones_fields:
  "represent_zones end zs t = Some t' \<Longrightarrow>
     committed (state t') = committed (state t) \<and> failure (state t') = failure (state t)
   \<and> admitted (state t') = admitted (state t)"
  by (induction zs arbitrary: t) (auto simp: set_lane_fields split: if_splits)

definition tracker_advances :: "commit_tracker \<Rightarrow> commit_tracker \<Rightarrow> bool" where
  "tracker_advances t t' \<longleftrightarrow>
     committed (state t) \<le> committed (state t') \<and> admitted (state t) \<le> admitted (state t')
   \<and> (failure (state t) \<noteq> None \<longrightarrow>
        failure (state t') = failure (state t) \<and> committed (state t') = committed (state t))"

lemma recompute_advances:
  assumes "committed (state t1) = committed (state t)" "failure (state t1) = failure (state t)"
    "admitted (state t) \<le> admitted (state t1)"
  shows "tracker_advances t (recompute_locked t1)"
  using recompute_locked_mono [of t1] assms by (auto simp: tracker_advances_def)

lemma tracker_step_advances:
  assumes "tracker_step (bs, t) e = Some (bs', t')"
  shows "tracker_advances t t'"
proof (cases e)
  case (Admit ws zones)
  with assms show ?thesis
    by (auto simp: admit_window_def Let_def dest!: represent_zones_fields
        split: if_splits option.splits intro!: recompute_advances)
next
  case (Finish z err)
  let ?t1 = "set_lane z (\<lambda>l. l\<lparr>lc_finished := True,
      lc_error := (case err of None \<Rightarrow> lc_error l | Some _ \<Rightarrow> err)\<rparr>) t"
  have "tracker_advances t (recompute_locked ?t1)"
    by (intro recompute_advances) (simp_all add: set_lane_fields)
  moreover have "tracker_advances t ?t1"
    and "failure (state ?t1) = None \<Longrightarrow>
      tracker_advances t (publish_locked (?t1\<lparr>state := (state ?t1)\<lparr>failure := Some f\<rparr>\<rparr>))" for f
    by (simp_all add: tracker_advances_def publish_locked_def set_lane_fields)
  ultimately show ?thesis
    using assms Finish by (auto simp: finish_lane_def Let_def split: if_splits option.splits)
next
  case (Durable z d)
  have "tracker_advances t (recompute_locked (set_lane z (\<lambda>l. l\<lparr>lc_durable := d\<rparr>) t))"
    by (intro recompute_advances) (simp_all add: set_lane_fields)
  moreover have "tracker_advances t t" by (simp add: tracker_advances_def)
  ultimately show ?thesis using assms Durable by (auto simp: publish_durable_def split: if_splits)
next
  case (Activate z d)
  with assms show ?thesis
    by (auto simp: activate_lane_def tracker_advances_def set_lane_fields split: if_splits)
next
  case Poison
  with assms show ?thesis by (auto simp: poison_def tracker_advances_def publish_locked_def)
qed

lemma run_tracker_advances:
  "run_tracker (bs, t) es = Some (bs', t') \<Longrightarrow> tracker_advances t t' \<and> prefix bs bs'"
proof (induction es arbitrary: bs t)
  case Nil
  then show ?case by (simp add: tracker_advances_def)
next
  case (Cons e es)
  then obtain bs1 t1 where s: "tracker_step (bs, t) e = Some (bs1, t1)"
      and r: "run_tracker (bs1, t1) es = Some (bs', t')"
    by (auto split: option.splits)
  have "prefix bs bs1" using s by (cases e) (auto split: if_splits)
  moreover have "tracker_advances t1 t' \<and> prefix bs1 bs'" using r by (rule Cons.IH)
  ultimately show ?case
    using tracker_step_advances [OF s] by (auto simp: tracker_advances_def)
qed

lemma core_committed_durable:
  assumes "tracker_core n q g bs t" "i < committed (state t)"
  shows "bs ! i \<le> quorum_durable_watermark (lanes (state t)) q"
proof -
  have "bs ! i \<le> bs ! (committed (state t) - 1)"
    using assms by (intro sorted_nth_mono) (auto simp: tracker_core_def)
  with assms show ?thesis by (auto simp: tracker_core_def)
qed

lemma takeWhile_count:
  "c \<le> length xs \<Longrightarrow> (\<And>i. i < c \<Longrightarrow> P (xs ! i)) \<Longrightarrow> (c < length xs \<Longrightarrow> \<not> P (xs ! c)) \<Longrightarrow>
     length (takeWhile P xs) = c"
proof (induction xs arbitrary: c)
  case (Cons x xs)
  show ?case
  proof (cases c)
    case 0
    with Cons.prems(3) show ?thesis by simp
  next
    case (Suc k)
    have "length (takeWhile P xs) = k"
      using Cons.prems Suc by (intro Cons.IH) fastforce+
    moreover have "P x" using Cons.prems(2) [of 0] Suc by simp
    ultimately show ?thesis using Suc by simp
  qed
qed simp


section \<open>Properties\<close>

text \<open>
  C4. Commit safety and exactness.  In every execution, a record counts as
  committed only when at least a quorum of lanes is durable past its end
  offset, commits are a prefix of the admitted records, waiters see exactly the
  current count and failure, and as long as no failure is recorded the
  committed count is exactly the number of leading records the quorum
  watermark covers: nothing committable is left pending.
\<close>

theorem committed_iff_quorum_durable:
  assumes "0 < q" "q \<le> n" "length g = n"
    and "run_tracker ([], tracker_new n q g) es = Some (bs, t)"
  shows "committed (state t) \<le> length bs \<and> boundaries (state t) = drop (committed (state t)) bs
    \<and> (\<forall>i < committed (state t). q \<le> length (filter (\<lambda>l. bs ! i \<le> lc_durable l) (lanes (state t))))
    \<and> range_progress t = (committed (state t), map_option commit_failure_error (failure (state t)))
    \<and> (failure (state t) = None \<longrightarrow>
         committed (state t) =
           length (takeWhile (\<lambda>b. b \<le> quorum_durable_watermark (lanes (state t)) q) bs))"
proof -
  note inv = run_tracker_reachable_inv [OF assms]
  then have core: "tracker_core n q g bs t" and settled: "tracker_settled q t" by auto
  have "q \<le> length (filter (\<lambda>l. bs ! i \<le> lc_durable l) (lanes (state t)))"
    if "i < committed (state t)" for i
    using core_committed_durable [OF core that] core
      watermark_iff [of q "lanes (state t)" "bs ! i"] by (auto simp: tracker_core_def)
  moreover have "length (takeWhile (\<lambda>b. b \<le> quorum_durable_watermark (lanes (state t)) q) bs)
      = committed (state t)" if "failure (state t) = None"
  proof (rule takeWhile_count)
    fix i assume "i < committed (state t)"
    then show "bs ! i \<le> quorum_durable_watermark (lanes (state t)) q"
      using core_committed_durable [OF core] by blast
  next
    assume "committed (state t) < length bs"
    then show "\<not> bs ! committed (state t) \<le> quorum_durable_watermark (lanes (state t)) q"
      using core settled that by (auto simp: tracker_core_def tracker_settled_def hd_drop_conv_nth)
  qed (use core in \<open>simp add: tracker_core_def\<close>)
  ultimately show ?thesis using core by (auto simp: tracker_core_def range_progress_def)
qed

theorem committed_iff_quorum_durable_witness:
  "\<exists>bs t. run_tracker ([], tracker_new 3 2 [0, 0, 0])
       [Activate 0 0, Activate 1 0, Activate 2 0, Admit [10, 20] [0, 1, 2], Durable 0 20, Durable 1 10]
     = Some (bs, t) \<and> committed (state t) = 1 \<and> boundaries (state t) = drop 1 bs
     \<and> 2 \<le> length (filter (\<lambda>l. bs ! 0 \<le> lc_durable l) (lanes (state t)))"
proof -
  have "case run_tracker ([], tracker_new 3 2 [0, 0, 0])
       [Activate 0 0, Activate 1 0, Activate 2 0, Admit [10, 20] [0, 1, 2], Durable 0 20, Durable 1 10]
     of None \<Rightarrow> False | Some (bs, t) \<Rightarrow> committed (state t) = 1" by code_simp
  then obtain bs t where r: "run_tracker ([], tracker_new 3 2 [0, 0, 0])
       [Activate 0 0, Activate 1 0, Activate 2 0, Admit [10, 20] [0, 1, 2], Durable 0 20, Durable 1 10]
     = Some (bs, t)" and c: "committed (state t) = 1"
    by (auto split: option.splits)
  have "boundaries (state t) = drop 1 bs \<and> 2 \<le> length (filter (\<lambda>l. bs ! 0 \<le> lc_durable l) (lanes (state t)))"
    using committed_iff_quorum_durable [OF _ _ _ r] c by simp
  with r c show ?thesis by blast
qed

text \<open>
  C30. Progress is one-way: running the tracker further never lowers the
  committed or admitted count and never retracts an admitted boundary, and once
  a failure is recorded it stays and freezes the committed count, so no record
  is acknowledged across an indeterminate gap.
\<close>

theorem tracker_progress_monotone:
  assumes "run_tracker (bs, t) es = Some (bs', t')"
  shows "committed (state t) \<le> committed (state t') \<and> admitted (state t) \<le> admitted (state t')
    \<and> prefix bs bs'
    \<and> (failure (state t) \<noteq> None \<longrightarrow>
         failure (state t') = failure (state t) \<and> committed (state t') = committed (state t))"
  using run_tracker_advances [OF assms] by (simp add: tracker_advances_def)

theorem tracker_progress_monotone_witness:
  "\<exists>bs t. run_tracker ([10], poison (tracker_new 1 1 [0])) [Durable 0 30] = Some (bs, t)
     \<and> failure (state t) = Some CF_Poisoned \<and> committed (state t) = 0 \<and> prefix [10] bs"
proof -
  have "case run_tracker ([10], poison (tracker_new 1 1 [0])) [Durable 0 30] of
      None \<Rightarrow> False | Some (bs, t) \<Rightarrow> True" by code_simp
  then obtain bs t where r: "run_tracker ([10], poison (tracker_new 1 1 [0])) [Durable 0 30] = Some (bs, t)"
    by (auto split: option.splits)
  have "failure (state t) = Some CF_Poisoned \<and> committed (state t) = 0 \<and> prefix [10] bs"
    using tracker_progress_monotone [OF r] by (simp add: poison_def tracker_new_def publish_locked_def)
  with r show ?thesis by blast
qed



text \<open>
  C37. The lag gauge is leak-free: whatever the lanes did, dropping the tracker
  returns every zone's gauge to the value it had when the tracker was created.
\<close>

theorem drop_tracker_restores_gauge:
  assumes "0 < q" "q \<le> n" "length g = n"
    and "run_tracker ([], tracker_new n q g) es = Some (bs, t)"
  shows "lag_gauge (drop_tracker t) = g"
proof -
  have core: "tracker_core n q g bs t" using run_tracker_reachable_inv [OF assms] by blast
  show ?thesis
    by (rule nth_equalityI) (use core in \<open>auto simp: drop_tracker_def tracker_core_def\<close>)
qed

theorem drop_tracker_restores_gauge_witness:
  "\<exists>bs t. run_tracker ([], tracker_new 1 1 [7]) [Activate 0 0, Admit [10] [0], Durable 0 4] = Some (bs, t)
     \<and> lag_gauge t = [13] \<and> lag_gauge (drop_tracker t) = [7]"
proof -
  have "case run_tracker ([], tracker_new 1 1 [7]) [Activate 0 0, Admit [10] [0], Durable 0 4] of
     None \<Rightarrow> False | Some (bs, t) \<Rightarrow> lag_gauge t = [13]" by code_simp
  then obtain bs t where r: "run_tracker ([], tracker_new 1 1 [7])
       [Activate 0 0, Admit [10] [0], Durable 0 4] = Some (bs, t)" and l: "lag_gauge t = [13]"
    by (auto split: option.splits)
  have "lag_gauge (drop_tracker t) = [7]"
    using drop_tracker_restores_gauge [OF _ _ _ r] by simp
  with r l show ?thesis by blast
qed

end
