(* ===== verification/Canonical.thy ===== *)
theory Canonical
  imports Commit_Tracker
begin

text \<open>
  Choosing the canonical content of a fenced segment, from \<open>protocol.rs\<close>: the
  recovery size an incomplete set of tails supports, the quorum-sized subsets of
  witnesses, and the selection of the longest well-formed prefix on which a
  quorum agrees.
\<close>

section \<open>Definitions\<close>

definition select_recovery_size :: "int list \<Rightarrow> nat \<Rightarrow> int option" where
  "select_recovery_size sizes replica_count =
     (let q = majority replica_count in
      if length sizes < q \<or> length sizes > replica_count then None
      else let sorted_sizes = sort sizes; unavailable = replica_count - length sizes in
        case checked_sub q unavailable of
          None \<Rightarrow> None
        | Some required \<Rightarrow>
            if required > 0 then Some (sorted_sizes ! (length sizes - required)) else None)"

record witness_prefix =
  wp_bytes :: bytes
  wp_record_ends :: "nat list"

definition last_or_zero :: "nat list \<Rightarrow> nat" where
  "last_or_zero ends = (if ends = [] then 0 else last ends)"

definition witness_from_snapshot :: "replica_snapshot \<Rightarrow> witness_prefix" where
  "witness_from_snapshot s =
     (let ends = complete_prefix_ends (rs_bytes s)
      in \<lparr>wp_bytes = take (last_or_zero ends) (rs_bytes s), wp_record_ends = ends\<rparr>)"

definition wp_len :: "witness_prefix \<Rightarrow> nat" where
  "wp_len w = length (wp_record_ends w)"

definition record_bytes :: "witness_prefix \<Rightarrow> nat \<Rightarrow> bytes" where
  "record_bytes w i =
     (let start = (case checked_sub i 1 of None \<Rightarrow> 0 | Some p \<Rightarrow> wp_record_ends w ! p)
      in drop start (take (wp_record_ends w ! i) (wp_bytes w)))"

function extend_subsets :: "nat \<Rightarrow> nat \<Rightarrow> nat \<Rightarrow> nat list \<Rightarrow> nat list list" where
  "extend_subsets start cnt q current =
     (if length current = q then [current]
      else concat (map (\<lambda>i. extend_subsets (i + 1) cnt q (current @ [i])) [start..<cnt]))"
  by pat_completeness auto
termination
  by (relation "measure (\<lambda>(start, cnt, q, current). cnt - start)") auto

declare extend_subsets.simps [simp del]

definition quorum_subsets :: "nat \<Rightarrow> nat \<Rightarrow> nat list list" where
  "quorum_subsets cnt q = extend_subsets 0 cnt q []"

text \<open>The first record on which two witnesses disagree within their overlap.\<close>

definition first_disagreement :: "witness_prefix \<Rightarrow> witness_prefix \<Rightarrow> nat option" where
  "first_disagreement l r =
     List.find (\<lambda>i. record_bytes l i \<noteq> record_bytes r i) [0..<min (wp_len l) (wp_len r)]"

definition conflict_pairs :: "nat \<Rightarrow> (nat \<times> nat) list" where
  "conflict_pairs n = concat (map (\<lambda>l. map (Pair l) [l + 1..<n]) [0..<n])"

definition first_conflict :: "witness_prefix list \<Rightarrow> nat option" where
  "first_conflict ws =
     (case List.map_filter (\<lambda>(l, r). first_disagreement (ws ! l) (ws ! r)) (conflict_pairs (length ws)) of
        [] \<Rightarrow> None
      | i # _ \<Rightarrow> Some i)"

fun consistent_subset :: "witness_prefix list \<Rightarrow> nat list \<Rightarrow> bool" where
  "consistent_subset ws [] = True"
| "consistent_subset ws (l # rest) =
     ((\<forall>r \<in> set rest. first_disagreement (ws ! l) (ws ! r) = None) \<and> consistent_subset ws rest)"

definition longest_member :: "witness_prefix list \<Rightarrow> nat list \<Rightarrow> nat" where
  "longest_member ws members =
     foldl (\<lambda>acc m. if wp_len (ws ! m) > wp_len (ws ! acc) then m else acc) (hd members) (tl members)"

fun zones_less :: "nat list \<Rightarrow> nat list \<Rightarrow> bool" where
  "zones_less [] [] = False"
| "zones_less [] (_ # _) = True"
| "zones_less (_ # _) [] = False"
| "zones_less (a # as) (b # bs) = (a < b \<or> (a = b \<and> zones_less as bs))"

record canonical_selection =
  cs_witness :: nat
  cs_record_ends :: "nat list"

definition canonical_candidates :: "witness_prefix list \<Rightarrow> nat \<Rightarrow> (nat \<times> nat list) list" where
  "canonical_candidates ws q =
     map (\<lambda>s. (longest_member ws s, s)) (filter (consistent_subset ws) (quorum_subsets (length ws) q))"

text \<open>\<open>max_by\<close> keeps the later of two equal elements.\<close>

definition pick_by_zones :: "replica_snapshot list \<Rightarrow> (nat \<times> nat list) \<Rightarrow> (nat \<times> nat list) list \<Rightarrow> nat \<times> nat list" where
  "pick_by_zones snaps first rest =
     foldl (\<lambda>best x.
        if zones_less (map (\<lambda>i. rs_zone (snaps ! i)) (snd best)) (map (\<lambda>i. rs_zone (snaps ! i)) (snd x))
        then best else x) first rest"

definition select_canonical_quorum ::
  "replica_snapshot list \<Rightarrow> nat \<Rightarrow> protocol_error + canonical_selection" where
  "select_canonical_quorum snaps q =
     (if length snaps < q then Inl PE_NoQuorum
      else let decoded = map witness_from_snapshot snaps;
               candidates = canonical_candidates decoded q
           in if candidates = []
              then Inl (PE_ConflictingPrefix (case first_conflict decoded of None \<Rightarrow> 0 | Some i \<Rightarrow> i))
              else let longest = Max (set (map (\<lambda>(c, _). wp_len (decoded ! c)) candidates));
                       longest_candidates = filter (\<lambda>(c, _). wp_len (decoded ! c) = longest) candidates;
                       first = hd longest_candidates
                   in case List.find (\<lambda>(c, _). wp_bytes (decoded ! c) \<noteq> wp_bytes (decoded ! fst first))
                             (tl longest_candidates) of
                        Some (c, _) \<Rightarrow>
                          Inl (PE_ConflictingPrefix
                            (case List.find (\<lambda>i. record_bytes (decoded ! c) i \<noteq> record_bytes (decoded ! fst first) i)
                                    [0..<wp_len (decoded ! c)] of None \<Rightarrow> 0 | Some i \<Rightarrow> i))
                      | None \<Rightarrow>
                          let selected = fst (pick_by_zones snaps first (tl longest_candidates))
                          in Inr \<lparr>cs_witness = selected, cs_record_ends = wp_record_ends (decoded ! selected)\<rparr>)"

definition canonical_prefix_bytes :: "replica_snapshot list \<Rightarrow> nat \<Rightarrow> protocol_error + bytes" where
  "canonical_prefix_bytes snaps q =
     and_then (select_canonical_quorum snaps q) (\<lambda>sel.
       Inr (take (last_or_zero (cs_record_ends sel)) (rs_bytes (snaps ! cs_witness sel))))"

definition protocol_metadata :: metadata where
  "protocol_metadata = [META_FORMAT \<mapsto> FORMAT_VERSION]"

definition valid_format :: "metadata \<Rightarrow> bool" where
  "valid_format m = (m META_FORMAT = Some FORMAT_VERSION)"


section \<open>Frames of a witness\<close>

definition frames_of :: "replica_snapshot \<Rightarrow> record_frame list" where
  "frames_of s = fst (decode_complete_prefix (rs_bytes s))"

definition frame_bytes :: "record_frame \<Rightarrow> bytes" where
  "frame_bytes f = be_bytes 4 (4 + length (payload f)) @ payload f"

lemma length_frame_bytes: "length (frame_bytes f) = HEADER_LEN + length (payload f)"
  by (simp add: frame_bytes_def HEADER_LEN_def del: be_bytes.simps)

lemma encode_all_concat: "encode_all fs = Inr b \<Longrightarrow> b = concat (map frame_bytes fs)"
  by (induction fs arbitrary: b) (auto simp: and_then_Inr_iff encode_Inr_iff frame_bytes_def)

lemma encode_all_inj: "encode_all fs = Inr b \<Longrightarrow> encode_all gs = Inr b \<Longrightarrow> fs = gs"
  by (metis decode_all_encode_all sum.inject(2))

lemma encode_all_take:
  "encode_all fs = Inr b \<Longrightarrow> encode_all (take k fs) = Inr (concat (map frame_bytes (take k fs)))"
proof (induction fs arbitrary: b k)
  case (Cons f fs)
  then show ?case by (cases k) (auto simp: and_then_Inr_iff encode_Inr_iff frame_bytes_def)
qed simp

lemma record_ends_last:
  "last_or_zero (record_ends fs) = length (concat (map frame_bytes fs))"
proof (induction fs)
  case (Cons f fs)
  then show ?case
    by (cases "record_ends fs") (auto simp: last_or_zero_def length_frame_bytes last_map)
qed (simp add: last_or_zero_def)

lemma length_record_ends [simp]: "length (record_ends fs) = length fs"
  by (induction fs) auto

lemma record_ends_nth:
  "i < length fs \<Longrightarrow> record_ends fs ! i = length (concat (map frame_bytes (take (Suc i) fs)))"
proof (induction fs arbitrary: i)
  case (Cons f fs)
  then show ?case by (cases i) (auto simp: length_frame_bytes)
qed simp

lemma frames_of_bytes:
  "encode_all (frames_of s) = Inr (concat (map frame_bytes (frames_of s)))
   \<and> prefix (concat (map frame_bytes (frames_of s))) (rs_bytes s)"
  using decode_complete_prefix_sound [OF refl, of "rs_bytes s"] encode_all_concat
  by (metis frames_of_def prefix_take)

lemma witness_fields:
  "wp_record_ends (witness_from_snapshot s) = record_ends (frames_of s)"
  "wp_bytes (witness_from_snapshot s) = concat (map frame_bytes (frames_of s))"
proof -
  have ends: "complete_prefix_ends (rs_bytes s) = record_ends (frames_of s)"
    using complete_prefix_ends_from_eq [of 0 "rs_bytes s"]
    by (simp add: complete_prefix_ends_def frames_of_def map_idI)
  then show "wp_record_ends (witness_from_snapshot s) = record_ends (frames_of s)"
    by (simp add: witness_from_snapshot_def Let_def)
  show "wp_bytes (witness_from_snapshot s) = concat (map frame_bytes (frames_of s))"
    using frames_of_bytes [of s] ends
    by (auto simp: witness_from_snapshot_def Let_def record_ends_last prefix_def)
qed

lemma wp_len_witness [simp]: "wp_len (witness_from_snapshot s) = length (frames_of s)"
  by (simp add: wp_len_def witness_fields)

lemma record_bytes_witness:
  assumes "i < length (frames_of s)"
  shows "record_bytes (witness_from_snapshot s) i = frame_bytes (frames_of s ! i)"
proof -
  let ?fs = "frames_of s" and ?c = "\<lambda>k. concat (map frame_bytes (take k (frames_of s)))"
  have start: "(case checked_sub i 1 of None \<Rightarrow> 0 | Some p \<Rightarrow> record_ends ?fs ! p) = length (?c i)"
    using assms by (cases i) (simp_all add: checked_sub_def record_ends_nth)
  have split: "?c (Suc i) = ?c i @ frame_bytes (?fs ! i)"
    using assms by (simp add: take_Suc_conv_app_nth)
  have "concat (map frame_bytes ?fs) = ?c (Suc i) @ concat (map frame_bytes (drop (Suc i) ?fs))"
    by (metis append_take_drop_id concat_append map_append)
  then have "take (length (?c (Suc i))) (concat (map frame_bytes ?fs)) = ?c (Suc i)"
    by simp
  then show ?thesis
    using assms unfolding record_bytes_def witness_fields start Let_def
    by (simp add: record_ends_nth split)
qed

lemma frame_bytes_inj:
  assumes "encode f = Inr b" "encode g = Inr c" "frame_bytes f = frame_bytes g"
  shows "f = g"
proof -
  have "b = c" using assms by (simp add: encode_Inr_iff frame_bytes_def)
  then show ?thesis using decode_one_encode [OF assms(1), of "[]"] decode_one_encode [OF assms(2), of "[]"]
    by simp
qed

lemma encode_all_each: "encode_all fs = Inr b \<Longrightarrow> f \<in> set fs \<Longrightarrow> \<exists>c. encode f = Inr c"
  by (induction fs arbitrary: b) (auto simp: and_then_Inr_iff)

lemma first_disagreement_None_iff:
  "first_disagreement (witness_from_snapshot s) (witness_from_snapshot r) = None
     \<longleftrightarrow> prefix (frames_of s) (frames_of r) \<or> prefix (frames_of r) (frames_of s)"
proof -
  let ?n = "min (length (frames_of s)) (length (frames_of r))"
  have eq: "frame_bytes (frames_of s ! i) = frame_bytes (frames_of r ! i) \<longleftrightarrow> frames_of s ! i = frames_of r ! i"
    if "i < ?n" for i
  proof -
    have "frames_of s ! i \<in> set (frames_of s)" "frames_of r ! i \<in> set (frames_of r)"
      using that by auto
    then obtain b c where "encode (frames_of s ! i) = Inr b" "encode (frames_of r ! i) = Inr c"
      using encode_all_each [OF conjunct1 [OF frames_of_bytes]] by blast
    then show ?thesis using frame_bytes_inj [of "frames_of s ! i" b "frames_of r ! i" c] by auto
  qed
  have "first_disagreement (witness_from_snapshot s) (witness_from_snapshot r) = None
      \<longleftrightarrow> (\<forall>i < ?n. frames_of s ! i = frames_of r ! i)"
    by (auto simp: first_disagreement_def find_None_iff record_bytes_witness eq)
  also have "\<dots> \<longleftrightarrow> take ?n (frames_of s) = take ?n (frames_of r)"
    by (auto simp: list_eq_iff_nth_eq)
  also have "\<dots> \<longleftrightarrow> prefix (frames_of s) (frames_of r) \<or> prefix (frames_of r) (frames_of s)"
    by (rule take_min_eq_iff)
  finally show ?thesis .
qed


section \<open>Subsets and candidates\<close>

lemma extend_subsets_set:
  "set (extend_subsets start cnt q cur) =
     {cur @ xs | xs. sorted_wrt (<) xs \<and> set xs \<subseteq> {start..<cnt} \<and> length (cur @ xs) = q}"
proof (induction start cnt q cur rule: extend_subsets.induct)
  case (1 start cnt q cur)
  show ?case
  proof (cases "length cur = q")
    case True
    then show ?thesis by (auto simp: extend_subsets.simps [of start cnt q cur])
  next
    case False
    then have "set (extend_subsets start cnt q cur)
        = (\<Union>i \<in> {start..<cnt}. set (extend_subsets (i + 1) cnt q (cur @ [i])))"
      by (simp add: extend_subsets.simps [of start cnt q cur])
    also have "\<dots> = (\<Union>i \<in> {start..<cnt}. {(cur @ [i]) @ xs | xs.
        sorted_wrt (<) xs \<and> set xs \<subseteq> {i + 1..<cnt} \<and> length ((cur @ [i]) @ xs) = q})"
      using "1.IH" [OF False] by simp
    also have "\<dots> = {cur @ ys | ys. sorted_wrt (<) ys \<and> set ys \<subseteq> {start..<cnt} \<and> length (cur @ ys) = q}"
      (is "?L = ?R")
    proof
      show "?L \<subseteq> ?R" by force
      show "?R \<subseteq> ?L"
      proof
        fix zs assume "zs \<in> ?R"
        then obtain ys where zs: "zs = cur @ ys"
            and ys: "sorted_wrt (<) ys" "set ys \<subseteq> {start..<cnt}" "length (cur @ ys) = q"
          by blast
        with False obtain i xs where "ys = i # xs" by (cases ys) auto
        moreover from this ys have "set xs \<subseteq> {i + 1..<cnt}" "i \<in> {start..<cnt}"
          by (auto simp: Suc_le_eq)
        ultimately show "zs \<in> ?L" using zs ys by (intro UN_I [of i]) auto
      qed
    qed
    finally show ?thesis .
  qed
qed

lemma quorum_subsets_set:
  "set (quorum_subsets cnt q) = {xs. sorted_wrt (<) xs \<and> set xs \<subseteq> {..<cnt} \<and> length xs = q}"
  by (auto simp: quorum_subsets_def extend_subsets_set atLeast0LessThan)

abbreviation comparable :: "'a list \<Rightarrow> 'a list \<Rightarrow> bool" where
  "comparable xs ys \<equiv> prefix xs ys \<or> prefix ys xs"

lemma consistent_subset_iff:
  assumes "set xs \<subseteq> {..<length snaps}"
  shows "consistent_subset (map witness_from_snapshot snaps) xs
    \<longleftrightarrow> (\<forall>l \<in> set xs. \<forall>r \<in> set xs. comparable (frames_of (snaps ! l)) (frames_of (snaps ! r)))"
  using assms
proof (induction xs)
  case (Cons a xs)
  then have "(\<forall>r \<in> set xs. first_disagreement (map witness_from_snapshot snaps ! a)
        (map witness_from_snapshot snaps ! r) = None)
      \<longleftrightarrow> (\<forall>r \<in> set xs. comparable (frames_of (snaps ! a)) (frames_of (snaps ! r)))"
    by (intro ball_cong) (auto simp: first_disagreement_None_iff subset_iff)
  with Cons show ?case by auto
qed simp

lemma foldl_longest:
  fixes f :: "'a \<Rightarrow> nat"
  defines "g \<equiv> foldl (\<lambda>acc m. if f m > f acc then m else acc)"
  shows "g a xs \<in> insert a (set xs) \<and> (\<forall>m \<in> insert a (set xs). f m \<le> f (g a xs))"
proof (induction xs arbitrary: a)
  case (Cons x xs)
  show ?case
    using Cons [of "if f x > f a then x else a"] by (auto simp: g_def split: if_splits)
qed (simp add: g_def)

lemma longest_member:
  assumes "xs \<noteq> []"
  shows "longest_member ws xs \<in> set xs \<and> (\<forall>m \<in> set xs. wp_len (ws ! m) \<le> wp_len (ws ! longest_member ws xs))"
proof -
  have "insert (hd xs) (set (tl xs)) = set xs" using assms by (cases xs) auto
  then show ?thesis
    using foldl_longest [of "\<lambda>m. wp_len (ws ! m)" "hd xs" "tl xs"] unfolding longest_member_def by simp
qed

lemma pick_by_zones_mem: "pick_by_zones snaps a xs \<in> insert a (set xs)"
proof (induction xs arbitrary: a)
  case (Cons x xs)
  have "pick_by_zones snaps a (x # xs) = pick_by_zones snaps a xs
      \<or> pick_by_zones snaps a (x # xs) = pick_by_zones snaps x xs"
    by (simp add: pick_by_zones_def)
  with Cons [of x] Cons [of a] show ?case by auto
qed (simp add: pick_by_zones_def)

text \<open>A candidate is a quorum of pairwise comparable witnesses headed by its longest member.\<close>

definition agreeing_quorum :: "replica_snapshot list \<Rightarrow> nat \<Rightarrow> nat set \<Rightarrow> bool" where
  "agreeing_quorum snaps q S \<longleftrightarrow>
     S \<subseteq> {..<length snaps} \<and> card S = q
   \<and> (\<forall>l \<in> S. \<forall>r \<in> S. comparable (frames_of (snaps ! l)) (frames_of (snaps ! r)))"

lemma candidate_agreeing:
  assumes "0 < q" "(c, xs) \<in> set (canonical_candidates (map witness_from_snapshot snaps) q)"
  shows "agreeing_quorum snaps q (set xs) \<and> c \<in> set xs
    \<and> (\<forall>m \<in> set xs. prefix (frames_of (snaps ! m)) (frames_of (snaps ! c)))"
proof -
  from assms(2) have xs: "sorted_wrt (<) xs" "set xs \<subseteq> {..<length snaps}" "length xs = q"
      and cons: "consistent_subset (map witness_from_snapshot snaps) xs"
      and c: "c = longest_member (map witness_from_snapshot snaps) xs"
    by (auto simp: canonical_candidates_def quorum_subsets_set)
  have "card (set xs) = q" using xs strict_sorted_iff [of xs] distinct_card [of xs] by simp
  then have agree: "agreeing_quorum snaps q (set xs)"
    using xs cons consistent_subset_iff [of xs snaps] by (simp add: agreeing_quorum_def)
  have "xs \<noteq> []" using xs assms(1) by auto
  then have cm: "c \<in> set xs"
      and max: "\<And>m. m \<in> set xs \<Longrightarrow> length (frames_of (snaps ! m)) \<le> length (frames_of (snaps ! c))"
    using longest_member [of xs "map witness_from_snapshot snaps"] xs c by (auto simp: subset_iff)
  have "prefix (frames_of (snaps ! m)) (frames_of (snaps ! c))" if "m \<in> set xs" for m
    using agree cm max [OF that] that
    by (metis agreeing_quorum_def prefix_length_prefix prefix_order.refl)
  with agree cm show ?thesis by blast
qed

lemma agreeing_candidate:
  assumes "0 < q" "agreeing_quorum snaps q S"
  shows "\<exists>c xs. (c, xs) \<in> set (canonical_candidates (map witness_from_snapshot snaps) q) \<and> set xs = S"
proof -
  have fin: "finite S" using assms(2) finite_subset by (fastforce simp: agreeing_quorum_def)
  let ?xs = "sorted_list_of_set S"
  have "set ?xs = S" "length ?xs = q" "sorted_wrt (<) ?xs"
    using fin assms(2) by (auto simp: agreeing_quorum_def)
  moreover from this have "consistent_subset (map witness_from_snapshot snaps) ?xs"
    using assms(2) consistent_subset_iff [of ?xs snaps] by (simp add: agreeing_quorum_def)
  ultimately have "(longest_member (map witness_from_snapshot snaps) ?xs, ?xs)
      \<in> set (canonical_candidates (map witness_from_snapshot snaps) q)"
    using assms(2) unfolding canonical_candidates_def
    by (simp add: quorum_subsets_set agreeing_quorum_def)
  with \<open>set ?xs = S\<close> show ?thesis by blast
qed


section \<open>Selection\<close>

lemma select_canonical_Inr:
  assumes q: "0 < q" and sel: "select_canonical_quorum snaps q = Inr sel"
  defines "cands \<equiv> canonical_candidates (map witness_from_snapshot snaps) q"
    and "w \<equiv> cs_witness sel"
  shows "(\<exists>xs. (w, xs) \<in> set cands) \<and> cs_record_ends sel = record_ends (frames_of (snaps ! w))
    \<and> (\<forall>(c, xs) \<in> set cands. length (frames_of (snaps ! c)) \<le> length (frames_of (snaps ! w))
         \<and> (length (frames_of (snaps ! c)) = length (frames_of (snaps ! w)) \<longrightarrow>
              frames_of (snaps ! c) = frames_of (snaps ! w)))"
proof -
  let ?ws = "map witness_from_snapshot snaps" and ?F = "\<lambda>c. frames_of (snaps ! c)"
  have idx: "wp_len (?ws ! c) = length (?F c)" "wp_bytes (?ws ! c) = concat (map frame_bytes (?F c))"
      "wp_record_ends (?ws ! c) = record_ends (?F c)" if "(c, xs) \<in> set cands" for c xs
  proof -
    have "c < length snaps"
      using candidate_agreeing [OF q that [unfolded cands_def]] by (auto simp: agreeing_quorum_def)
    then show "wp_len (?ws ! c) = length (?F c)" "wp_bytes (?ws ! c) = concat (map frame_bytes (?F c))"
      "wp_record_ends (?ws ! c) = record_ends (?F c)" by (simp_all add: witness_fields)
  qed
  define longest where "longest = Max (set (map (\<lambda>(c, _). wp_len (?ws ! c)) cands))"
  define L where "L = filter (\<lambda>(c, _). wp_len (?ws ! c) = longest) cands"
  have ne: "cands \<noteq> []"
      and same: "List.find (\<lambda>(c, _). wp_bytes (?ws ! c) \<noteq> wp_bytes (?ws ! fst (hd L))) (tl L) = None"
      and w: "w = fst (pick_by_zones snaps (hd L) (tl L))" "cs_record_ends sel = wp_record_ends (?ws ! w)"
    using sel unfolding select_canonical_quorum_def Let_def cands_def L_def longest_def w_def
    by (auto split: if_splits option.splits)
  have "longest \<in> set (map (\<lambda>(c, _). wp_len (?ws ! c)) cands)"
    unfolding longest_def using ne by (intro Max_in) auto
  then have "L \<noteq> []" by (auto simp: L_def filter_empty_conv)
  then have hdtl: "insert (hd L) (set (tl L)) = set L" by (cases L) auto
  obtain xs where wL: "(w, xs) \<in> set L"
    using pick_by_zones_mem [of snaps "hd L" "tl L"] hdtl w by (metis prod.collapse)
  have le: "length (?F c) \<le> longest" if "(c, xs) \<in> set cands" for c xs
  proof -
    have "wp_len (?ws ! c) \<in> set (map (\<lambda>(c, _). wp_len (?ws ! c)) cands)" using that by force
    then show ?thesis using idx(1) [OF that] unfolding longest_def by (metis List.finite_set Max_ge)
  qed
  have LF: "(c, xs) \<in> set L \<longleftrightarrow> (c, xs) \<in> set cands \<and> length (?F c) = longest" for c xs
    using idx by (auto simp: L_def)
  have bytes_eq: "wp_bytes (?ws ! c) = wp_bytes (?ws ! fst (hd L))" if "(c, xs) \<in> set L" for c xs
    using that same hdtl by (auto simp: find_None_iff) (metis fst_conv insertE)
  have "?F c = ?F w" if "(c, xs) \<in> set L" for c xs
  proof -
    have "concat (map frame_bytes (?F c)) = concat (map frame_bytes (?F w))"
      using bytes_eq [OF that] bytes_eq [OF wL] idx LF that wL by metis
    then show ?thesis using encode_all_inj frames_of_bytes by metis
  qed
  with le LF wL w idx show ?thesis by fastforce
qed

lemma canonical_prefix_bytes_Inr:
  assumes "0 < q" "canonical_prefix_bytes snaps q = Inr b"
  obtains sel where "select_canonical_quorum snaps q = Inr sel"
    "b = concat (map frame_bytes (frames_of (snaps ! cs_witness sel)))"
proof -
  obtain sel where sel: "select_canonical_quorum snaps q = Inr sel"
      and b: "b = take (last_or_zero (cs_record_ends sel)) (rs_bytes (snaps ! cs_witness sel))"
    using assms(2) by (auto simp: canonical_prefix_bytes_def and_then_Inr_iff)
  have "cs_record_ends sel = record_ends (frames_of (snaps ! cs_witness sel))"
    using select_canonical_Inr [OF assms(1) sel] by blast
  then have "b = concat (map frame_bytes (frames_of (snaps ! cs_witness sel)))"
    using b frames_of_bytes [of "snaps ! cs_witness sel"] by (auto simp: record_ends_last prefix_def)
  with sel show ?thesis by (rule that)
qed

lemma concat_map_prefix: "prefix xs ys \<Longrightarrow> prefix (concat (map f xs)) (concat (map f ys))"
  by (auto simp: prefix_def)

text \<open>Complete records held as a byte prefix are a prefix of the decoded frames.\<close>

lemma held_records_prefix:
  assumes "encode_all cs = Inr c" "prefix c (rs_bytes s)"
  shows "prefix cs (frames_of s)"
  using decode_complete_prefix_maximal [of cs "length c" "rs_bytes s"] assms prefix_length_le
  by (fastforce simp: frames_of_def prefix_take_iff)

lemma card_filter_index: "card {i. i < length xs \<and> P (xs ! i)} = length (filter P xs)"
  by (simp add: length_filter_conv_card)

lemma quorum_meets_holders:
  assumes "S \<subseteq> {..<n}" "H \<subseteq> {..<n}" "n < card S + card H"
  shows "\<exists>i. i \<in> S \<and> i \<in> (H :: nat set)"
proof (rule ccontr)
  assume "\<not> ?thesis"
  then have "S \<inter> H = {}" by blast
  then have "card S + card H = card (S \<union> H)"
    using assms finite_subset by (metis card_Un_disjoint finite_lessThan)
  also have "\<dots> \<le> n" using assms by (metis Un_least card_lessThan card_mono finite_lessThan)
  finally show False using assms(3) by simp
qed

lemma all_comparable_select:
  assumes q: "0 < q" "q \<le> length snaps"
    and comp: "\<And>l r. l < length snaps \<Longrightarrow> r < length snaps \<Longrightarrow>
        comparable (frames_of (snaps ! l)) (frames_of (snaps ! r))"
  shows "\<exists>sel. select_canonical_quorum snaps q = Inr sel"
proof -
  let ?ws = "map witness_from_snapshot snaps"
  have idx: "c < length snaps" if "(c, xs) \<in> set (canonical_candidates ?ws q)" for c xs
    using candidate_agreeing [OF q(1) that] by (auto simp: agreeing_quorum_def)
  have "agreeing_quorum snaps q {..<q}"
    unfolding agreeing_quorum_def by (intro conjI ballI comp) (use q in auto)
  then obtain c0 xs0 where "(c0, xs0) \<in> set (canonical_candidates ?ws q)"
    using agreeing_candidate [OF q(1)] by blast
  then have ne: "canonical_candidates ?ws q \<noteq> []" by (metis empty_iff list.set(1))
  define longest where "longest = Max (set (map (\<lambda>(c, _). wp_len (?ws ! c)) (canonical_candidates ?ws q)))"
  define L where "L = filter (\<lambda>(c, _). wp_len (?ws ! c) = longest) (canonical_candidates ?ws q)"
  have "longest \<in> set (map (\<lambda>(c, _). wp_len (?ws ! c)) (canonical_candidates ?ws q))"
    unfolding longest_def using ne by (intro Max_in) auto
  then have "L \<noteq> []" by (auto simp: L_def filter_empty_conv)
  have same: "wp_bytes (?ws ! c) = wp_bytes (?ws ! d)" if "(c, xs) \<in> set L" "(d, ys) \<in> set L" for c d xs ys
  proof -
    have "c < length snaps" "d < length snaps" "length (frames_of (snaps ! c)) = length (frames_of (snaps ! d))"
      using that idx by (auto simp: L_def)
    then have "frames_of (snaps ! c) = frames_of (snaps ! d)"
      using comp [of c d] by (auto simp: prefix_def)
    then show ?thesis using \<open>c < length snaps\<close> \<open>d < length snaps\<close> by (simp add: witness_fields)
  qed
  obtain d ys where d: "hd L = (d, ys)" "(d, ys) \<in> set L"
    using \<open>L \<noteq> []\<close> by (cases "hd L") (metis list.set_sel(1))
  have "List.find (\<lambda>(c, _). wp_bytes (?ws ! c) \<noteq> wp_bytes (?ws ! fst (hd L))) (tl L) = None"
    using same [OF _ d(2)] list.set_sel(2) [OF \<open>L \<noteq> []\<close>] d(1) by (auto simp: find_None_iff)
  then show ?thesis
    using ne q unfolding select_canonical_quorum_def Let_def L_def longest_def by auto
qed


lemma select_recovery_size_spec:
  assumes "0 < n" "majority n \<le> length sizes" "length sizes \<le> n"
  shows "\<exists>v. select_recovery_size sizes n = Some v \<and> v \<in> set sizes
    \<and> (\<forall>w. w \<le> v \<longleftrightarrow> majority n \<le> (n - length sizes) + length (filter (\<lambda>s. w \<le> s) sizes))"
proof -
  let ?req = "majority n - (n - length sizes)"
  have req: "0 < ?req" "?req \<le> length sizes" "n - length sizes \<le> majority n"
    using assms by (auto simp: majority_def)
  then have "select_recovery_size sizes n = Some (sort sizes ! (length sizes - ?req))"
    using assms by (simp add: select_recovery_size_def Let_def checked_sub_def)
  moreover have "sort sizes ! (length sizes - ?req) \<in> set sizes"
    using req by (metis diff_less length_greater_0_conv length_sort less_le_trans nth_mem set_sort list.size(3) not_less_zero)
  moreover have "w \<le> sort sizes ! (length sizes - ?req)
      \<longleftrightarrow> majority n \<le> (n - length sizes) + length (filter (\<lambda>s. w \<le> s) sizes)" for w
    using quorum_value_iff [of ?req sizes w] req by auto
  ultimately show ?thesis by blast
qed

lemma canonical_selection_keeps:
  assumes "0 < q" "select_canonical_quorum snaps q = Inr sel"
    and "encode_all cs = Inr c"
    and "length snaps < q + length (filter (\<lambda>s. prefix c (rs_bytes s)) snaps)"
  shows "prefix cs (frames_of (snaps ! cs_witness sel)) \<and> cs_witness sel < length snaps"
proof -
  obtain xs where xs: "(cs_witness sel, xs) \<in> set (canonical_candidates (map witness_from_snapshot snaps) q)"
    using select_canonical_Inr [OF assms(1,2)] by blast
  note agree = candidate_agreeing [OF assms(1) xs]
  let ?H = "{i. i < length snaps \<and> prefix c (rs_bytes (snaps ! i))}"
  have "set xs \<subseteq> {..<length snaps}" "card (set xs) = q"
    using agree by (auto simp: agreeing_quorum_def)
  moreover have "card ?H = length (filter (\<lambda>s. prefix c (rs_bytes s)) snaps)"
    by (rule card_filter_index)
  ultimately obtain i where i: "i \<in> set xs" "i \<in> ?H"
    using quorum_meets_holders [of "set xs" "length snaps" ?H] assms(4) by auto
  have "prefix cs (frames_of (snaps ! i))" using held_records_prefix [OF assms(3)] i(2) by simp
  moreover have "prefix (frames_of (snaps ! i)) (frames_of (snaps ! cs_witness sel))"
    using agree i(1) by blast
  ultimately have "prefix cs (frames_of (snaps ! cs_witness sel))" by (rule prefix_order.order_trans)
  moreover have "cs_witness sel < length snaps" using agree by (auto simp: agreeing_quorum_def)
  ultimately show ?thesis ..
qed


section \<open>Properties\<close>

text \<open>
  C32. The recovery size is the largest size a quorum may have acknowledged.
  With tails from at least a quorum of the replicas a size is always found, it
  is one of the observed tails, and a length is within it exactly when the
  replicas seen to hold it together with every unreachable replica could form a
  quorum.  So no acknowledged byte lies beyond it, and no shorter bound would
  be safe.
\<close>

theorem select_recovery_size_covers_quorum:
  assumes "0 < n" "majority n \<le> length sizes" "length sizes \<le> n"
  shows "\<exists>v. select_recovery_size sizes n = Some v \<and> v \<in> set sizes
    \<and> (\<forall>w. w \<le> v \<longleftrightarrow> majority n \<le> (n - length sizes) + length (filter (\<lambda>s. w \<le> s) sizes))"
  using assms by (rule select_recovery_size_spec)

theorem select_recovery_size_covers_quorum_witness:
  "\<exists>v. select_recovery_size [40, 10] 3 = Some v \<and> v \<in> {40, 10}
    \<and> (\<forall>w. w \<le> v \<longleftrightarrow> majority 3 \<le> (3 - 2) + length (filter (\<lambda>s. w \<le> s) [40, 10]))"
  using select_recovery_size_covers_quorum [of 3 "[40, 10]"] by (simp add: majority_def)

text \<open>
  C18. What a successful selection returns: the well-formed records of one
  witness that, together with a quorum of witnesses whose records all lie on
  its prefix, is at least as long as the records of every other agreeing
  quorum, and equal to them when they are as long.
\<close>

theorem canonical_selection_longest_agreement:
  assumes "0 < q" "select_canonical_quorum snaps q = Inr sel"
  shows "(\<exists>S. agreeing_quorum snaps q S \<and> cs_witness sel \<in> S
       \<and> (\<forall>m \<in> S. prefix (frames_of (snaps ! m)) (frames_of (snaps ! cs_witness sel))))
    \<and> cs_record_ends sel = record_ends (frames_of (snaps ! cs_witness sel))
    \<and> (\<forall>S. agreeing_quorum snaps q S \<longrightarrow> (\<forall>m \<in> S.
         length (frames_of (snaps ! m)) < length (frames_of (snaps ! cs_witness sel))
       \<or> frames_of (snaps ! m) = frames_of (snaps ! cs_witness sel)))"
proof -
  note sel = select_canonical_Inr [OF assms]
  obtain xs where "(cs_witness sel, xs) \<in> set (canonical_candidates (map witness_from_snapshot snaps) q)"
    using sel by blast
  from candidate_agreeing [OF assms(1) this]
  have "\<exists>S. agreeing_quorum snaps q S \<and> cs_witness sel \<in> S
       \<and> (\<forall>m \<in> S. prefix (frames_of (snaps ! m)) (frames_of (snaps ! cs_witness sel)))" by blast
  moreover have "length (frames_of (snaps ! m)) < length (frames_of (snaps ! cs_witness sel))
       \<or> frames_of (snaps ! m) = frames_of (snaps ! cs_witness sel)"
    if S: "agreeing_quorum snaps q S" and m: "m \<in> S" for S m
  proof -
    obtain c ys where c: "(c, ys) \<in> set (canonical_candidates (map witness_from_snapshot snaps) q)" "set ys = S"
      using agreeing_candidate [OF assms(1) S] by blast
    then have "prefix (frames_of (snaps ! m)) (frames_of (snaps ! c))"
      using candidate_agreeing [OF assms(1) c(1)] m by blast
    moreover have "length (frames_of (snaps ! c)) \<le> length (frames_of (snaps ! cs_witness sel))"
        "length (frames_of (snaps ! c)) = length (frames_of (snaps ! cs_witness sel)) \<longrightarrow>
           frames_of (snaps ! c) = frames_of (snaps ! cs_witness sel)"
      using sel c(1) by auto
    ultimately show ?thesis by (metis le_neq_implies_less less_le_trans prefix_length_le prefix_order.antisym
          prefix_length_prefix prefix_order.refl not_le order.strict_trans2)
  qed
  ultimately show ?thesis using sel by blast
qed

lemma be_bytes_4:
  "be_bytes 4 n = [of_nat (n div 256 div 256 div 256), of_nat (n div 256 div 256), of_nat (n div 256), of_nat n]"
proof -
  have four: "(4 :: nat) = Suc (Suc (Suc (Suc 0)))" by simp
  show ?thesis by (simp only: four be_bytes.simps append_Nil append_Cons)
qed

definition demo_snapshot :: "nat \<Rightarrow> bytes \<Rightarrow> replica_snapshot" where
  "demo_snapshot z b = \<lparr>rs_zone = z, rs_generation = 1, rs_metageneration = 1,
     rs_persisted_size = int (length b), rs_finalized = False, rs_crc32c = None,
     rs_metadata = protocol_metadata, rs_bytes = b\<rparr>"

theorem canonical_selection_longest_agreement_witness:
  "\<exists>sel S. select_canonical_quorum
       [demo_snapshot 0 [0, 0, 0, 5, 7], demo_snapshot 1 [0, 0, 0, 5, 9], demo_snapshot 2 [0, 0, 0, 5, 7, 0]] 2 = Inr sel
     \<and> cs_record_ends sel = [5]
     \<and> agreeing_quorum
       [demo_snapshot 0 [0, 0, 0, 5, 7], demo_snapshot 1 [0, 0, 0, 5, 9], demo_snapshot 2 [0, 0, 0, 5, 7, 0]] 2 S"
proof -
  have "case select_canonical_quorum
       [demo_snapshot 0 [0, 0, 0, 5, 7], demo_snapshot 1 [0, 0, 0, 5, 9], demo_snapshot 2 [0, 0, 0, 5, 7, 0]] 2 of
     Inl _ \<Rightarrow> False | Inr sel \<Rightarrow> cs_record_ends sel = [5]" by code_simp
  then obtain sel where r: "select_canonical_quorum
       [demo_snapshot 0 [0, 0, 0, 5, 7], demo_snapshot 1 [0, 0, 0, 5, 9], demo_snapshot 2 [0, 0, 0, 5, 7, 0]] 2 = Inr sel"
      and e: "cs_record_ends sel = [5]" by (auto split: sum.splits)
  show ?thesis using canonical_selection_longest_agreement [OF _ r] r e by auto
qed

text \<open>
  C17. Recovery keeps every committed record.  If some complete records are
  held by so many of the read witnesses that every quorum of them contains a
  holder, then any canonical prefix the selection returns starts with those
  records, whatever bytes the other witnesses hold.
\<close>

theorem canonical_prefix_keeps_committed:
  assumes "0 < q" "canonical_prefix_bytes snaps q = Inr b"
    and "encode_all cs = Inr c"
    and "length snaps < q + length (filter (\<lambda>s. prefix c (rs_bytes s)) snaps)"
  shows "prefix c b"
proof -
  obtain sel where sel: "select_canonical_quorum snaps q = Inr sel"
      and b: "b = concat (map frame_bytes (frames_of (snaps ! cs_witness sel)))"
    using canonical_prefix_bytes_Inr [OF assms(1,2)] .
  have "prefix cs (frames_of (snaps ! cs_witness sel))"
    using canonical_selection_keeps [OF assms(1) sel assms(3,4)] by blast
  then show ?thesis
    using concat_map_prefix [of cs _ frame_bytes] encode_all_concat [OF assms(3)] b by simp
qed

theorem canonical_prefix_keeps_committed_witness:
  "\<exists>b. canonical_prefix_bytes
       [demo_snapshot 0 [0, 0, 0, 5, 7], demo_snapshot 1 [0, 0, 0], demo_snapshot 2 [0, 0, 0, 5, 7, 0]] 2 = Inr b
     \<and> prefix [0, 0, 0, 5, 7] b"
proof -
  have "case canonical_prefix_bytes
       [demo_snapshot 0 [0, 0, 0, 5, 7], demo_snapshot 1 [0, 0, 0], demo_snapshot 2 [0, 0, 0, 5, 7, 0]] 2 of
     Inl _ \<Rightarrow> False | Inr b \<Rightarrow> True" by code_simp
  then obtain b where r: "canonical_prefix_bytes
       [demo_snapshot 0 [0, 0, 0, 5, 7], demo_snapshot 1 [0, 0, 0], demo_snapshot 2 [0, 0, 0, 5, 7, 0]] 2 = Inr b"
    by (auto split: sum.splits)
  have e: "encode_all [\<lparr>payload = [7]\<rparr>] = Inr [0, 0, 0, 5, 7]"
    by (simp add: encode_Inr_iff and_then_Inr_iff MAX_PAYLOAD_BYTES_def u32_max_def HEADER_LEN_def be_bytes_4)
  show ?thesis
    using canonical_prefix_keeps_committed [OF _ r e] r by (auto simp: demo_snapshot_def)
qed

text \<open>
  C35. The selection fails only for a reason: below a quorum of witnesses it
  reports the missing quorum, and when every witness holds a prefix of one
  record history it always succeeds.
\<close>

theorem canonical_selection_outcome:
  assumes "0 < q"
  shows "(length snaps < q \<longrightarrow> select_canonical_quorum snaps q = Inl PE_NoQuorum)
    \<and> (q \<le> length snaps \<and> (\<forall>s \<in> set snaps. prefix (frames_of s) history) \<longrightarrow>
         (\<exists>sel. select_canonical_quorum snaps q = Inr sel
            \<and> prefix (frames_of (snaps ! cs_witness sel)) history))"
proof (intro conjI impI)
  assume "length snaps < q"
  then show "select_canonical_quorum snaps q = Inl PE_NoQuorum" by (simp add: select_canonical_quorum_def)
next
  assume h: "q \<le> length snaps \<and> (\<forall>s \<in> set snaps. prefix (frames_of s) history)"
  have pre: "prefix (frames_of (snaps ! i)) history" if "i < length snaps" for i
    using h nth_mem [OF that] by blast
  have "comparable (frames_of (snaps ! l)) (frames_of (snaps ! r))"
    if "l < length snaps" "r < length snaps" for l r
    by (rule prefix_same_cases [OF pre [OF that(1)] pre [OF that(2)]])
  then obtain sel where sel: "select_canonical_quorum snaps q = Inr sel"
    using all_comparable_select [of q snaps] assms h by blast
  then have "\<exists>S. agreeing_quorum snaps q S \<and> cs_witness sel \<in> S"
    using candidate_agreeing [OF assms] select_canonical_Inr [OF assms sel] by blast
  then have "cs_witness sel < length snaps" by (auto simp: agreeing_quorum_def)
  with sel pre show "\<exists>sel. select_canonical_quorum snaps q = Inr sel
            \<and> prefix (frames_of (snaps ! cs_witness sel)) history" by blast
qed

theorem canonical_selection_outcome_witness:
  "select_canonical_quorum [demo_snapshot 0 []] 2 = Inl PE_NoQuorum"
  using canonical_selection_outcome [of 2 "[demo_snapshot 0 []]" "[]"] by simp

end
