(* ===== verification/Replica_Ops.thy ===== *)
theory Replica_Ops
  imports Canonical "HOL-Library.State_Monad"
begin

text \<open>
  The \<open>Replica\<close> interface of \<open>transport.rs\<close> as a record of state transformers
  on an abstract world, one operation per zone of the object at hand, and the
  retrying wrappers \<open>protocol.rs\<close> builds on it.  Waiting between attempts has no
  effect on the world and is left out; a wrapper recurses on the attempts that
  remain.
\<close>

section \<open>Interface\<close>

record 'w replica_ops =
  op_snapshot :: "nat \<Rightarrow> ('w, transport_error + replica_snapshot) state"
  op_read_range :: "nat \<Rightarrow> int \<Rightarrow> ('w, transport_error + replica_range_read) state"
  op_stat :: "nat \<Rightarrow> ('w, transport_error + replica_snapshot) state"
  op_create_append_session :: "nat \<Rightarrow> metadata \<Rightarrow> ('w, transport_error + append_token) state"
  op_resume_tail :: "nat \<Rightarrow> append_token \<Rightarrow> ('w, (transport_error + int) \<times> append_token) state"
  op_takeover :: "nat \<Rightarrow> replica_snapshot \<Rightarrow> ('w, transport_error + append_token) state"
  op_replace_appendable ::
    "nat \<Rightarrow> replica_snapshot option \<Rightarrow> bytes \<Rightarrow> metadata \<Rightarrow> ('w, transport_error + append_token) state"
  op_lane_send :: "nat \<Rightarrow> int \<Rightarrow> bytes list \<Rightarrow> ('w, transport_error + unit) state"
  op_delete :: "nat \<Rightarrow> int \<Rightarrow> ('w, transport_error + unit) state"
  op_finalize ::
    "nat \<Rightarrow> append_token \<Rightarrow> int \<Rightarrow> ('w, (transport_error + replica_snapshot) \<times> append_token) state"

text \<open>\<open>ClientConfig\<close>; delays are in nanoseconds.\<close>

record client_config =
  max_retries :: nat
  retry_base :: nat

definition default_client_config :: client_config where
  "default_client_config = \<lparr>max_retries = 5, retry_base = 20000000\<rparr>"

text \<open>\<open>Duration::MAX\<close> is \<open>u64::MAX\<close> seconds and 999999999 nanoseconds.\<close>

definition duration_max :: nat where
  "duration_max = u64_max * 1000000000 + 999999999"

definition retry_delay :: "client_config \<Rightarrow> nat \<Rightarrow> nat" where
  "retry_delay cfg attempt =
     (let shift = min attempt 16;
          multiplier = (if shift < 32 then 2 ^ shift else u32_max)
      in saturating_mul duration_max (retry_base cfg) multiplier)"


section \<open>Retrying wrappers\<close>

fun with_retry :: "nat \<Rightarrow> ('w, transport_error + 'a) state \<Rightarrow> ('w, transport_error + 'a) state" where
  "with_retry 0 op = op"
| "with_retry (Suc retries) op = do {
     r \<leftarrow> op;
     case r of
       Inl e \<Rightarrow> if transient (te_code e) then with_retry retries op else State_Monad.return r
     | Inr _ \<Rightarrow> State_Monad.return r
   }"

definition snapshot_with_retry ::
  "'w replica_ops \<Rightarrow> client_config \<Rightarrow> nat \<Rightarrow> ('w, transport_error + replica_snapshot) state" where
  "snapshot_with_retry ops cfg z = with_retry (max_retries cfg) (op_snapshot ops z)"

definition observe_with_retry ::
  "'w replica_ops \<Rightarrow> client_config \<Rightarrow> nat \<Rightarrow> ('w, transport_error + replica_snapshot option) state" where
  "observe_with_retry ops cfg z = do {
     r \<leftarrow> snapshot_with_retry ops cfg z;
     State_Monad.return (case r of
       Inr s \<Rightarrow> Inr (Some s)
     | Inl e \<Rightarrow> if te_code e = NotFound then Inr None else Inl e)
   }"

definition stat_with_retry ::
  "'w replica_ops \<Rightarrow> client_config \<Rightarrow> nat \<Rightarrow> ('w, transport_error + replica_snapshot) state" where
  "stat_with_retry ops cfg z = with_retry (max_retries cfg) (op_stat ops z)"

definition create_session_with_retry ::
  "'w replica_ops \<Rightarrow> client_config \<Rightarrow> metadata \<Rightarrow> nat \<Rightarrow> ('w, transport_error + append_token) state" where
  "create_session_with_retry ops cfg m z =
     with_retry (max_retries cfg) (op_create_append_session ops z m)"

definition takeover_current :: "'w replica_ops \<Rightarrow> nat \<Rightarrow> ('w, transport_error + append_token) state" where
  "takeover_current ops z = do {
     observed \<leftarrow> op_stat ops z;
     case observed of
       Inl e \<Rightarrow> State_Monad.return (Inl e)
     | Inr obs \<Rightarrow> do {
         r \<leftarrow> op_takeover ops z obs;
         State_Monad.return (case r of
           Inl e \<Rightarrow> if te_code e = NotFound
             then Inl \<lparr>te_zone = te_zone e, te_code = Ambiguous,
               te_message = ''exact-generation takeover returned NOT_FOUND after current object lookup: ''
                 @ te_message e\<rparr>
             else Inl e
         | Inr t \<Rightarrow> Inr t)
       }
   }"

text \<open>Equality of metadata maps, as \<open>HashMap\<close> has it.  It is symbolic: no code equation is derived from it.\<close>

definition same_metadata :: "metadata \<Rightarrow> metadata \<Rightarrow> bool" where
  "same_metadata a b \<longleftrightarrow> a = b"

declare same_metadata_def [code del]

text \<open>\<open>replace_with_retry\<close>: after a transient failure the object is read again, and a matching
  unfinalized copy is the write's own result.\<close>

fun replace_with_retry ::
  "'w replica_ops \<Rightarrow> client_config \<Rightarrow> nat \<Rightarrow> nat \<Rightarrow> replica_snapshot option \<Rightarrow> bytes \<Rightarrow> metadata
     \<Rightarrow> ('w, transport_error + append_token) state" where
  "replace_with_retry ops cfg z retries observed data m = do {
     r \<leftarrow> op_replace_appendable ops z observed data m;
     case r of
       Inr t \<Rightarrow> State_Monad.return (Inr t)
     | Inl e \<Rightarrow>
         (case retries of
            0 \<Rightarrow> State_Monad.return (Inl e)
          | Suc left \<Rightarrow>
              if \<not> transient (te_code e) then State_Monad.return (Inl e)
              else do {
                o2 \<leftarrow> observe_with_retry ops cfg z;
                case o2 of
                  Inl e2 \<Rightarrow> State_Monad.return (Inl e2)
                | Inr None \<Rightarrow> replace_with_retry ops cfg z left None data m
                | Inr (Some cur) \<Rightarrow>
                    if rs_bytes cur = data \<and> same_metadata (rs_metadata cur) m \<and> \<not> rs_finalized cur
                    then State_Monad.return (Inr \<lparr>tk_zone = rs_zone cur, tk_generation = Some (rs_generation cur),
                      tk_metageneration = Some (rs_metageneration cur),
                      tk_persisted_size = int (length data), tk_write_handle = None\<rparr>)
                    else replace_with_retry ops cfg z left (Some cur) data m
              })
   }"

fun finalize_with_retry ::
  "'w replica_ops \<Rightarrow> client_config \<Rightarrow> nat \<Rightarrow> nat \<Rightarrow> append_token \<Rightarrow> int
     \<Rightarrow> ('w, (transport_error + replica_snapshot) \<times> append_token) state" where
  "finalize_with_retry ops cfg z retries token write_offset = do {
     (r, tok) \<leftarrow> op_finalize ops z token write_offset;
     case r of
       Inr s \<Rightarrow> State_Monad.return (Inr s, tok)
     | Inl e \<Rightarrow>
         if te_code e = FailedPrecondition \<or> transient (te_code e)
         then (case tk_generation tok of
             None \<Rightarrow> State_Monad.return (Inl e, tok)
           | Some g \<Rightarrow>
               (let check = do {
                      st \<leftarrow> stat_with_retry ops cfg z;
                      State_Monad.return (case st of
                        Inl e2 \<Rightarrow> Some (Inl e2)
                      | Inr s \<Rightarrow> if rs_finalized s \<and> rs_generation s = g \<and> rs_persisted_size s = write_offset
                          then Some (Inr s)
                          else if te_code e = FailedPrecondition then Some (Inl e) else None)
                    }
                in case retries of
                     0 \<Rightarrow> if transient (te_code e) then State_Monad.return (Inl e, tok)
                          else do { c \<leftarrow> check; State_Monad.return (case c of Some o1 \<Rightarrow> (o1, tok) | None \<Rightarrow> (Inl e, tok)) }
                   | Suc left \<Rightarrow> do {
                       c \<leftarrow> check;
                       case c of
                         Some o1 \<Rightarrow> State_Monad.return (o1, tok)
                       | None \<Rightarrow> finalize_with_retry ops cfg z left tok write_offset
                     }))
         else State_Monad.return (Inl e, tok)
   }"

declare replace_with_retry.simps [simp del] finalize_with_retry.simps [simp del]


section \<open>Preserved properties of the world\<close>

definition keeps :: "('w \<Rightarrow> bool) \<Rightarrow> ('w, 'a) state \<Rightarrow> bool" where
  "keeps P m \<longleftrightarrow> (\<forall>w. P w \<longrightarrow> P (snd (run_state m w)))"

lemma keepsD: "keeps P m \<Longrightarrow> run_state m w = (r, w') \<Longrightarrow> P w \<Longrightarrow> P w'"
  unfolding keeps_def by (metis snd_conv)

lemma keeps_return [intro!]: "keeps P (State_Monad.return x)"
  by (simp add: keeps_def)

lemma keeps_bind [intro!]:
  assumes "keeps P m" "\<And>x. keeps P (f x)"
  shows "keeps P (State_Monad.bind m f)"
  using assms by (auto simp: keeps_def split: prod.splits)

lemma keeps_cases [intro!]:
  "\<lbrakk>b \<Longrightarrow> keeps P m1; \<not> b \<Longrightarrow> keeps P m2\<rbrakk> \<Longrightarrow> keeps P (if b then m1 else m2)"
  "\<lbrakk>\<And>x. r = Inl x \<Longrightarrow> keeps P (f x); \<And>y. r = Inr y \<Longrightarrow> keeps P (g y)\<rbrakk> \<Longrightarrow>
     keeps P (case r of Inl x \<Rightarrow> f x | Inr y \<Rightarrow> g y)"
  "\<lbrakk>o1 = None \<Longrightarrow> keeps P m1; \<And>x. o1 = Some x \<Longrightarrow> keeps P (h x)\<rbrakk> \<Longrightarrow>
     keeps P (case o1 of None \<Rightarrow> m1 | Some x \<Rightarrow> h x)"
  "(\<And>a b. p = (a, b) \<Longrightarrow> keeps P (k a b)) \<Longrightarrow> keeps P (case p of (a, b) \<Rightarrow> k a b)"
  by (auto split: sum.split option.split prod.split)

lemma keeps_with_retry [intro!]: "keeps P op \<Longrightarrow> keeps P (with_retry k op)"
  by (induction k) auto


section \<open>Contract\<close>

text \<open>
  What recovery relies on, for a byte prefix \<open>c\<close> that some zones hold: none of
  the calls recovery makes takes the prefix away from a zone, a read of a zone
  that holds it returns bytes that start with it, a takeover reports a tail
  that covers it, a lookup never reports such an object as absent, and replies
  name the zone that was asked.
\<close>

locale committed_replicas =
  fixes ops :: "'w replica_ops" and n :: nat and c :: bytes and holds :: "'w \<Rightarrow> nat \<Rightarrow> bool"
  assumes stat_keeps: "holds w y \<Longrightarrow> holds (snd (run_state (op_stat ops z) w)) y"
    and snapshot_keeps: "holds w y \<Longrightarrow> holds (snd (run_state (op_snapshot ops z) w)) y"
    and takeover_keeps: "holds w y \<Longrightarrow> holds (snd (run_state (op_takeover ops z obs) w)) y"
    and finalize_keeps: "holds w y \<Longrightarrow> holds (snd (run_state (op_finalize ops z t off) w)) y"
    and create_keeps: "holds w y \<Longrightarrow> holds (snd (run_state (op_create_append_session ops z m) w)) y"
    and snapshot_reads: "z < n \<Longrightarrow> run_state (op_snapshot ops z) w = (Inr s, w') \<Longrightarrow>
       rs_zone s = z \<and> rs_persisted_size s = int (length (rs_bytes s)) \<and> (holds w z \<longrightarrow> prefix c (rs_bytes s))"
    and stat_zone: "z < n \<Longrightarrow> run_state (op_stat ops z) w = (Inr s, w') \<Longrightarrow> rs_zone s = z"
    and takeover_tail: "z < n \<Longrightarrow> run_state (op_takeover ops z obs) w = (Inr t, w') \<Longrightarrow>
       tk_zone t = z \<and> (holds w z \<longrightarrow> int (length c) \<le> tk_persisted_size t)"
    and finalize_zone: "z < n \<Longrightarrow> run_state (op_finalize ops z t off) w = ((Inr s, t'), w') \<Longrightarrow> rs_zone s = z"
    and absent_zone: "z < n \<Longrightarrow> run_state (op_stat ops z) w = (Inl e, w') \<Longrightarrow> te_code e = NotFound \<Longrightarrow>
       te_zone e = z \<and> \<not> holds w z"
begin

lemma op_keeps [intro!]:
  "keeps (\<lambda>w. holds w y) (op_stat ops z)"
  "keeps (\<lambda>w. holds w y) (op_snapshot ops z)"
  "keeps (\<lambda>w. holds w y) (op_takeover ops z obs)"
  "keeps (\<lambda>w. holds w y) (op_finalize ops z t off)"
  "keeps (\<lambda>w. holds w y) (op_create_append_session ops z m)"
  by (simp_all add: keeps_def stat_keeps snapshot_keeps takeover_keeps finalize_keeps create_keeps)

lemma finalize_with_retry_keeps [intro!]:
  "keeps (\<lambda>w. holds w y) (finalize_with_retry ops cfg z k t off)"
proof (induction k arbitrary: t)
  case 0
  show ?case
    by (subst finalize_with_retry.simps) (auto simp: Let_def stat_with_retry_def)
next
  case (Suc k)
  then show ?case
    by (subst finalize_with_retry.simps) (auto simp: Let_def stat_with_retry_def)
qed

text \<open>The last attempt of a retried call ran in a world that still holds whatever the first one held.\<close>

lemma with_retry_last:
  assumes "\<And>y. keeps (\<lambda>w. holds w y) op"
    and "run_state (with_retry k op) w = (r, w')"
  shows "\<exists>w1. run_state op w1 = (r, w') \<and> (\<forall>y. holds w y \<longrightarrow> holds w1 y)"
  using assms(2)
proof (induction k arbitrary: w)
  case (Suc k)
  obtain r1 w1 where r1: "run_state op w = (r1, w1)" by fastforce
  have k: "\<forall>y. holds w y \<longrightarrow> holds w1 y" using keepsD [OF assms(1) r1] by blast
  show ?case
  proof (cases "\<exists>e. r1 = Inl e \<and> transient (te_code e)")
    case True
    with Suc.prems r1 have "run_state (with_retry k op) w1 = (r, w')" by auto
    from Suc.IH [OF this] k show ?thesis by blast
  next
    case False
    with Suc.prems r1 have "r1 = r" "w1 = w'" by (auto split: sum.splits if_splits)
    with r1 show ?thesis by blast
  qed
qed auto

lemma stat_retry_zone:
  "z < n \<Longrightarrow> run_state (with_retry k (op_stat ops z)) w = (Inr s, w') \<Longrightarrow> rs_zone s = z"
  using with_retry_last [of "op_stat ops z" k w "Inr s" w'] stat_zone by blast

text \<open>A finalized copy names the zone it was asked of.\<close>

lemma finalize_with_retry_zone:
  assumes "z < n" "run_state (finalize_with_retry ops cfg z k t off) w = ((Inr s, t'), w')"
  shows "rs_zone s = z"
  using assms(2)
proof (induction k arbitrary: t w)
  case 0
  then show ?case
    by (subst (asm) finalize_with_retry.simps)
      (auto simp: Let_def stat_with_retry_def dest: finalize_zone [OF assms(1)] stat_retry_zone [OF assms(1)]
        split: prod.splits sum.splits if_splits option.splits)
next
  case (Suc k)
  from Suc.prems show ?case
    by (subst (asm) finalize_with_retry.simps)
      (auto simp: Let_def stat_with_retry_def dest: finalize_zone [OF assms(1)] stat_retry_zone [OF assms(1)] Suc.IH
        split: prod.splits sum.splits if_splits option.splits)
qed

end

end
