(* ===== verification/Local_Backend.thy ===== *)
theory Local_Backend
  imports Replica_Ops
begin

text \<open>
  The local-filesystem backend of \<open>local.rs\<close>: one data file and one metadata
  file per object, guarded by a process-wide lock, so every operation is one
  atomic step.  The world is the file system together with, for every object,
  the append session of the replica handle in use.  JSON files are the records they serialize,
  the identifier source is the counter \<open>fs_next\<close>, and the CRC32C of the crate
  \<open>crc32c\<close> is the parameter \<open>crc\<close>.  Operating-system failures other than a
  missing file are not modelled, as the backend has none to distinguish.
\<close>

section \<open>Files and sessions\<close>

record object_meta =
  om_generation :: int
  om_metageneration :: int
  om_finalized :: bool
  om_session :: int
  om_metadata :: metadata

record local_session =
  ss_id :: int
  ss_durable :: int

record local_world =
  fs_meta :: "string \<rightharpoonup> object_meta"
  fs_data :: "string \<rightharpoonup> bytes"
  fs_next :: int
  lw_session :: "string \<Rightarrow> local_session option"

definition LOCAL_BUCKET :: string where
  "LOCAL_BUCKET = ''projects/_/buckets/local''"

definition local_err :: "transport_code \<Rightarrow> string \<Rightarrow> transport_error" where
  "local_err code message = \<lparr>te_zone = 0, te_code = code, te_message = message\<rparr>"

definition io_err :: transport_error where
  "io_err = local_err Internal ''No such file or directory (os error 2)''"

definition load_existing :: "string \<Rightarrow> local_world \<Rightarrow> transport_error + object_meta" where
  "load_existing obj w = ok_or (fs_meta w obj) (local_err NotFound ''object not found'')"

definition read_data :: "string \<Rightarrow> local_world \<Rightarrow> transport_error + bytes" where
  "read_data obj w = ok_or (fs_data w obj) io_err"

definition store_meta :: "string \<Rightarrow> object_meta \<Rightarrow> local_world \<Rightarrow> local_world" where
  "store_meta obj m w = w\<lparr>fs_meta := (fs_meta w)(obj \<mapsto> m)\<rparr>"

definition write_data :: "string \<Rightarrow> bytes \<Rightarrow> local_world \<Rightarrow> local_world" where
  "write_data obj b w = w\<lparr>fs_data := (fs_data w)(obj \<mapsto> b)\<rparr>"

definition i64_to_be_bytes :: "int \<Rightarrow> bytes" where
  "i64_to_be_bytes i = be_bytes 8 (nat (i mod 2 ^ 64))"

definition i64_from_be_bytes :: "bytes \<Rightarrow> int" where
  "i64_from_be_bytes bs = (let n = int (be_nat bs) in if n < 2 ^ 63 then n else n - 2 ^ 64)"

definition show_i64 :: "int \<Rightarrow> string" where
  "show_i64 i = (if i < 0 then CHR ''-'' # show_dec (nat (- i)) else show_dec (nat i))"

definition local_snapshot :: "(bytes \<Rightarrow> nat) \<Rightarrow> object_meta \<Rightarrow> bytes \<Rightarrow> int \<Rightarrow> replica_snapshot" where
  "local_snapshot crc m b sz =
     \<lparr>rs_zone = 0, rs_generation = om_generation m, rs_metageneration = om_metageneration m,
      rs_persisted_size = sz, rs_finalized = om_finalized m,
      rs_crc32c = (if om_finalized m then Some (crc b) else None),
      rs_metadata = om_metadata m, rs_bytes = b\<rparr>"

definition open_session :: "string \<Rightarrow> int \<Rightarrow> object_meta \<Rightarrow> int \<Rightarrow> local_world \<Rightarrow> append_token \<times> local_world" where
  "open_session obj sid m sz w =
     (\<lparr>tk_zone = 0, tk_generation = Some (om_generation m), tk_metageneration = Some (om_metageneration m),
       tk_persisted_size = sz, tk_write_handle = Some (i64_to_be_bytes sid)\<rparr>,
      w\<lparr>lw_session := (lw_session w)(obj := Some \<lparr>ss_id = sid, ss_durable = sz\<rparr>)\<rparr>)"


section \<open>Operations\<close>

definition local_read_snapshot ::
  "(bytes \<Rightarrow> nat) \<Rightarrow> string \<Rightarrow> local_world \<Rightarrow> (transport_error + replica_snapshot) \<times> local_world" where
  "local_read_snapshot crc obj w =
     (and_then (load_existing obj w) (\<lambda>m.
      and_then (read_data obj w) (\<lambda>b. Inr (local_snapshot crc m b (int (length b))))), w)"

definition local_read_range ::
  "string \<Rightarrow> int \<Rightarrow> local_world \<Rightarrow> (transport_error + replica_range_read) \<times> local_world" where
  "local_read_range obj offset w =
     (and_then (load_existing obj w) (\<lambda>m.
      and_then (read_data obj w) (\<lambda>b.
      and_then (require (0 \<le> offset \<and> nat offset \<le> length b)
         (local_err OutOfRange ''read offset past object end'')) (\<lambda>_.
      Inr \<lparr>rr_zone = 0, rr_generation = om_generation m, rr_bytes = drop (nat offset) b\<rparr>))), w)"

definition local_stat ::
  "(bytes \<Rightarrow> nat) \<Rightarrow> string \<Rightarrow> local_world \<Rightarrow> (transport_error + replica_snapshot) \<times> local_world" where
  "local_stat crc obj w =
     (and_then (fst (local_read_snapshot crc obj w)) (\<lambda>s. Inr (s\<lparr>rs_bytes := []\<rparr>)), w)"

definition local_create_append_session ::
  "string \<Rightarrow> metadata \<Rightarrow> local_world \<Rightarrow> (transport_error + append_token) \<times> local_world" where
  "local_create_append_session obj md w =
     (case fs_meta w obj of
        Some _ \<Rightarrow> (Inl (local_err AlreadyExists ''object already exists''), w)
      | None \<Rightarrow>
          let sid = fs_next w; w1 = w\<lparr>fs_next := fs_next w + 1\<rparr>;
              m = \<lparr>om_generation = sid, om_metageneration = 1, om_finalized = False,
                   om_session = sid, om_metadata = md\<rparr>;
              w2 = store_meta obj m (write_data obj [] w1);
              (t, w3) = open_session obj sid m 0 w2
          in (Inr t, w3))"

definition handle_id :: "append_token \<Rightarrow> int option" where
  "handle_id t =
     (case tk_write_handle t of
        None \<Rightarrow> None
      | Some h \<Rightarrow> if length h = 8 then Some (i64_from_be_bytes h) else None)"

definition local_resume_tail ::
  "string \<Rightarrow> append_token \<Rightarrow> local_world \<Rightarrow> ((transport_error + int) \<times> append_token) \<times> local_world" where
  "local_resume_tail obj t w =
     (case load_existing obj w of
        Inl e \<Rightarrow> ((Inl e, t), w)
      | Inr m \<Rightarrow>
          if om_finalized m \<or> handle_id t \<noteq> Some (om_session m)
          then ((Inl (local_err FailedPrecondition ''append session was fenced''), t), w)
          else (case read_data obj w of
              Inl e \<Rightarrow> ((Inl e, t), w)
            | Inr b \<Rightarrow> let (t', w') = open_session obj (om_session m) m (int (length b)) w
                       in ((Inr (int (length b)), t'), w')))"

text \<open>The metadata file is written before the length of the data file is read.\<close>

definition local_takeover ::
  "string \<Rightarrow> replica_snapshot \<Rightarrow> local_world \<Rightarrow> (transport_error + append_token) \<times> local_world" where
  "local_takeover obj observed w =
     (case load_existing obj w of
        Inl e \<Rightarrow> (Inl e, w)
      | Inr m \<Rightarrow>
          if om_finalized m \<or> om_generation m \<noteq> rs_generation observed
          then (Inl (local_err FailedPrecondition ''takeover precondition failed''), w)
          else let m' = m\<lparr>om_session := fs_next w\<rparr>;
                   w1 = store_meta obj m' (w\<lparr>fs_next := fs_next w + 1\<rparr>)
               in case read_data obj w1 of
                    Inl e \<Rightarrow> (Inl e, w1)
                  | Inr b \<Rightarrow> let (t, w2) = open_session obj (om_session m') m' (int (length b)) w1
                             in (Inr t, w2))"

definition local_replace_appendable ::
  "string \<Rightarrow> replica_snapshot option \<Rightarrow> bytes \<Rightarrow> metadata \<Rightarrow> local_world
     \<Rightarrow> (transport_error + append_token) \<times> local_world" where
  "local_replace_appendable obj observed data md w =
     (let matches = (case (fs_meta w obj, observed) of
            (None, None) \<Rightarrow> True
          | (Some m, Some o1) \<Rightarrow>
              om_generation m = rs_generation o1 \<and> om_metageneration m = rs_metageneration o1
          | _ \<Rightarrow> False)
      in if \<not> matches then (Inl (local_err FailedPrecondition ''replace precondition failed''), w)
         else let sid = fs_next w; w1 = w\<lparr>fs_next := fs_next w + 1\<rparr>;
                  m = \<lparr>om_generation = sid, om_metageneration = 1, om_finalized = False,
                       om_session = sid, om_metadata = md\<rparr>;
                  w2 = store_meta obj m (write_data obj data w1);
                  (t, w3) = open_session obj sid m (int (length data)) w2
              in (Inr t, w3))"

text \<open>\<open>append\<close>, behind both the flushed and the unflushed lane send.\<close>

definition local_append ::
  "string \<Rightarrow> int \<Rightarrow> bytes list \<Rightarrow> local_world \<Rightarrow> (transport_error + unit) \<times> local_world" where
  "local_append obj write_offset messages w =
     (case lw_session w obj of
        None \<Rightarrow> (Inl (local_err FailedPrecondition ''no live append session''), w)
      | Some s \<Rightarrow>
          (case load_existing obj w of
             Inl e \<Rightarrow> (Inl e, w)
           | Inr m \<Rightarrow>
               if om_finalized m \<or> om_session m \<noteq> ss_id s
               then (Inl (local_err FailedPrecondition ''append session was fenced''), w)
               else (case read_data obj w of
                   Inl e \<Rightarrow> (Inl e, w)
                 | Inr b \<Rightarrow>
                     if write_offset \<noteq> int (length b)
                     then (Inl (local_err OutOfRange (''write offset '' @ show_i64 write_offset
                            @ '' does not match object length '' @ show_i64 (int (length b)))), w)
                     else let b' = b @ concat messages
                          in (Inr (), (write_data obj b' w)\<lparr>lw_session :=
                                (lw_session w)(obj := Some (s\<lparr>ss_durable := int (length b')\<rparr>))\<rparr>))))"

text \<open>\<open>lane_durable_change\<close>: the wait is over once the session's durable offset passes \<open>seen\<close>;
  \<open>None\<close> means the call is still waiting.\<close>

definition local_lane_durable_change ::
  "string \<Rightarrow> int \<Rightarrow> local_world \<Rightarrow> (transport_error + lane_durable_change) option" where
  "local_lane_durable_change obj seen w =
     (case lw_session w obj of
        None \<Rightarrow> Some (Inl (local_err FailedPrecondition ''no live append session''))
      | Some s \<Rightarrow> if ss_durable s > seen
          then Some (Inr \<lparr>ldc_persisted_size = ss_durable s, ldc_error = None\<rparr>) else None)"

definition local_delete :: "string \<Rightarrow> int \<Rightarrow> local_world \<Rightarrow> (transport_error + unit) \<times> local_world" where
  "local_delete obj generation w =
     (case load_existing obj w of
        Inl e \<Rightarrow> (Inl e, w)
      | Inr m \<Rightarrow>
          if om_generation m \<noteq> generation
          then (Inl (local_err FailedPrecondition ''delete generation mismatch''), w)
          else let w1 = w\<lparr>fs_meta := (fs_meta w)(obj := None)\<rparr>
               in (case fs_data w1 obj of
                     None \<Rightarrow> (Inl io_err, w1)
                   | Some _ \<Rightarrow> (Inr (), w1\<lparr>fs_data := (fs_data w1)(obj := None)\<rparr>)))"

definition local_finalize ::
  "(bytes \<Rightarrow> nat) \<Rightarrow> string \<Rightarrow> append_token \<Rightarrow> int \<Rightarrow> local_world
     \<Rightarrow> ((transport_error + replica_snapshot) \<times> append_token) \<times> local_world" where
  "local_finalize crc obj t write_offset w =
     (case load_existing obj w of
        Inl e \<Rightarrow> ((Inl e, t), w)
      | Inr m \<Rightarrow>
          (case read_data obj w of
             Inl e \<Rightarrow> ((Inl e, t), w)
           | Inr b \<Rightarrow>
               if int (length b) \<noteq> write_offset
               then ((Inl (local_err DataLoss (''finalize at '' @ show_i64 write_offset
                        @ '' but object length is '' @ show_i64 (int (length b)))), t), w)
               else let m' = (if om_finalized m then m
                              else m\<lparr>om_finalized := True, om_metageneration := om_metageneration m + 1\<rparr>);
                        w1 = (if om_finalized m then w else store_meta obj m' w);
                        w2 = w1\<lparr>lw_session := (lw_session w1)(obj := None)\<rparr>
                    in ((Inr (local_snapshot crc m' b (int (length b))),
                         t\<lparr>tk_generation := Some (om_generation m'),
                           tk_metageneration := Some (om_metageneration m')\<rparr>), w2)))"

definition local_shutdown :: "string \<Rightarrow> local_world \<Rightarrow> local_world" where
  "local_shutdown obj w = w\<lparr>lw_session := (lw_session w)(obj := None)\<rparr>"

definition local_ops :: "(bytes \<Rightarrow> nat) \<Rightarrow> string \<Rightarrow> local_world replica_ops" where
  "local_ops crc obj =
     \<lparr>op_snapshot = (\<lambda>z. State (local_read_snapshot crc obj)),
      op_read_range = (\<lambda>z off. State (local_read_range obj off)),
      op_stat = (\<lambda>z. State (local_stat crc obj)),
      op_create_append_session = (\<lambda>z m. State (local_create_append_session obj m)),
      op_resume_tail = (\<lambda>z t. State (local_resume_tail obj t)),
      op_takeover = (\<lambda>z s. State (local_takeover obj s)),
      op_replace_appendable = (\<lambda>z o1 d m. State (local_replace_appendable obj o1 d m)),
      op_lane_send = (\<lambda>z off ms. State (local_append obj off ms)),
      op_delete = (\<lambda>z g. State (local_delete obj g)),
      op_finalize = (\<lambda>z t off. State (local_finalize crc obj t off))\<rparr>"


section \<open>The backend keeps committed prefixes\<close>

definition local_holds :: "string \<Rightarrow> bytes \<Rightarrow> local_world \<Rightarrow> nat \<Rightarrow> bool" where
  "local_holds obj c w z \<longleftrightarrow>
     z = 0 \<and> fs_meta w obj \<noteq> None \<and> (\<exists>b. fs_data w obj = Some b \<and> prefix c b)"

lemmas local_op_defs = local_read_snapshot_def local_stat_def local_takeover_def local_finalize_def
  local_create_append_session_def load_existing_def read_data_def store_meta_def write_data_def
  open_session_def local_snapshot_def local_err_def

lemma local_holds_stable:
  assumes "local_holds obj c w z"
  shows "local_holds obj c (snd (local_takeover obj observed w)) z"
    and "local_holds obj c (snd (local_finalize crc obj t off w)) z"
    and "local_holds obj c (snd (local_create_append_session obj m w)) z"
  using assms by (auto simp: local_holds_def local_op_defs Let_def)

lemma local_takeover_tail:
  assumes "local_takeover obj observed w = (Inr t, w')" "local_holds obj c w z"
  shows "int (length c) \<le> tk_persisted_size t"
  using assms by (auto simp: local_holds_def local_op_defs prefix_def Let_def split: if_splits)

interpretation local_committed: committed_replicas "local_ops crc obj" 1 c "local_holds obj c"
  for crc obj c
proof (unfold_locales, goal_cases)
  case (1 w y z)
  then show ?case by (simp add: local_ops_def local_stat_def)
next
  case (2 w y z)
  then show ?case by (simp add: local_ops_def local_read_snapshot_def)
next
  case (3 w y z obs)
  then show ?case by (simp add: local_ops_def local_holds_stable)
next
  case (4 w y z t off)
  then show ?case by (simp add: local_ops_def local_holds_stable)
next
  case (5 w y z m)
  then show ?case by (simp add: local_ops_def local_holds_stable)
next
  case (6 z w s w')
  then show ?case
    by (auto simp: local_ops_def local_op_defs local_holds_def and_then_Inr_iff ok_or_Inr_iff)
next
  case (7 z w s w')
  then show ?case
    by (auto simp: local_ops_def local_op_defs and_then_Inr_iff ok_or_Inr_iff)
next
  case (8 z obs w t w')
  then show ?case
    using local_takeover_tail [of obj obs w t w' c z]
    by (auto simp: local_ops_def)
      (auto simp: local_op_defs ok_or_def Let_def split: if_splits sum.splits option.splits)
next
  case (9 z t off w s t' w')
  then show ?case
    by (auto simp: local_ops_def local_op_defs ok_or_def Let_def split: if_splits option.splits sum.splits)
next
  case (10 z w e w')
  then show ?case
    by (auto simp: local_ops_def local_op_defs local_holds_def io_err_def and_then_Inl_iff ok_or_def
        split: option.splits)
qed


section \<open>Properties\<close>

text \<open>
  C19. A takeover fences every earlier session.  Once a takeover of the object
  has succeeded, an append through a session opened before it is refused with a
  precondition failure and changes nothing, and a resume with an earlier
  session's handle is refused in the same way.
\<close>

theorem takeover_fences_older_sessions:
  assumes "local_takeover obj observed w = (Inr t, w')" "ss_id old < fs_next w"
    and "handle_id old_token \<noteq> Some (fs_next w)"
  shows "(\<exists>msg. local_append obj off msgs (w'\<lparr>lw_session := (lw_session w')(obj := Some old)\<rparr>)
            = (Inl (local_err FailedPrecondition msg), w'\<lparr>lw_session := (lw_session w')(obj := Some old)\<rparr>))
    \<and> (\<exists>msg. local_resume_tail obj old_token w' = ((Inl (local_err FailedPrecondition msg), old_token), w'))"
proof -
  obtain m where m: "fs_meta w' obj = Some m" "om_session m = fs_next w"
    using assms(1) by (auto simp: local_op_defs ok_or_def Let_def split: if_splits option.splits sum.splits)
  then show ?thesis
    using assms(2,3) by (auto simp: local_append_def local_resume_tail_def load_existing_def)
qed

definition demo_world :: local_world where
  "demo_world = \<lparr>fs_meta = [''seg'' \<mapsto> \<lparr>om_generation = 1, om_metageneration = 1, om_finalized = False,
       om_session = 1, om_metadata = Map.empty\<rparr>],
     fs_data = [''seg'' \<mapsto> [0, 0, 0, 5, 7]], fs_next = 2, lw_session = [''seg'' \<mapsto> \<lparr>ss_id = 1, ss_durable = 5\<rparr>]\<rparr>"

theorem takeover_fences_older_sessions_witness:
  "\<exists>t w'. local_takeover ''seg'' (demo_snapshot 0 []) demo_world = (Inr t, w')
    \<and> (\<exists>msg. local_append ''seg'' 5 [[1]] (w'\<lparr>lw_session := (lw_session w')(''seg'' := Some \<lparr>ss_id = 1, ss_durable = 5\<rparr>)\<rparr>)
          = (Inl (local_err FailedPrecondition msg), w'\<lparr>lw_session := (lw_session w')(''seg'' := Some \<lparr>ss_id = 1, ss_durable = 5\<rparr>)\<rparr>))"
proof -
  obtain t w' where r: "local_takeover ''seg'' (demo_snapshot 0 []) demo_world = (Inr t, w')"
    by (simp add: local_op_defs demo_world_def demo_snapshot_def)
  have "handle_id \<lparr>tk_zone = 0, tk_generation = None, tk_metageneration = None, tk_persisted_size = 0,
      tk_write_handle = None\<rparr> \<noteq> Some (fs_next demo_world)"
    by (simp add: handle_id_def)
  then show ?thesis
    using takeover_fences_older_sessions [OF r, of "\<lparr>ss_id = 1, ss_durable = 5\<rparr>" _ 5 "[[1]]"] r
    by (fastforce simp: demo_world_def)
qed

text \<open>
  C34. Appends land exactly once and in place: a successful append extends the
  object by exactly the concatenated messages at the offset the lane named,
  leaves every other object alone, and publishes the new length as the
  session's durable tail, which the next durable-change call reports.
\<close>

theorem local_append_extends_object:
  assumes "local_append obj off msgs w = (Inr (), w')"
  shows "\<exists>b. fs_data w obj = Some b \<and> off = int (length b)
    \<and> fs_data w' = (fs_data w)(obj \<mapsto> b @ concat msgs) \<and> fs_meta w' = fs_meta w
    \<and> (concat msgs \<noteq> [] \<longrightarrow> local_lane_durable_change obj off w'
          = Some (Inr \<lparr>ldc_persisted_size = off + int (length (concat msgs)), ldc_error = None\<rparr>))"
proof -
  obtain s m b where "lw_session w obj = Some s" "fs_meta w obj = Some m" "fs_data w obj = Some b"
      "\<not> om_finalized m" "om_session m = ss_id s" "off = int (length b)"
    using assms
    by (auto simp: local_append_def local_op_defs ok_or_def split: option.splits if_splits sum.splits)
  moreover from this assms have "w' = (write_data obj (b @ concat msgs) w)
      \<lparr>lw_session := (lw_session w)(obj := Some (s\<lparr>ss_durable := int (length (b @ concat msgs))\<rparr>))\<rparr>"
    by (simp add: local_append_def load_existing_def read_data_def Let_def)
  ultimately show ?thesis
    by (auto simp: local_lane_durable_change_def write_data_def)
qed

theorem local_append_extends_object_witness:
  "\<exists>w'. local_append ''seg'' 5 [[1], [2, 3]] demo_world = (Inr (), w')
     \<and> fs_data w' ''seg'' = Some [0, 0, 0, 5, 7, 1, 2, 3]"
proof -
  obtain w' where r: "local_append ''seg'' 5 [[1], [2, 3]] demo_world = (Inr (), w')"
    by (simp add: local_append_def local_op_defs demo_world_def)
  show ?thesis using local_append_extends_object [OF r] r by (auto simp: demo_world_def)
qed

end
