(* ===== verification/Recovery.thy ===== *)
theory Recovery
  imports Local_Backend
begin

text \<open>
  Recovery of one segment, \<open>QuorumVolume\<close> of \<open>protocol.rs\<close>: a takeover fences
  every reachable zone before its size is read, the order statistic of the
  sizes bounds what a quorum may have acknowledged, the non-empty copies are
  frozen and read, and the canonical record prefix of a quorum is selected.
  Calls that the source joins run on different zones; the model runs them in
  zone order.
\<close>

section \<open>Results\<close>

record canonical_prefix =
  cp_bytes :: bytes
  cp_record_ends :: "nat list"

record sealed_witness =
  sw_zone :: nat
  sw_generation :: int

record recovered_tail =
  rt_canonical :: canonical_prefix
  rt_crc32c :: "nat"
  rt_had_discarded_suffix :: bool
  rt_sealed_witnesses :: "sealed_witness list"

text \<open>\<open>RecoveryCandidate\<close>; a reusable writer is built from the tokens of all zones.\<close>

datatype recovery_candidate =
    Candidate_Absent
  | Candidate_Empty "append_token list option"
  | Candidate_NonEmpty recovered_tail

record quorum_volume =
  qv_replicas :: nat
  qv_config :: client_config
  qv_metadata :: metadata

definition with_metadata ::
  "nat \<Rightarrow> client_config \<Rightarrow> metadata \<Rightarrow> protocol_error + quorum_volume" where
  "with_metadata n cfg m =
     (if n \<notin> set SUPPORTED_REPLICA_COUNTS then Inl PE_ReplicaCount
      else Inr \<lparr>qv_replicas = n, qv_config = cfg, qv_metadata = m\<rparr>)"

definition volume_quorum :: "quorum_volume \<Rightarrow> nat" where
  "volume_quorum vol = majority (qv_replicas vol)"

text \<open>\<open>iter().flatten()\<close> over results keeps the successes.\<close>

definition oks :: "('e + 'a) list \<Rightarrow> 'a list" where
  "oks rs = List.map_filter (\<lambda>r. case r of Inl _ \<Rightarrow> None | Inr x \<Rightarrow> Some x) rs"

text \<open>\<open>join_all\<close> of one call per element, results in the order of the elements.\<close>

fun join_all :: "('a \<Rightarrow> ('w, 'b) state) \<Rightarrow> 'a list \<Rightarrow> ('w, 'b list) state" where
  "join_all f [] = State_Monad.return []"
| "join_all f (x # xs) = do {
     r \<leftarrow> f x;
     rs \<leftarrow> join_all f xs;
     State_Monad.return (r # rs)
   }"

definition create_writer ::
  "'w replica_ops \<Rightarrow> quorum_volume \<Rightarrow> ('w, protocol_error + append_token list) state" where
  "create_writer ops vol = do {
     creates \<leftarrow> join_all (create_session_with_retry ops (qv_config vol) (qv_metadata vol))
       [0..<qv_replicas vol];
     let tokens = oks creates in
     State_Monad.return (if length tokens < volume_quorum vol then Inl PE_NoQuorum else Inr tokens)
   }"


section \<open>Observation\<close>

datatype observation =
    Live append_token
  | Finalized replica_snapshot
  | Missing nat

definition observe_zone ::
  "'w replica_ops \<Rightarrow> quorum_volume \<Rightarrow> nat \<Rightarrow> ('w, protocol_error + observation) state" where
  "observe_zone ops vol z = do {
     r \<leftarrow> with_retry (max_retries (qv_config vol)) (takeover_current ops z);
     case r of
       Inr token \<Rightarrow> State_Monad.return (Inr (Live token))
     | Inl e \<Rightarrow>
         if te_code e = FailedPrecondition then do {
           s \<leftarrow> snapshot_with_retry ops (qv_config vol) z;
           State_Monad.return (case s of
             Inl e2 \<Rightarrow> Inl (PE_Transport e2)
           | Inr snap \<Rightarrow> if valid_format (rs_metadata snap) then Inr (Finalized snap) else Inl PE_NoQuorum)
         }
         else State_Monad.return
           (if te_code e = NotFound then Inr (Missing (te_zone e))
            else if transient (te_code e) \<or> te_code e = DataLoss \<or> te_code e = Ambiguous then Inl PE_NoQuorum
            else Inl (PE_Transport e))
   }"

text \<open>The loop over the attempts: an unavailable zone is skipped, any other error ends recovery.\<close>

fun keep_observations :: "(protocol_error + 'a) list \<Rightarrow> protocol_error + 'a list" where
  "keep_observations [] = Inr []"
| "keep_observations (Inr x # rs) = and_then (keep_observations rs) (\<lambda>xs. Inr (x # xs))"
| "keep_observations (Inl e # rs) = (if e = PE_NoQuorum then keep_observations rs else Inl e)"

fun observed_size :: "observation \<Rightarrow> int" where
  "observed_size (Live token) = tk_persisted_size token"
| "observed_size (Finalized snap) = rs_persisted_size snap"
| "observed_size (Missing _) = 0"

fun is_missing :: "observation \<Rightarrow> bool" where
  "is_missing (Missing _) = True"
| "is_missing _ = False"

definition missing_zones :: "observation list \<Rightarrow> nat list" where
  "missing_zones obs = List.map_filter (\<lambda>x. case x of Missing z \<Rightarrow> Some z | _ \<Rightarrow> None) obs"

definition live_tokens :: "observation list \<Rightarrow> append_token list" where
  "live_tokens obs = List.map_filter (\<lambda>x. case x of Live t \<Rightarrow> Some t | _ \<Rightarrow> None) obs"

definition finalized_snapshots :: "observation list \<Rightarrow> replica_snapshot list" where
  "finalized_snapshots obs = List.map_filter (\<lambda>x. case x of Finalized s \<Rightarrow> Some s | _ \<Rightarrow> None) obs"


section \<open>Candidates\<close>

text \<open>The branch of \<open>recover_candidate\<close> for a committed size of zero.\<close>

definition recover_empty ::
  "'w replica_ops \<Rightarrow> quorum_volume \<Rightarrow> observation list \<Rightarrow> ('w, protocol_error + recovery_candidate) state" where
  "recover_empty ops vol obs = do {
     let empty_witnesses = length (filter (\<lambda>x. \<not> is_missing x \<and> observed_size x = 0) obs);
     let tokens = filter (\<lambda>t. tk_persisted_size t = 0) (live_tokens obs);
     creates \<leftarrow> (if length tokens < volume_quorum vol
       then join_all (create_session_with_retry ops (qv_config vol) (qv_metadata vol)) (missing_zones obs)
       else State_Monad.return []);
     let created = oks creates;
     let tokens = tokens @ created;
     State_Monad.return
       (if empty_witnesses + length created < volume_quorum vol then Inl PE_NoQuorum
        else Inr (Candidate_Empty (if length tokens = qv_replicas vol then Some tokens else None)))
   }"

definition missing_placeholder :: "(bytes \<Rightarrow> nat) \<Rightarrow> quorum_volume \<Rightarrow> nat \<Rightarrow> replica_snapshot" where
  "missing_placeholder crc vol z = \<lparr>rs_zone = z, rs_generation = 0, rs_metageneration = 0,
     rs_persisted_size = 0, rs_finalized = True, rs_crc32c = Some (crc []),
     rs_metadata = qv_metadata vol, rs_bytes = []\<rparr>"

text \<open>The pure end of \<open>recover_candidate\<close>, from the frozen copies to the candidate.\<close>

definition select_tail ::
  "(bytes \<Rightarrow> nat) \<Rightarrow> quorum_volume \<Rightarrow> nat option \<Rightarrow> nat \<Rightarrow> nat
     \<Rightarrow> replica_snapshot list \<Rightarrow> nat list \<Rightarrow> protocol_error + recovery_candidate" where
  "select_tail crc vol expected committed_size max_observed_size recovery_snapshots missing =
     (let observed_lens = map (\<lambda>s. length (rs_bytes s)) recovery_snapshots;
          snaps = map (\<lambda>s. s\<lparr>rs_bytes := take (min (length (rs_bytes s)) committed_size) (rs_bytes s)\<rparr>)
                    recovery_snapshots
                  @ map (missing_placeholder crc vol) missing
      in and_then (select_canonical_quorum snaps (volume_quorum vol)) (\<lambda>sel.
         let selected_len = last_or_zero (cs_record_ends sel);
             had_discarded_suffix = selected_len < max_observed_size
         in and_then
           (case expected of
              Some k \<Rightarrow> if length (cs_record_ends sel) < k
                then Inl (PE_RecoveryPrefixTooShort k (length (cs_record_ends sel)))
                else Inr (take k (cs_record_ends sel))
            | None \<Rightarrow> Inr (cs_record_ends sel))
           (\<lambda>ends. if ends = [] then Inr (Candidate_Empty None)
             else let canonical_len = last ends;
                      canonical_bytes = take canonical_len (rs_bytes (snaps ! cs_witness sel));
                      sealed = filter (\<lambda>(s, observed_len). rs_finalized s \<and> observed_len = canonical_len
                                 \<and> rs_bytes s = canonical_bytes) (zip snaps observed_lens)
                  in Inr (Candidate_NonEmpty
                       \<lparr>rt_canonical = \<lparr>cp_bytes = canonical_bytes, cp_record_ends = ends\<rparr>,
                        rt_crc32c = crc canonical_bytes,
                        rt_had_discarded_suffix = had_discarded_suffix,
                        rt_sealed_witnesses = map (\<lambda>(s, _). \<lparr>sw_zone = rs_zone s, sw_generation = rs_generation s\<rparr>) sealed\<rparr>))))"

definition recover_nonempty ::
  "'w replica_ops \<Rightarrow> (bytes \<Rightarrow> nat) \<Rightarrow> quorum_volume \<Rightarrow> nat option \<Rightarrow> int \<Rightarrow> int
     \<Rightarrow> observation list \<Rightarrow> ('w, protocol_error + recovery_candidate) state" where
  "recover_nonempty ops crc vol expected committed_size max_observed_size obs = do {
     frozen \<leftarrow> join_all (\<lambda>token. do {
         (r, _) \<leftarrow> finalize_with_retry ops (qv_config vol) (tk_zone token)
           (max_retries (qv_config vol)) token (tk_persisted_size token);
         State_Monad.return r
       }) (live_tokens obs);
     let frozen_zones = map rs_zone (oks frozen);
     if length frozen_zones + length (finalized_snapshots obs) + length (missing_zones obs) < volume_quorum vol
     then State_Monad.return (Inl PE_NoQuorum)
     else if committed_size < 0 \<or> max_observed_size < 0
     then State_Monad.return (Inl (PE_InvalidManifest ''persisted segment size does not fit in usize''))
     else do {
       reads \<leftarrow> join_all (snapshot_with_retry ops (qv_config vol)) frozen_zones;
       State_Monad.return (select_tail crc vol expected (nat committed_size) (nat max_observed_size)
         (finalized_snapshots obs @ filter (\<lambda>s. valid_format (rs_metadata s)) (oks reads)) (missing_zones obs))
     }
   }"

definition recover_candidate ::
  "'w replica_ops \<Rightarrow> (bytes \<Rightarrow> nat) \<Rightarrow> quorum_volume \<Rightarrow> nat option
     \<Rightarrow> ('w, protocol_error + recovery_candidate) state" where
  "recover_candidate ops crc vol expected = do {
     attempts \<leftarrow> join_all (observe_zone ops vol) [0..<qv_replicas vol];
     case keep_observations attempts of
       Inl e \<Rightarrow> State_Monad.return (Inl e)
     | Inr obs \<Rightarrow>
         if length obs < volume_quorum vol then State_Monad.return (Inl PE_NoQuorum)
         else if list_all is_missing obs then State_Monad.return (Inr Candidate_Absent)
         else let sizes = map observed_size obs;
                  max_observed_size = foldl max (hd sizes) (tl sizes);
                  committed_size = the (select_recovery_size sizes (qv_replicas vol))
              in if committed_size = 0 then recover_empty ops vol obs
                 else recover_nonempty ops crc vol expected committed_size max_observed_size obs
   }"

definition recover_for_seal ::
  "'w replica_ops \<Rightarrow> (bytes \<Rightarrow> nat) \<Rightarrow> quorum_volume \<Rightarrow> nat option
     \<Rightarrow> ('w, protocol_error + recovered_tail) state" where
  "recover_for_seal ops crc vol expected = do {
     r \<leftarrow> recover_candidate ops crc vol expected;
     State_Monad.return (and_then r (\<lambda>c. case c of
       Candidate_NonEmpty tail \<Rightarrow> Inr tail
     | _ \<Rightarrow> Inl (PE_RecoveryPrefixTooShort (case expected of Some k \<Rightarrow> k | None \<Rightarrow> 1) 0)))
   }"


section \<open>Seal enforcement\<close>

text \<open>\<open>enforce_witness\<close>: the loop body runs at most \<open>max_retries + 1\<close> times; the first argument
  counts the runs that are left.\<close>

fun enforce_witness ::
  "nat \<Rightarrow> 'w replica_ops \<Rightarrow> quorum_volume \<Rightarrow> nat \<Rightarrow> replica_snapshot option \<Rightarrow> bytes
     \<Rightarrow> ('w, protocol_error + bool) state" where
  "enforce_witness 0 ops vol z observed data = State_Monad.return (Inr False)"
| "enforce_witness (Suc left) ops vol z observed data =
     (let cfg = qv_config vol;
          again = do {
            o2 \<leftarrow> observe_with_retry ops cfg z;
            case o2 of
              Inl e \<Rightarrow> State_Monad.return (Inl (PE_Transport e))
            | Inr obs \<Rightarrow> enforce_witness left ops vol z obs data
          };
          seal = (\<lambda>token. do {
            (r, _) \<leftarrow> finalize_with_retry ops cfg z (max_retries cfg) token (int (length data));
            case r of
              Inr _ \<Rightarrow> State_Monad.return (Inr True)
            | Inl e \<Rightarrow>
                if te_code e = FailedPrecondition then again
                else State_Monad.return (if transient (te_code e) then Inr False else Inl (PE_Transport e))
          })
      in case observed of
           Some snap \<Rightarrow>
             if rs_bytes snap = data then
               (if rs_finalized snap then State_Monad.return (Inr True)
                else do {
                  t \<leftarrow> with_retry (max_retries cfg) (op_takeover ops z snap);
                  case t of
                    Inl _ \<Rightarrow> again
                  | Inr token \<Rightarrow> seal token
                })
             else do {
               t \<leftarrow> replace_with_retry ops cfg z (max_retries cfg) observed data (qv_metadata vol);
               case t of
                 Inr token \<Rightarrow> seal token
               | Inl e \<Rightarrow>
                   if te_code e = FailedPrecondition then again
                   else State_Monad.return (if transient (te_code e) then Inr False else Inl (PE_Transport e))
             }
         | None \<Rightarrow> do {
             t \<leftarrow> replace_with_retry ops cfg z (max_retries cfg) None data (qv_metadata vol);
             case t of
               Inr token \<Rightarrow> seal token
             | Inl e \<Rightarrow>
                 if te_code e = FailedPrecondition then again
                 else State_Monad.return (if transient (te_code e) then Inr False else Inl (PE_Transport e))
           })"

declare enforce_witness.simps(2) [simp del]

datatype seal_observation =
    Observed_Sealed
  | Observed_Read "transport_error + replica_snapshot"

text \<open>A copy that recovery read as sealed is confirmed by its metadata alone.\<close>

definition confirms_seal :: "recovered_tail \<Rightarrow> sealed_witness \<Rightarrow> replica_snapshot \<Rightarrow> bool" where
  "confirms_seal tail w cur \<longleftrightarrow>
     rs_generation cur = sw_generation w \<and> rs_finalized cur \<and> valid_format (rs_metadata cur)
   \<and> rs_persisted_size cur = int (length (cp_bytes (rt_canonical tail)))
   \<and> rs_crc32c cur = Some (rt_crc32c tail)"

definition observe_seal ::
  "'w replica_ops \<Rightarrow> quorum_volume \<Rightarrow> recovered_tail \<Rightarrow> nat \<Rightarrow> ('w, seal_observation) state" where
  "observe_seal ops vol tail z =
     (let read = do { r \<leftarrow> snapshot_with_retry ops (qv_config vol) z; State_Monad.return (Observed_Read r) }
      in case List.find (\<lambda>w. sw_zone w = z) (rt_sealed_witnesses tail) of
           None \<Rightarrow> read
         | Some w \<Rightarrow> do {
             st \<leftarrow> stat_with_retry ops (qv_config vol) z;
             case st of
               Inl _ \<Rightarrow> read
             | Inr cur \<Rightarrow> if confirms_seal tail w cur then State_Monad.return Observed_Sealed else read
           })"

text \<open>The loop that sorts the answers into sealed zones, copies to check and missing objects.\<close>

record seal_plan =
  sp_sealed :: nat
  sp_witnesses :: "replica_snapshot list"
  sp_missing :: "nat list"

fun plan_seal ::
  "'w replica_ops \<Rightarrow> quorum_volume \<Rightarrow> (nat \<times> seal_observation) list \<Rightarrow> seal_plan
     \<Rightarrow> ('w, protocol_error + seal_plan) state" where
  "plan_seal ops vol [] p = State_Monad.return (Inr p)"
| "plan_seal ops vol ((z, Observed_Sealed) # rest) p = plan_seal ops vol rest (p\<lparr>sp_sealed := sp_sealed p + 1\<rparr>)"
| "plan_seal ops vol ((z, Observed_Read (Inr s)) # rest) p =
     plan_seal ops vol rest
       (if valid_format (rs_metadata s) then p\<lparr>sp_witnesses := sp_witnesses p @ [s]\<rparr> else p)"
| "plan_seal ops vol ((z, Observed_Read (Inl e)) # rest) p =
     (if te_code e = NotFound then plan_seal ops vol rest (p\<lparr>sp_missing := sp_missing p @ [z]\<rparr>)
      else if te_code e = DataLoss then do {
        st \<leftarrow> stat_with_retry ops (qv_config vol) z;
        case st of
          Inr s \<Rightarrow> plan_seal ops vol rest
            (if valid_format (rs_metadata s) then p\<lparr>sp_witnesses := sp_witnesses p @ [s]\<rparr> else p)
        | Inl e2 \<Rightarrow>
            if te_code e2 = NotFound then plan_seal ops vol rest (p\<lparr>sp_missing := sp_missing p @ [z]\<rparr>)
            else if transient (te_code e2) then plan_seal ops vol rest p
            else State_Monad.return (Inl (PE_Transport e2))
      }
      else if transient (te_code e) then plan_seal ops vol rest p
      else State_Monad.return (Inl (PE_Transport e)))"

definition seal_key :: "bytes \<Rightarrow> replica_snapshot \<Rightarrow> nat" where
  "seal_key data s =
     (let shared = length (takeWhile (\<lambda>(a, b). a = b) (zip (rs_bytes s) data))
      in (if shared = length data \<and> length (rs_bytes s) = length data then 1 else 0) * length data + shared)"

fun enforce_witnesses ::
  "'w replica_ops \<Rightarrow> quorum_volume \<Rightarrow> bytes \<Rightarrow> (nat \<times> replica_snapshot option) list \<Rightarrow> nat
     \<Rightarrow> ('w, protocol_error + nat) state" where
  "enforce_witnesses ops vol data [] sealed = State_Monad.return (Inr sealed)"
| "enforce_witnesses ops vol data ((z, observed) # rest) sealed = do {
     r \<leftarrow> enforce_witness (Suc (max_retries (qv_config vol))) ops vol z observed data;
     case r of
       Inl e \<Rightarrow> State_Monad.return (Inl e)
     | Inr ok \<Rightarrow> enforce_witnesses ops vol data rest (if ok then sealed + 1 else sealed)
   }"

definition enforce_seal ::
  "'w replica_ops \<Rightarrow> quorum_volume \<Rightarrow> recovered_tail \<Rightarrow> ('w, protocol_error + unit) state" where
  "enforce_seal ops vol tail = do {
     let data = cp_bytes (rt_canonical tail);
     let zones = [0..<qv_replicas vol];
     reads \<leftarrow> join_all (observe_seal ops vol tail) zones;
     plan \<leftarrow> plan_seal ops vol (zip zones reads) \<lparr>sp_sealed = 0, sp_witnesses = [], sp_missing = []\<rparr>;
     case plan of
       Inl e \<Rightarrow> State_Monad.return (Inl e)
     | Inr p \<Rightarrow> do {
         r \<leftarrow> enforce_witnesses ops vol data
           (map (\<lambda>s. (rs_zone s, Some s)) (sort_key (seal_key data) (sp_witnesses p))
            @ map (\<lambda>z. (z, None)) (sp_missing p)) (sp_sealed p);
         State_Monad.return (and_then r (\<lambda>sealed.
           if volume_quorum vol \<le> sealed then Inr () else Inl PE_NoQuorum))
       }
   }"


section \<open>Successes of joined calls\<close>

lemma oks_simps [simp]:
  "oks [] = []" "oks (Inl e # rs) = oks rs" "oks (Inr x # rs) = x # oks rs"
  by (simp_all add: oks_def map_filter_simps)

lemma keep_observations_oks: "keep_observations rs = Inr xs \<Longrightarrow> xs = oks rs"
  by (induction rs arbitrary: xs rule: keep_observations.induct)
     (auto simp: and_then_Inr_iff split: if_splits)

text \<open>Successes labelled with the element they were computed for appear in the order of the elements.\<close>

lemma oks_subseq:
  assumes "list_all2 (\<lambda>x r. \<forall>y. r = Inr y \<longrightarrow> g y = x \<and> P y) xs rs"
  shows "subseq (map g (oks rs)) xs \<and> (\<forall>y \<in> set (oks rs). P y)"
  using assms
proof (induction rule: list_all2_induct)
  case (Cons x xs r rs)
  then show ?case by (cases r) auto
qed simp

lemma subseq_distinct_subset: "subseq xs ys \<Longrightarrow> distinct ys \<Longrightarrow> distinct xs \<and> set xs \<subseteq> set ys"
proof (induction rule: list_emb.induct)
  case (list_emb_Cons2 x y xs ys)
  then show ?case by auto
qed auto

text \<open>Of the zones in a set, only those that did not answer are missing from the answers.\<close>

lemma card_answers:
  assumes "distinct zs" "set zs \<subseteq> {..<n}" "H \<subseteq> {..<n :: nat}"
  shows "card H \<le> length (filter (\<lambda>z. z \<in> H) zs) + (n - length zs)"
proof -
  have "H = (H \<inter> set zs) \<union> (H - set zs)" by blast
  then have "card H \<le> card (H \<inter> set zs) + card (H - set zs)" by (metis card_Un_le)
  moreover have "card (H \<inter> set zs) = length (filter (\<lambda>z. z \<in> H) zs)"
    using assms(1) by (metis Int_commute distinct_card distinct_filter inter_set_filter Collect_mem_eq set_filter Int_def)
  moreover have "card (H - set zs) \<le> card ({..<n} - set zs)"
    using assms(3) by (intro card_mono) auto
  moreover have "card ({..<n} - set zs) = n - length zs"
    using assms(1,2) by (simp add: card_Diff_subset distinct_card)
  ultimately show ?thesis by simp
qed


section \<open>Selecting the tail\<close>

lemma record_ends_take: "take k (record_ends fs) = record_ends (take k fs)"
proof (induction fs arbitrary: k)
  case (Cons f fs)
  then show ?case by (cases k) (auto simp: take_map)
qed simp

definition canonical_records :: "canonical_prefix \<Rightarrow> record_frame list \<Rightarrow> bool" where
  "canonical_records cp fs \<longleftrightarrow> encode_all fs = Inr (cp_bytes cp) \<and> cp_record_ends cp = record_ends fs"

lemma take_records_bytes:
  "take (last_or_zero (record_ends (take k (frames_of s)))) (rs_bytes s)
     = concat (map frame_bytes (take k (frames_of s)))
   \<and> encode_all (take k (frames_of s)) = Inr (concat (map frame_bytes (take k (frames_of s))))"
proof -
  let ?fs = "frames_of s"
  have "prefix (concat (map frame_bytes (take k ?fs))) (concat (map frame_bytes ?fs))"
    by (rule concat_map_prefix) (rule take_is_prefix)
  then have "prefix (concat (map frame_bytes (take k ?fs))) (rs_bytes s)"
    using frames_of_bytes [of s] prefix_order.order_trans by blast
  moreover have "encode_all (take k ?fs) = Inr (concat (map frame_bytes (take k ?fs)))"
    using frames_of_bytes [of s] encode_all_take by blast
  ultimately show ?thesis by (simp only: record_ends_last prefix_take_iff)
qed

lemma select_tail_keeps:
  assumes "0 < volume_quorum vol" "encode_all cs = Inr c" "cs \<noteq> []" "length c \<le> bound"
    and "expected = None \<or> (\<exists>k. expected = Some k \<and> length cs \<le> k)"
    and "length recs + length missing
           < volume_quorum vol + length (filter (\<lambda>s. prefix c (rs_bytes s)) recs)"
    and "select_tail crc vol expected bound max_observed recs missing = Inr cand"
  shows "\<exists>tail fs. cand = Candidate_NonEmpty tail \<and> canonical_records (rt_canonical tail) fs \<and> prefix cs fs
    \<and> rt_crc32c tail = crc (cp_bytes (rt_canonical tail))"
proof -
  let ?cut = "\<lambda>s. s\<lparr>rs_bytes := take (min (length (rs_bytes s)) bound) (rs_bytes s)\<rparr>"
  let ?snaps = "map ?cut recs @ map (missing_placeholder crc vol) missing"
  obtain sel where sel: "select_canonical_quorum ?snaps (volume_quorum vol) = Inr sel"
    using assms(7) by (auto simp: select_tail_def Let_def and_then_Inr_iff)
  define s where "s = ?snaps ! cs_witness sel"
  have cut: "prefix c (rs_bytes (?cut r)) \<longleftrightarrow> prefix c (rs_bytes r)" for r
    using assms(4) by (auto simp: prefix_take_iff min_def)
  have "length (filter (\<lambda>s. prefix c (rs_bytes s)) recs) \<le> length (filter (\<lambda>s. prefix c (rs_bytes s)) ?snaps)"
    by (simp only: filter_append filter_map o_def cut length_append length_map le_add1)
  then have pre: "prefix cs (frames_of s)"
    using canonical_selection_keeps [OF assms(1) sel assms(2)] assms(6) by (simp add: s_def)
  have ends: "cs_record_ends sel = record_ends (frames_of s)"
    using select_canonical_Inr [OF assms(1) sel] by (simp add: s_def)
  define k where "k = (case expected of Some k \<Rightarrow> k | None \<Rightarrow> length (frames_of s))"
  have k: "prefix cs (take k (frames_of s))"
    using pre assms(5) prefix_length_le [OF pre]
    by (auto simp: k_def prefix_def)
  then have ne: "record_ends (take k (frames_of s)) \<noteq> []"
    using assms(3) by (metis length_0_conv length_record_ends prefix_bot.extremum_uniqueI)
  have "\<exists>d w. cand = Candidate_NonEmpty
      \<lparr>rt_canonical = \<lparr>cp_bytes = take (last_or_zero (record_ends (take k (frames_of s)))) (rs_bytes s),
         cp_record_ends = record_ends (take k (frames_of s))\<rparr>,
       rt_crc32c = crc (take (last_or_zero (record_ends (take k (frames_of s)))) (rs_bytes s)),
       rt_had_discarded_suffix = d, rt_sealed_witnesses = w\<rparr>"
    using assms(7) ne sel
    by (cases expected)
      (auto simp: select_tail_def Let_def and_then_Inr_iff ends k_def record_ends_take last_or_zero_def s_def
        split: if_splits)
  then obtain d w where cand: "cand = Candidate_NonEmpty
      \<lparr>rt_canonical = \<lparr>cp_bytes = take (last_or_zero (record_ends (take k (frames_of s)))) (rs_bytes s),
         cp_record_ends = record_ends (take k (frames_of s))\<rparr>,
       rt_crc32c = crc (take (last_or_zero (record_ends (take k (frames_of s)))) (rs_bytes s)),
       rt_had_discarded_suffix = d, rt_sealed_witnesses = w\<rparr>" by blast
  show ?thesis unfolding cand
    using take_records_bytes [of k s] k by (auto simp: canonical_records_def)
qed


section \<open>Recovery under the replica contract\<close>

fun obs_zone :: "observation \<Rightarrow> nat" where
  "obs_zone (Live token) = tk_zone token"
| "obs_zone (Finalized snap) = rs_zone snap"
| "obs_zone (Missing z) = z"

lemma observations_Cons [simp]:
  "live_tokens [] = []" "finalized_snapshots [] = []" "missing_zones [] = []"
  "live_tokens (x # obs) = (case x of Live t \<Rightarrow> [t] | _ \<Rightarrow> []) @ live_tokens obs"
  "finalized_snapshots (x # obs) = (case x of Finalized s \<Rightarrow> [s] | _ \<Rightarrow> []) @ finalized_snapshots obs"
  "missing_zones (x # obs) = (case x of Missing z \<Rightarrow> [z] | _ \<Rightarrow> []) @ missing_zones obs"
  by (simp_all add: live_tokens_def finalized_snapshots_def missing_zones_def map_filter_simps
      split: observation.splits)

lemma observations_partition:
  "set (map rs_zone (finalized_snapshots obs) @ map tk_zone (live_tokens obs) @ missing_zones obs)
     = set (map obs_zone obs)
   \<and> (distinct (map obs_zone obs) \<longrightarrow>
        distinct (map rs_zone (finalized_snapshots obs) @ map tk_zone (live_tokens obs) @ missing_zones obs))"
proof (induction obs)
  case (Cons x obs)
  then show ?case by (cases x) auto
qed simp

lemma observations_mem:
  "t \<in> set (live_tokens obs) \<longleftrightarrow> Live t \<in> set obs"
  "s \<in> set (finalized_snapshots obs) \<longleftrightarrow> Finalized s \<in> set obs"
  "z \<in> set (missing_zones obs) \<longleftrightarrow> Missing z \<in> set obs"
  by (induction obs) (auto split: observation.splits)

lemma distinct_replace_middle:
  "distinct (xs @ ys @ zs) \<Longrightarrow> distinct ys' \<Longrightarrow> set ys' \<subseteq> set ys \<Longrightarrow>
     distinct (xs @ ys' @ zs) \<and> set (xs @ ys' @ zs) \<subseteq> set (xs @ ys @ zs)"
  by auto

lemma distinct_bounded_length: "distinct zs \<Longrightarrow> set zs \<subseteq> {..<n} \<Longrightarrow> length zs \<le> (n :: nat)"
  by (metis card_lessThan card_mono distinct_card finite_lessThan)

context committed_replicas
begin

lemma join_all_last:
  assumes "\<And>x y. keeps (\<lambda>w. holds w y) (f x)"
    and "run_state (join_all f xs) w = (rs, w')"
  shows "list_all2 (\<lambda>x r. \<exists>w1 w2. run_state (f x) w1 = (r, w2) \<and> (\<forall>y. holds w y \<longrightarrow> holds w1 y)) xs rs
    \<and> (\<forall>y. holds w y \<longrightarrow> holds w' y)"
  using assms(2)
proof (induction xs arbitrary: w rs)
  case (Cons x xs)
  obtain r w1 where r: "run_state (f x) w = (r, w1)" by fastforce
  obtain rs1 w2 where rs1: "run_state (join_all f xs) w1 = (rs1, w2)" by fastforce
  have eq: "rs = r # rs1" "w' = w2" using Cons.prems r rs1 by auto
  have k: "\<forall>y. holds w y \<longrightarrow> holds w1 y" using keepsD [OF assms(1) r] by blast
  have "list_all2 (\<lambda>x r. \<exists>v1 v2. run_state (f x) v1 = (r, v2) \<and> (\<forall>y. holds w1 y \<longrightarrow> holds v1 y)) xs rs1
      \<and> (\<forall>y. holds w1 y \<longrightarrow> holds w2 y)"
    using Cons.IH [of w1 rs1] rs1 eq(2) by simp
  then have "list_all2 (\<lambda>x r. \<exists>v1 v2. run_state (f x) v1 = (r, v2) \<and> (\<forall>y. holds w y \<longrightarrow> holds v1 y)) xs rs1"
      "\<forall>y. holds w y \<longrightarrow> holds w2 y"
    using k by (auto elim!: list_all2_mono)
  with r eq show ?case by auto
qed auto

lemma takeover_current_keeps [intro!]: "keeps (\<lambda>w. holds w y) (takeover_current ops z)"
  by (auto simp: takeover_current_def)

lemma takeover_current_Inr:
  assumes "z < n" "run_state (takeover_current ops z) w = (Inr t, w')"
  shows "tk_zone t = z \<and> (holds w z \<longrightarrow> int (length c) \<le> tk_persisted_size t)"
proof -
  obtain obs w1 where st: "run_state (op_stat ops z) w = (Inr obs, w1)"
      and tk: "run_state (op_takeover ops z obs) w1 = (Inr t, w')"
    using assms(2) by (auto simp: takeover_current_def split: prod.splits sum.splits if_splits)
  show ?thesis using takeover_tail [OF assms(1) tk] stat_keeps [of w z z] st by simp
qed

lemma takeover_current_absent:
  assumes "z < n" "run_state (takeover_current ops z) w = (Inl e, w')" "te_code e = NotFound"
  shows "te_zone e = z \<and> \<not> holds w z"
proof -
  have "run_state (op_stat ops z) w = (Inl e, w')"
    using assms(2,3) by (auto simp: takeover_current_def split: prod.splits sum.splits if_splits)
  then show ?thesis using absent_zone assms(1,3) by blast
qed

lemma observe_zone_keeps [intro!]: "keeps (\<lambda>w. holds w y) (observe_zone ops vol z)"
  by (auto simp: observe_zone_def snapshot_with_retry_def)

lemma observe_zone_Inr:
  assumes "z < n" "run_state (observe_zone ops vol z) w = (Inr x, w')"
  shows "obs_zone x = z
    \<and> (holds w z \<longrightarrow> \<not> is_missing x \<and> int (length c) \<le> observed_size x
         \<and> (\<forall>s. x = Finalized s \<longrightarrow> prefix c (rs_bytes s)))"
proof -
  obtain r w1 where r: "run_state (with_retry (max_retries (qv_config vol)) (takeover_current ops z)) w = (r, w1)"
    by fastforce
  obtain w0 where w0: "run_state (takeover_current ops z) w0 = (r, w1)" "\<forall>y. holds w y \<longrightarrow> holds w0 y"
    using with_retry_last [OF takeover_current_keeps r] by blast
  have k1: "\<forall>y. holds w y \<longrightarrow> holds w1 y" using w0 keepsD [OF takeover_current_keeps w0(1)] by blast
  show ?thesis
  proof (cases r)
    case (Inr t)
    then have "x = Live t" using assms(2) r by (simp add: observe_zone_def)
    then show ?thesis using takeover_current_Inr [OF assms(1)] w0 Inr by simp
  next
    case (Inl e)
    show ?thesis
    proof (cases "te_code e = FailedPrecondition")
      case True
      then obtain s where s: "run_state (with_retry (max_retries (qv_config vol)) (op_snapshot ops z)) w1 = (Inr s, w')"
          and x: "x = Finalized s"
        using assms(2) r Inl
        by (auto simp: observe_zone_def snapshot_with_retry_def split: prod.splits sum.splits if_splits)
      obtain w2 where "run_state (op_snapshot ops z) w2 = (Inr s, w')" "\<forall>y. holds w1 y \<longrightarrow> holds w2 y"
        using with_retry_last [OF op_keeps(2) s] by blast
      then show ?thesis using snapshot_reads [OF assms(1)] k1 x prefix_length_le by fastforce
    next
      case False
      then have "te_code e = NotFound" "x = Missing (te_zone e)"
        using assms(2) r Inl by (auto simp: observe_zone_def split: if_splits)
      then show ?thesis using takeover_current_absent [OF assms(1)] w0 Inl by auto
    qed
  qed
qed

text \<open>What the first round of calls establishes about its answers.\<close>

lemma observations_good:
  assumes "qv_replicas vol = n" "run_state (join_all (observe_zone ops vol) [0..<n]) w = (attempts, w1)"
    and "keep_observations attempts = Inr obs"
  shows "distinct (map obs_zone obs) \<and> set (map obs_zone obs) \<subseteq> {..<n}
    \<and> (\<forall>x \<in> set obs. holds w (obs_zone x) \<longrightarrow> \<not> is_missing x \<and> int (length c) \<le> observed_size x
         \<and> (\<forall>s. x = Finalized s \<longrightarrow> prefix c (rs_bytes s)))
    \<and> (\<forall>y. holds w y \<longrightarrow> holds w1 y)"
proof -
  note last = join_all_last [OF observe_zone_keeps assms(2)]
  have "list_all2 (\<lambda>z r. \<forall>x. r = Inr x \<longrightarrow> obs_zone x = z
      \<and> (holds w (obs_zone x) \<longrightarrow> \<not> is_missing x \<and> int (length c) \<le> observed_size x
           \<and> (\<forall>s. x = Finalized s \<longrightarrow> prefix c (rs_bytes s)))) [0..<n] attempts"
    using last [THEN conjunct1]
  proof (rule list.rel_mono_strong, goal_cases)
    case (1 z r)
    then have "z < n" by simp
    with 1(3) show ?case using observe_zone_Inr [OF \<open>z < n\<close>] by blast
  qed
  note sub = oks_subseq [OF this]
  have obs: "obs = oks attempts" using keep_observations_oks assms(3) by blast
  have "distinct (map obs_zone obs) \<and> set (map obs_zone obs) \<subseteq> set [0..<n]"
    using subseq_distinct_subset sub unfolding obs by fastforce
  then show ?thesis using sub last unfolding obs by (auto simp: atLeast0LessThan)
qed

lemma committed_size_covers:
  assumes "0 < n" "distinct (map obs_zone obs)" "set (map obs_zone obs) \<subseteq> {..<n}"
    and "\<forall>x \<in> set obs. holds w (obs_zone x) \<longrightarrow> int (length c) \<le> observed_size x"
    and "majority n \<le> card {z. z < n \<and> holds w z}" "majority n \<le> length obs"
  shows "\<exists>v. select_recovery_size (map observed_size obs) n = Some v \<and> int (length c) \<le> v"
proof -
  let ?H = "{z. z < n \<and> holds w z}"
  have len: "length obs \<le> n" using distinct_bounded_length [OF assms(2,3)] by simp
  have "length (filter (\<lambda>z. z \<in> ?H) (map obs_zone obs))
      \<le> length (filter (\<lambda>x. int (length c) \<le> x) (map observed_size obs))"
    using assms(4) by (auto simp: filter_map intro!: length_filter_mono)
  moreover have "card ?H \<le> length (filter (\<lambda>z. z \<in> ?H) (map obs_zone obs)) + (n - length obs)"
    using card_answers [OF assms(2,3), of ?H] by auto
  ultimately have "majority n \<le> (n - length obs)
      + length (filter (\<lambda>x. int (length c) \<le> x) (map observed_size obs))"
    using assms(5) by linarith
  then show ?thesis
    using select_recovery_size_spec [of n "map observed_size obs"] assms(1,6) len by auto
qed

lemma finalize_frozen_keeps [intro!]:
  "keeps (\<lambda>w. holds w y) (do { (r, _) \<leftarrow> finalize_with_retry ops cfg z k t off; State_Monad.return r })"
  by auto

lemma frozen_zones_subseq:
  assumes "\<forall>t \<in> set ts. tk_zone t < n"
    and "run_state (join_all (\<lambda>token. do {
         (r, _) \<leftarrow> finalize_with_retry ops cfg (tk_zone token) k token (tk_persisted_size token);
         State_Monad.return r }) ts) w = (frozen, w')"
  shows "subseq (map rs_zone (oks frozen)) (map tk_zone ts) \<and> (\<forall>y. holds w y \<longrightarrow> holds w' y)"
proof -
  note last = join_all_last [OF finalize_frozen_keeps assms(2)]
  have "list_all2 (\<lambda>t r. \<forall>s. r = Inr s \<longrightarrow> rs_zone s = tk_zone t \<and> True) ts frozen"
    using last [THEN conjunct1]
  proof (rule list.rel_mono_strong, goal_cases)
    case (1 t r)
    then obtain w1 w2 where b: "run_state (do { (r, _) \<leftarrow> finalize_with_retry ops cfg (tk_zone t) k t
        (tk_persisted_size t); State_Monad.return r }) w1 = (r, w2)" by blast
    obtain r1 t1 w3 where
      a: "run_state (finalize_with_retry ops cfg (tk_zone t) k t (tk_persisted_size t)) w1 = ((r1, t1), w3)"
      by (metis surj_pair)
    then have "r = r1" using b by simp
    then show ?case using finalize_with_retry_zone [of "tk_zone t"] assms(1) 1(1) a by auto
  qed
  then have "list_all2 (\<lambda>z r. \<forall>s. r = Inr s \<longrightarrow> rs_zone s = z \<and> True) (map tk_zone ts) frozen"
    by (simp add: list_all2_map1)
  from oks_subseq [OF this] last show ?thesis by blast
qed

lemma reads_subseq:
  assumes "set zs \<subseteq> {..<n}" "run_state (join_all (snapshot_with_retry ops cfg) zs) w = (reads, w')"
  shows "subseq (map rs_zone (oks reads)) zs
    \<and> (\<forall>s \<in> set (oks reads). holds w (rs_zone s) \<longrightarrow> prefix c (rs_bytes s))"
proof -
  have keep: "keeps (\<lambda>w. holds w y) (snapshot_with_retry ops cfg z)" for y z
    by (auto simp: snapshot_with_retry_def)
  have "list_all2 (\<lambda>z r. \<forall>s. r = Inr s \<longrightarrow> rs_zone s = z
      \<and> (holds w (rs_zone s) \<longrightarrow> prefix c (rs_bytes s))) zs reads"
    using join_all_last [OF keep assms(2), THEN conjunct1]
  proof (rule list.rel_mono_strong, goal_cases)
    case (1 z r)
    then obtain w1 w2 where r: "run_state (with_retry (max_retries cfg) (op_snapshot ops z)) w1 = (r, w2)"
        "\<forall>y. holds w y \<longrightarrow> holds w1 y" by (auto simp: snapshot_with_retry_def)
    moreover obtain w3 where "run_state (op_snapshot ops z) w3 = (r, w2)" "\<forall>y. holds w1 y \<longrightarrow> holds w3 y"
      using with_retry_last [OF op_keeps(2) r(1)] by blast
    moreover have "z < n" using 1(1) assms(1) by auto
    ultimately show ?case using snapshot_reads [of z w3 _ w2] by auto
  qed
  from oks_subseq [OF this] show ?thesis .
qed

text \<open>The frozen copies and placeholders name distinct zones, and the copies of holders carry the prefix.\<close>

lemma enough_holders:
  assumes zs: "distinct (map rs_zone recs @ missing)" "set (map rs_zone recs @ missing) \<subseteq> {..<n}"
    and good: "\<forall>s \<in> set recs. rs_zone s \<in> H \<longrightarrow> prefix c (rs_bytes s)" "set missing \<inter> H = {}"
    and quorum: "H \<subseteq> {..<n}" "majority n \<le> card H"
  shows "length recs + length missing < majority n + length (filter (\<lambda>s. prefix c (rs_bytes s)) recs)"
proof -
  have "filter (\<lambda>z. z \<in> H) missing = []" using good(2) by (auto simp: filter_empty_conv)
  then have "length (filter (\<lambda>z. z \<in> H) (map rs_zone recs @ missing))
      \<le> length (filter (\<lambda>s. prefix c (rs_bytes s)) recs)"
    using good(1) by (auto simp: filter_map intro!: length_filter_mono)
  moreover have "card H \<le> length (filter (\<lambda>z. z \<in> H) (map rs_zone recs @ missing))
      + (n - length (map rs_zone recs @ missing))"
    by (rule card_answers [OF zs quorum(1)])
  moreover have "length recs + length missing \<le> n" using distinct_bounded_length [OF zs] by simp
  moreover have "n < 2 * majority n" by (simp add: majority_def)
  ultimately show ?thesis using quorum(2) by simp
qed

lemma recover_nonempty_keeps:
  assumes vol: "qv_replicas vol = n" "0 < n"
    and obs: "distinct (map obs_zone obs)" "set (map obs_zone obs) \<subseteq> {..<n}"
      "\<forall>x \<in> set obs. obs_zone x \<in> H \<longrightarrow> \<not> is_missing x \<and> (\<forall>s. x = Finalized s \<longrightarrow> prefix c (rs_bytes s))"
    and quorum: "H \<subseteq> {..<n}" "majority n \<le> card H" "\<forall>z \<in> H. holds w z"
    and cs: "encode_all cs = Inr c" "cs \<noteq> []" "int (length c) \<le> bound"
      "expected = None \<or> (\<exists>k. expected = Some k \<and> length cs \<le> k)"
    and run: "run_state (recover_nonempty ops crc vol expected bound max_observed obs) w = (Inr cand, w')"
  shows "\<exists>tail fs. cand = Candidate_NonEmpty tail \<and> canonical_records (rt_canonical tail) fs \<and> prefix cs fs
    \<and> rt_crc32c tail = crc (cp_bytes (rt_canonical tail))"
proof -
  let ?ts = "live_tokens obs" and ?fin = "finalized_snapshots obs" and ?miss = "missing_zones obs"
  let ?cfg = "qv_config vol"
  obtain frozen w1 where frozen: "run_state (join_all (\<lambda>token. do {
         (r, _) \<leftarrow> finalize_with_retry ops ?cfg (tk_zone token) (max_retries ?cfg) token (tk_persisted_size token);
         State_Monad.return r }) ?ts) w = (frozen, w1)" by fastforce
  obtain reads where reads:
      "run_state (join_all (snapshot_with_retry ops ?cfg) (map rs_zone (oks frozen))) w1 = (reads, w')"
    and tail: "select_tail crc vol expected (nat bound) (nat max_observed)
       (?fin @ filter (\<lambda>s. valid_format (rs_metadata s)) (oks reads)) ?miss = Inr cand"
    using run frozen by (auto simp: recover_nonempty_def Let_def split: if_splits prod.splits)
  let ?recs = "?fin @ filter (\<lambda>s. valid_format (rs_metadata s)) (oks reads)"
  have part: "distinct (map rs_zone ?fin @ map tk_zone ?ts @ ?miss)"
      "set (map rs_zone ?fin @ map tk_zone ?ts @ ?miss) \<subseteq> {..<n}"
    using observations_partition [of obs] obs(1,2) by simp_all
  then have live: "distinct (map tk_zone ?ts)" "set (map tk_zone ?ts) \<subseteq> {..<n}" by simp_all
  then have "\<forall>t \<in> set ?ts. tk_zone t < n" by auto
  note fz = frozen_zones_subseq [OF this frozen]
  have fzs: "distinct (map rs_zone (oks frozen))" "set (map rs_zone (oks frozen)) \<subseteq> set (map tk_zone ?ts)"
    using subseq_distinct_subset [OF fz [THEN conjunct1] live(1)] by blast+
  then have "set (map rs_zone (oks frozen)) \<subseteq> {..<n}" using live by blast
  note rd = reads_subseq [OF this reads]
  have rds: "distinct (map rs_zone (oks reads))" "set (map rs_zone (oks reads)) \<subseteq> set (map tk_zone ?ts)"
    using subseq_distinct_subset [OF rd [THEN conjunct1] fzs(1)] fzs(2) by blast+
  then have "distinct (map rs_zone (filter (\<lambda>s. valid_format (rs_metadata s)) (oks reads)))"
      "set (map rs_zone (filter (\<lambda>s. valid_format (rs_metadata s)) (oks reads))) \<subseteq> set (map tk_zone ?ts)"
    by (auto simp: distinct_map_filter)
  then have zs: "distinct (map rs_zone ?recs @ ?miss)" "set (map rs_zone ?recs @ ?miss) \<subseteq> {..<n}"
    using distinct_replace_middle [OF part(1)] part(2) by (simp_all only: map_append append_assoc, blast+)
  have "\<forall>s \<in> set ?recs. rs_zone s \<in> H \<longrightarrow> prefix c (rs_bytes s)"
    using obs(3) rd fz quorum(3) by (auto simp: observations_mem)
  moreover have "set ?miss \<inter> H = {}"
    using obs(3) by (fastforce simp: observations_mem)
  ultimately have "length ?recs + length ?miss
      < volume_quorum vol + length (filter (\<lambda>s. prefix c (rs_bytes s)) ?recs)"
    using enough_holders [OF zs _ _ quorum(1,2)] vol by (simp only: volume_quorum_def)
  then show ?thesis
    using select_tail_keeps [OF _ cs(1,2) _ cs(4) _ tail] vol cs(3) by (simp add: volume_quorum_def majority_def)
qed

lemma recover_candidate_keeps:
  assumes vol: "qv_replicas vol = n" "0 < n"
    and cs: "encode_all cs = Inr c" "cs \<noteq> []" "expected = None \<or> (\<exists>k. expected = Some k \<and> length cs \<le> k)"
    and quorum: "majority n \<le> card {z. z < n \<and> holds w z}"
    and run: "run_state (recover_candidate ops crc vol expected) w = (Inr cand, w')"
  shows "\<exists>tail fs. cand = Candidate_NonEmpty tail \<and> canonical_records (rt_canonical tail) fs \<and> prefix cs fs
    \<and> rt_crc32c tail = crc (cp_bytes (rt_canonical tail))"
proof -
  obtain attempts w1 where att: "run_state (join_all (observe_zone ops vol) [0..<n]) w = (attempts, w1)"
    by fastforce
  then obtain obs where keep: "keep_observations attempts = Inr obs" and enough: "majority n \<le> length obs"
    using run vol by (auto simp: recover_candidate_def volume_quorum_def split: sum.splits if_splits)
  note good = observations_good [OF vol(1) att keep]
  obtain v where v: "select_recovery_size (map observed_size obs) n = Some v" "int (length c) \<le> v"
    using committed_size_covers [of obs w] vol(2) good quorum enough by blast
  have "c \<noteq> []" using cs(2) encode_all_concat [OF cs(1)] length_frame_bytes [of "hd cs"]
    by (cases cs) (auto simp: HEADER_LEN_def)
  then have "v \<noteq> 0" using v(2) by auto
  have H: "holds w1 z" if "holds w z" for z using good that by blast
  have some: "\<not> list_all is_missing obs"
  proof
    assume all: "list_all is_missing obs"
    then have "observed_size x = 0" if "x \<in> set obs" for x
      using that by (cases x) (auto simp: list_all_iff)
    then have "v = 0" using v(1) select_recovery_size_spec [of n "map observed_size obs"] vol(2) enough
      distinct_bounded_length [of "map obs_zone obs" n] good by auto
    then show False using \<open>v \<noteq> 0\<close> by simp
  qed
  then obtain m where ne: "run_state (recover_nonempty ops crc vol expected v m obs) w1 = (Inr cand, w')"
    using run att keep enough v(1) \<open>v \<noteq> 0\<close> vol
    by (auto simp: recover_candidate_def volume_quorum_def Let_def split: if_splits)
  show ?thesis
    by (rule recover_nonempty_keeps [OF vol _ _ _ _ quorum _ cs(1,2) v(2) cs(3) ne]) (use good H in auto)
qed

end


section \<open>Properties\<close>

text \<open>
  C5. Committed records survive recovery.  Let the replicas behave as the
  contract says, and let a majority of the zones hold the encoding of some
  records when recovery starts.  If recovery then returns a candidate at all,
  it is a non-empty tail: its bytes encode a record sequence that starts with
  those records, its record ends are those of that sequence and its checksum is
  that of its bytes.  It is never an absent or empty segment, whatever the
  other zones answer and however often the calls are retried.
\<close>

theorem recovery_keeps_committed:
  assumes "committed_replicas ops n c holds" "qv_replicas vol = n" "0 < n"
    and "encode_all cs = Inr c" "cs \<noteq> []"
    and "expected = None \<or> (\<exists>k. expected = Some k \<and> length cs \<le> k)"
    and "majority n \<le> card {z. z < n \<and> holds w z}"
    and "run_state (recover_candidate ops crc vol expected) w = (Inr cand, w')"
  shows "\<exists>tail fs. cand = Candidate_NonEmpty tail \<and> canonical_records (rt_canonical tail) fs \<and> prefix cs fs
    \<and> rt_crc32c tail = crc (cp_bytes (rt_canonical tail))"
  using committed_replicas.recover_candidate_keeps [OF assms(1-8)] .

definition demo_volume :: quorum_volume where
  "demo_volume = \<lparr>qv_replicas = 1, qv_config = \<lparr>max_retries = 1, retry_base = 0\<rparr>, qv_metadata = protocol_metadata\<rparr>"

theorem recovery_keeps_committed_witness:
  "\<exists>cand w'. run_state (recover_candidate (local_ops (\<lambda>_. 0) ''seg'') (\<lambda>_. 0) demo_volume None) 
        (demo_world\<lparr>fs_meta := [''seg'' \<mapsto> \<lparr>om_generation = 1, om_metageneration = 1, om_finalized = False,
       om_session = 1, om_metadata = protocol_metadata\<rparr>]\<rparr>) = (Inr cand, w')
     \<and> (\<exists>tail fs. cand = Candidate_NonEmpty tail \<and> canonical_records (rt_canonical tail) fs
          \<and> prefix [\<lparr>payload = [7]\<rparr>] fs)"
proof -
  let ?w = "demo_world\<lparr>fs_meta := [''seg'' \<mapsto> \<lparr>om_generation = 1, om_metageneration = 1, om_finalized = False,
       om_session = 1, om_metadata = protocol_metadata\<rparr>]\<rparr>"
  have "case run_state (recover_candidate (local_ops (\<lambda>_. 0) ''seg'') (\<lambda>_. 0) demo_volume None) ?w of
      (Inl _, _) \<Rightarrow> False | (Inr cand, _) \<Rightarrow> True" by code_simp
  then obtain cand w' where r:
      "run_state (recover_candidate (local_ops (\<lambda>_. 0) ''seg'') (\<lambda>_. 0) demo_volume None) ?w = (Inr cand, w')"
    by (auto split: sum.splits prod.splits)
  have e: "encode_all [\<lparr>payload = [7]\<rparr>] = Inr [0, 0, 0, 5, 7]"
    by (simp add: encode_Inr_iff and_then_Inr_iff MAX_PAYLOAD_BYTES_def u32_max_def HEADER_LEN_def be_bytes_4)
  have "{z. z < 1 \<and> local_holds ''seg'' [0, 0, 0, 5, 7] ?w z} = {0}"
    by (auto simp: local_holds_def demo_world_def)
  then have h: "majority 1 \<le> card {z. z < 1 \<and> local_holds ''seg'' [0, 0, 0, 5, 7] ?w z}"
    by (simp add: majority_def)
  have v: "qv_replicas demo_volume = 1" by (simp add: demo_volume_def)
  have x: "(0 :: nat) < 1" "[\<lparr>payload = [7]\<rparr>] \<noteq> []"
      "(None :: nat option) = None \<or> (\<exists>k. None = Some k \<and> length [\<lparr>payload = [7]\<rparr>] \<le> k)" by simp_all
  from recovery_keeps_committed [OF local_committed.committed_replicas_axioms v x(1) e x(2,3) h r] r
  show ?thesis by blast
qed

end
