(* ===== verification/Manifest_Record.thy ===== *)
theory Manifest_Record
  imports Text Commit_Tracker
begin

text \<open>
  The contents of the manifest register, \<open>ManifestRecord\<close> of \<open>manifest.rs\<close>: the
  record, its encoding as a string map, decoding, structural validation, the
  byte budget of the sealed-segment directory and segment ids.  A \<open>u64\<close> is a
  natural number together with the range condition \<open>wf_record\<close>; formatting and
  parsing are those of \<open>Text\<close>.
\<close>

section \<open>Definitions\<close>

record directory_entry =
  de_id :: string
  de_base :: nat
  de_crc32c :: nat

record manifest_record =
  mr_epoch :: nat
  mr_owner :: string
  mr_tail_base :: nat
  mr_tail_id :: "string option"
  mr_pending_id :: "string option"
  mr_seal_base :: "nat option"
  mr_seal_id :: "string option"
  mr_seal_digest :: "string option"
  mr_trunc :: nat
  mr_segments :: "directory_entry list"
  mr_buckets :: "string list"

definition META_EPOCH :: string where "META_EPOCH = ''chorus.epoch''"
definition META_OWNER :: string where "META_OWNER = ''chorus.owner''"
definition META_TAIL_BASE :: string where "META_TAIL_BASE = ''chorus.tail_base''"
definition META_TAIL_ID :: string where "META_TAIL_ID = ''chorus.tail_id''"
definition META_PENDING_ID :: string where "META_PENDING_ID = ''chorus.pending_id''"
definition META_SEAL_ID :: string where "META_SEAL_ID = ''chorus.seal_id''"
definition META_SEAL_BASE :: string where "META_SEAL_BASE = ''chorus.seal_base''"
definition META_SEAL_DIGEST :: string where "META_SEAL_DIGEST = ''chorus.seal_digest''"
definition META_TRUNC :: string where "META_TRUNC = ''chorus.trunc''"
definition META_SEGMENTS :: string where "META_SEGMENTS = ''chorus.segments''"
definition META_BUCKETS :: string where "META_BUCKETS = ''chorus.buckets''"

lemmas meta_key_defs = META_FORMAT_def META_EPOCH_def META_OWNER_def META_TAIL_BASE_def META_TAIL_ID_def
  META_PENDING_ID_def META_SEAL_ID_def META_SEAL_BASE_def META_SEAL_DIGEST_def META_TRUNC_def
  META_SEGMENTS_def META_BUCKETS_def

text \<open>The \<open>{:?}\<close> format of a string and of an optional value.\<close>

definition debug_char :: "char \<Rightarrow> string" where
  "debug_char c =
     (let n = (of_char c :: nat) in
      if n = 34 then [char_of (92 :: nat), c]
      else if n = 92 then [c, c]
      else if n = 0 then [char_of (92 :: nat), CHR ''0'']
      else if n = 9 then [char_of (92 :: nat), CHR ''t'']
      else if n = 10 then [char_of (92 :: nat), CHR ''n'']
      else if n = 13 then [char_of (92 :: nat), CHR ''r'']
      else if n < 32 \<or> n = 127 then [char_of (92 :: nat)] @ ''u{'' @ show_hex n @ ''}''
      else [c])"

definition debug_str :: "string \<Rightarrow> string" where
  "debug_str s = [char_of (34 :: nat)] @ concat (map debug_char s) @ [char_of (34 :: nat)]"

definition debug_opt :: "('a \<Rightarrow> string) \<Rightarrow> 'a option \<Rightarrow> string" where
  "debug_opt f x = (case x of None \<Rightarrow> ''None'' | Some y \<Rightarrow> ''Some('' @ f y @ '')'')"

fun check_bucket_names :: "string list \<Rightarrow> string list \<Rightarrow> protocol_error + unit" where
  "check_bucket_names unique [] = Inr ()"
| "check_bucket_names unique (b # bs) =
     (if b = [] \<or> CHR '','' \<in> set b then Inl (PE_InvalidManifest (''invalid bucket name '' @ debug_str b))
      else if b \<in> set unique then Inl (PE_InvalidManifest (''chorus.buckets repeats bucket '' @ b))
      else check_bucket_names (b # unique) bs)"

definition validate_bucket_names :: "string list \<Rightarrow> protocol_error + unit" where
  "validate_bucket_names buckets =
     (if buckets = [] then Inl (PE_InvalidManifest ''chorus.buckets must not be empty'')
      else if length buckets \<notin> set SUPPORTED_REPLICA_COUNTS
      then Inl (PE_InvalidManifest (''chorus.buckets has unsupported replica count ''
             @ show_dec (length buckets) @ ''; expected 1, 3, or 5''))
      else check_bucket_names [] buckets)"

definition initial_record :: "string list \<Rightarrow> manifest_record" where
  "initial_record buckets =
     \<lparr>mr_epoch = 0, mr_owner = '''', mr_tail_base = 0, mr_tail_id = None, mr_pending_id = None,
      mr_seal_base = None, mr_seal_id = None, mr_seal_digest = None, mr_trunc = 0,
      mr_segments = [], mr_buckets = buckets\<rparr>"

definition encode_entry :: "directory_entry \<Rightarrow> string" where
  "encode_entry e = de_id e @ '':'' @ show_dec (de_base e) @ '':'' @ pad_zero 8 (show_hex (de_crc32c e))"

definition encode_segments :: "directory_entry list \<Rightarrow> string" where
  "encode_segments segs = join_with (CHR '','') (map encode_entry segs)"

definition lower_hex :: "char \<Rightarrow> bool" where
  "lower_hex c \<longleftrightarrow> c \<in> set ''0123456789abcdef''"

text \<open>One comma-separated part of \<open>chorus.segments\<close>.\<close>

definition decode_entry :: "string \<Rightarrow> protocol_error + directory_entry" where
  "decode_entry part =
     (let invalid = Inl (PE_InvalidManifest (''invalid chorus.segments entry '' @ part))
      in case split_on (CHR '':'') part of
           ident # base # crc # rest \<Rightarrow>
             if length crc \<noteq> 8 \<or> \<not> list_all lower_hex crc then invalid
             else (case from_str_radix u32_max 16 crc of
                 None \<Rightarrow> invalid
               | Some v \<Rightarrow>
                   if rest \<noteq> [] then invalid
                   else if ident = [] then invalid
                   else (case parse_u64 base of
                       None \<Rightarrow> invalid
                     | Some b \<Rightarrow> Inr \<lparr>de_id = ident, de_base = b, de_crc32c = v\<rparr>))
         | _ \<Rightarrow> invalid)"

fun decode_parts :: "nat option \<Rightarrow> string list \<Rightarrow> protocol_error + directory_entry list" where
  "decode_parts previous [] = Inr []"
| "decode_parts previous (part # parts) =
     and_then (decode_entry part) (\<lambda>e.
       if (case previous of Some p \<Rightarrow> de_base e \<le> p | None \<Rightarrow> False)
       then Inl (PE_InvalidManifest ''chorus.segments bases must be strictly increasing'')
       else and_then (decode_parts (Some (de_base e)) parts) (\<lambda>es. Inr (e # es)))"

definition decode_segments :: "string \<Rightarrow> protocol_error + directory_entry list" where
  "decode_segments value = (if value = [] then Inr [] else decode_parts None (split_on (CHR '','') value))"

definition decode_buckets :: "string \<Rightarrow> protocol_error + string list" where
  "decode_buckets value =
     (if value = [] then Inl (PE_InvalidManifest ''chorus.buckets must not be empty'')
      else Inr (split_on (CHR '','') value))"

definition insert_some :: "string \<Rightarrow> string option \<Rightarrow> metadata \<Rightarrow> metadata" where
  "insert_some k v m = (case v of None \<Rightarrow> m | Some x \<Rightarrow> m(k \<mapsto> x))"

definition encode_record :: "manifest_record \<Rightarrow> metadata" where
  "encode_record r =
     insert_some META_SEAL_DIGEST (mr_seal_digest r)
    (insert_some META_SEAL_ID (mr_seal_id r)
    (insert_some META_SEAL_BASE (map_option show_dec (mr_seal_base r))
    (insert_some META_PENDING_ID (mr_pending_id r)
    (insert_some META_TAIL_ID (mr_tail_id r)
     [META_FORMAT \<mapsto> FORMAT_VERSION, META_EPOCH \<mapsto> show_dec (mr_epoch r), META_OWNER \<mapsto> mr_owner r,
      META_TAIL_BASE \<mapsto> show_dec (mr_tail_base r), META_TRUNC \<mapsto> show_dec (mr_trunc r),
      META_SEGMENTS \<mapsto> encode_segments (mr_segments r),
      META_BUCKETS \<mapsto> join_with (CHR '','') (mr_buckets r)]))))"

text \<open>The loop of \<open>validate\<close> over the directory returns the ids it has seen.\<close>

fun validate_segments ::
  "nat \<Rightarrow> string list \<Rightarrow> nat option \<Rightarrow> directory_entry list \<Rightarrow> protocol_error + string list" where
  "validate_segments tail_base ids previous [] = Inr ids"
| "validate_segments tail_base ids previous (e # es) =
     (if (case previous of Some p \<Rightarrow> de_base e \<le> p | None \<Rightarrow> False)
      then Inl (PE_InvalidManifest ''chorus.segments bases must be strictly increasing'')
      else if tail_base \<le> de_base e
      then Inl (PE_InvalidManifest (''chorus.segments entry '' @ de_id e @ '' has base '' @ show_dec (de_base e)
             @ '' at or past chorus.tail_base '' @ show_dec tail_base))
      else if de_id e \<in> set ids
      then Inl (PE_InvalidManifest (''chorus.segments repeats segment id '' @ de_id e))
      else validate_segments tail_base (de_id e # ids) (Some (de_base e)) es)"

definition validate_pending :: "manifest_record \<Rightarrow> string list \<Rightarrow> protocol_error + unit" where
  "validate_pending r ids =
     (case mr_pending_id r of
        None \<Rightarrow> Inr ()
      | Some p \<Rightarrow>
          if p = [] \<or> CHR '':'' \<in> set p \<or> CHR '','' \<in> set p
          then Inl (PE_InvalidManifest (''invalid chorus.pending_id '' @ debug_str p))
          else if mr_tail_id r = Some p
          then Inl (PE_InvalidManifest ''chorus.pending_id collides with chorus.tail_id'')
          else if p \<in> set ids
          then Inl (PE_InvalidManifest ''chorus.pending_id collides with a sealed segment id'')
          else Inr ())"

definition validate_last_seal :: "manifest_record \<Rightarrow> protocol_error + unit" where
  "validate_last_seal r =
     (if mr_trunc r < mr_tail_base r \<and> mr_segments r \<noteq> []
        \<and> (mr_seal_id r \<noteq> Some (de_id (last (mr_segments r)))
           \<or> mr_seal_base r \<noteq> Some (de_base (last (mr_segments r))))
      then Inl (PE_InvalidManifest (''chorus.segments ends with '' @ de_id (last (mr_segments r)) @ '':''
             @ show_dec (de_base (last (mr_segments r))) @ '' but the seal record names ''
             @ debug_opt debug_str (mr_seal_id r) @ '':'' @ debug_opt show_dec (mr_seal_base r)))
      else Inr ())"

definition validate :: "manifest_record \<Rightarrow> protocol_error + unit" where
  "validate r =
     (if (mr_seal_base r \<noteq> None) \<noteq> (mr_seal_digest r \<noteq> None)
      then Inl (PE_InvalidManifest ''seal_base and seal_digest must appear together'')
      else if 0 < mr_epoch r \<and> mr_tail_id r = None
      then Inl (PE_InvalidManifest ''chorus.tail_id must be present once chorus.epoch is nonzero'')
      else and_then (validate_segments (mr_tail_base r) [] None (mr_segments r)) (\<lambda>ids.
        if (case mr_tail_id r of Some t \<Rightarrow> t \<in> set ids | None \<Rightarrow> False)
        then Inl (PE_InvalidManifest ''chorus.tail_id collides with a sealed segment id'')
        else and_then (validate_pending r ids) (\<lambda>_.
             and_then (validate_last_seal r) (\<lambda>_.
               validate_bucket_names (mr_buckets r)))))"

definition decode_field :: "metadata \<Rightarrow> string \<Rightarrow> protocol_error + nat" where
  "decode_field m key =
     and_then (ok_or (m key) (PE_InvalidManifest (''manifest lacks '' @ key))) (\<lambda>v.
       ok_or (parse_u64 v) (PE_InvalidManifest (''invalid '' @ key)))"

definition decode_record :: "metadata \<Rightarrow> protocol_error + manifest_record" where
  "decode_record m =
     (if m META_FORMAT \<noteq> Some FORMAT_VERSION
      then Inl (PE_InvalidManifest ''manifest does not use chorus.format=1'')
      else and_then (ok_or (m META_SEGMENTS) (PE_InvalidManifest ''manifest lacks chorus.segments'')) (\<lambda>sv.
        and_then (decode_segments sv) (\<lambda>segments.
        and_then (case m META_SEAL_BASE of
            None \<Rightarrow> Inr None
          | Some v \<Rightarrow> and_then (ok_or (parse_u64 v) (PE_InvalidManifest ''invalid chorus.seal_base''))
              (\<lambda>b. Inr (Some b))) (\<lambda>seal_base.
        and_then (ok_or (m META_BUCKETS) (PE_InvalidManifest ''manifest lacks chorus.buckets'')) (\<lambda>bv.
        and_then (decode_buckets bv) (\<lambda>buckets.
        and_then (decode_field m META_EPOCH) (\<lambda>epoch.
        and_then (decode_field m META_TAIL_BASE) (\<lambda>tail_base.
        and_then (decode_field m META_TRUNC) (\<lambda>trunc.
          let r = \<lparr>mr_epoch = epoch, mr_owner = (case m META_OWNER of Some o1 \<Rightarrow> o1 | None \<Rightarrow> ''''),
                   mr_tail_base = tail_base, mr_tail_id = m META_TAIL_ID, mr_pending_id = m META_PENDING_ID,
                   mr_seal_base = seal_base, mr_seal_id = m META_SEAL_ID, mr_seal_digest = m META_SEAL_DIGEST,
                   mr_trunc = trunc, mr_segments = segments, mr_buckets = buckets\<rparr>
          in and_then (validate r) (\<lambda>_. Inr r))))))))))"

text \<open>A segment ends one record before its successor, the last one before the active tail.\<close>

fun next_base :: "nat \<Rightarrow> directory_entry list \<Rightarrow> nat" where
  "next_base tail_base [] = tail_base"
| "next_base tail_base (e # _) = de_base e"

fun check_removals ::
  "nat \<Rightarrow> string set \<Rightarrow> nat \<Rightarrow> directory_entry list \<Rightarrow> protocol_error + unit" where
  "check_removals tail_base ids witnessed_floor [] = Inr ()"
| "check_removals tail_base ids witnessed_floor (e # es) =
     (if de_id e \<notin> ids then check_removals tail_base ids witnessed_floor es
      else and_then (ok_or (checked_sub (next_base tail_base es) 1)
          (PE_InvalidManifest (''cannot derive an end for segment '' @ de_id e @ '' at base '' @ show_dec (de_base e))))
        (\<lambda>seg_end.
          if witnessed_floor \<le> seg_end
          then Inl (PE_InvalidManifest (''cannot remove segment '' @ de_id e @ '' ending at '' @ show_dec seg_end
                 @ '' at truncation floor '' @ show_dec witnessed_floor))
          else check_removals tail_base ids witnessed_floor es))"

definition validate_removals :: "manifest_record \<Rightarrow> string set \<Rightarrow> nat \<Rightarrow> protocol_error + unit" where
  "validate_removals r ids witnessed_floor =
     (if mr_trunc r < witnessed_floor
      then Inl (PE_InvalidManifest (''segment removal floor '' @ show_dec witnessed_floor
             @ '' exceeds committed truncation floor '' @ show_dec (mr_trunc r)))
      else check_removals (mr_tail_base r) ids witnessed_floor (mr_segments r))"

definition WORST_CASE_ENTRY_BYTES :: nat where
  "WORST_CASE_ENTRY_BYTES = 16 + 1 + 16 + 1 + 20 + 1 + 8 + 1"

definition directory_has_room_for :: "nat \<Rightarrow> nat \<Rightarrow> nat \<Rightarrow> bool" where
  "directory_has_room_for current_encoded_len additional max_directory_bytes \<longleftrightarrow>
     (let reserved = additional * WORST_CASE_ENTRY_BYTES
      in reserved \<le> usize_max
         \<and> (case checked_add usize_max current_encoded_len reserved of
              None \<Rightarrow> False
            | Some needed \<Rightarrow> needed \<le> max_directory_bytes))"

definition directory_has_room :: "manifest_record \<Rightarrow> nat \<Rightarrow> nat \<Rightarrow> bool" where
  "directory_has_room r additional max_directory_bytes =
     directory_has_room_for (length (encode_segments (mr_segments r))) additional max_directory_bytes"

definition segment_id :: "nat \<Rightarrow> nat \<Rightarrow> string" where
  "segment_id epoch seq = pad_zero 16 (show_hex epoch) @ ''-'' @ pad_zero 8 (show_hex seq)"


section \<open>Validation\<close>

text \<open>What the structural checks amount to.\<close>

definition valid_directory :: "nat \<Rightarrow> directory_entry list \<Rightarrow> bool" where
  "valid_directory tail_base es \<longleftrightarrow>
     sorted_wrt (<) (map de_base es) \<and> distinct (map de_id es) \<and> (\<forall>e \<in> set es. de_base e < tail_base)"

definition valid_buckets :: "string list \<Rightarrow> bool" where
  "valid_buckets bs \<longleftrightarrow>
     length bs \<in> set SUPPORTED_REPLICA_COUNTS \<and> distinct bs \<and> (\<forall>b \<in> set bs. b \<noteq> [] \<and> CHR '','' \<notin> set b)"

definition valid_pending :: "manifest_record \<Rightarrow> bool" where
  "valid_pending r \<longleftrightarrow>
     (case mr_pending_id r of
        None \<Rightarrow> True
      | Some p \<Rightarrow> p \<noteq> [] \<and> CHR '':'' \<notin> set p \<and> CHR '','' \<notin> set p
          \<and> mr_tail_id r \<noteq> Some p \<and> p \<notin> de_id ` set (mr_segments r))"

definition valid_last_seal :: "manifest_record \<Rightarrow> bool" where
  "valid_last_seal r \<longleftrightarrow>
     mr_tail_base r \<le> mr_trunc r \<or> mr_segments r = []
   \<or> mr_seal_id r = Some (de_id (last (mr_segments r))) \<and> mr_seal_base r = Some (de_base (last (mr_segments r)))"

definition valid_record :: "manifest_record \<Rightarrow> bool" where
  "valid_record r \<longleftrightarrow>
     (mr_seal_base r = None \<longleftrightarrow> mr_seal_digest r = None)
   \<and> (mr_epoch r = 0 \<or> mr_tail_id r \<noteq> None)
   \<and> valid_directory (mr_tail_base r) (mr_segments r)
   \<and> (\<forall>t. mr_tail_id r = Some t \<longrightarrow> t \<notin> de_id ` set (mr_segments r))
   \<and> valid_pending r \<and> valid_last_seal r \<and> valid_buckets (mr_buckets r)"

lemma validate_segments_Inr:
  "validate_segments tb ids prev es = Inr ids' \<longleftrightarrow>
     ids' = rev (map de_id es) @ ids
   \<and> sorted_wrt (<) ((case prev of None \<Rightarrow> [] | Some p \<Rightarrow> [p]) @ map de_base es)
   \<and> distinct (map de_id es) \<and> set (map de_id es) \<inter> set ids = {} \<and> (\<forall>e \<in> set es. de_base e < tb)"
proof (induction tb ids prev es rule: validate_segments.induct)
  case (2 tb ids prev e es)
  then show ?case by (cases prev) (auto simp: not_le)
qed (auto split: option.splits)

lemma check_bucket_names_Inr:
  "check_bucket_names unique bs = Inr () \<longleftrightarrow>
     distinct bs \<and> set bs \<inter> set unique = {} \<and> (\<forall>b \<in> set bs. b \<noteq> [] \<and> CHR '','' \<notin> set b)"
  by (induction unique bs rule: check_bucket_names.induct) auto

lemma validate_bucket_names_Inr: "validate_bucket_names bs = Inr () \<longleftrightarrow> valid_buckets bs"
  by (auto simp: validate_bucket_names_def valid_buckets_def check_bucket_names_Inr SUPPORTED_REPLICA_COUNTS_def)

lemma validate_Inr: "validate r = Inr () \<longleftrightarrow> valid_record r"
  by (cases "mr_pending_id r")
    (auto simp: validate_def valid_record_def and_then_Inr_iff validate_segments_Inr validate_bucket_names_Inr
      validate_pending_def valid_pending_def validate_last_seal_def valid_last_seal_def valid_directory_def
      split: option.splits if_splits)


section \<open>Encoding\<close>

lemma split_on_chars: "w \<in> set (split_on sep s) \<Longrightarrow> set w \<subseteq> set s - {sep}"
proof (induction s arbitrary: w)
  case (Cons c s)
  obtain a l where a: "split_on sep s = a # l" by (cases "split_on sep s") auto
  then have "set a \<subseteq> set s - {sep}" "\<And>v. v \<in> set l \<Longrightarrow> set v \<subseteq> set s - {sep}"
    using Cons.IH by auto
  then show ?case using Cons.prems a by (auto split: if_splits)
qed simp

definition wf_entry :: "directory_entry \<Rightarrow> bool" where
  "wf_entry e \<longleftrightarrow> de_id e \<noteq> [] \<and> CHR '','' \<notin> set (de_id e) \<and> CHR '':'' \<notin> set (de_id e)
     \<and> de_base e \<le> u64_max \<and> de_crc32c e \<le> u32_max"

definition wf_record :: "manifest_record \<Rightarrow> bool" where
  "wf_record r \<longleftrightarrow> valid_record r \<and> mr_epoch r \<le> u64_max \<and> mr_tail_base r \<le> u64_max \<and> mr_trunc r \<le> u64_max
     \<and> (\<forall>b. mr_seal_base r = Some b \<longrightarrow> b \<le> u64_max) \<and> (\<forall>e \<in> set (mr_segments r). wf_entry e)"

lemma length_radix_digits:
  assumes "2 \<le> base" "n < base ^ k" "0 < k"
  shows "length (radix_digits base n) \<le> k"
  using assms
proof (induction base n arbitrary: k rule: radix_digits.induct)
  case (1 base n)
  show ?case
  proof (cases "n < base")
    case False
    then obtain j where k: "k = Suc j" "0 < j" using 1(3,4) by (cases k; cases "k - 1") auto
    have "n div base < base ^ j" using 1(2,3) k by (simp add: less_mult_imp_div_less mult.commute)
    then have "length (radix_digits base (n div base)) \<le> j" using 1 False k by auto
    then show ?thesis using False k 1(2) by (subst radix_digits.simps) simp
  qed (use 1(4) in \<open>subst radix_digits.simps, simp\<close>)
qed

lemma length_show_u64: "n \<le> u64_max \<Longrightarrow> length (show_dec n) \<le> 20"
  using length_radix_digits [of 10 n 20] by (simp add: show_radix_def u64_max_def)

lemma length_show_crc: "n \<le> u32_max \<Longrightarrow> length (pad_zero 8 (show_hex n)) = 8"
  using length_radix_digits [of 16 n 8] by (simp add: show_radix_def u32_max_def pad_zero_def)

lemma show_radix_no_sep:
  assumes "2 \<le> base" "base \<le> 16"
  shows "CHR '','' \<notin> set (pad_zero w (show_radix base n))" "CHR '':'' \<notin> set (pad_zero w (show_radix base n))"
    "CHR ''-'' \<notin> set (pad_zero w (show_radix base n))"
  using show_radix_alnum [OF assms, of w n] by auto

lemma decode_encode_entry: "wf_entry e \<Longrightarrow> decode_entry (encode_entry e) = Inr e"
proof -
  assume wf: "wf_entry e"
  let ?crc = "pad_zero 8 (show_hex (de_crc32c e))"
  have eq: "encode_entry e = join_with (CHR '':'') [de_id e, show_dec (de_base e), ?crc]"
    by (simp add: encode_entry_def)
  have sep: "\<forall>w \<in> set [de_id e, show_dec (de_base e), ?crc]. CHR '':'' \<notin> set w"
    using wf show_radix_no_sep(2) [of 10 0 "de_base e"] show_radix_no_sep(2) [of 16 8 "de_crc32c e"]
    by (simp add: wf_entry_def)
  have "split_on (CHR '':'') (encode_entry e) = [de_id e, show_dec (de_base e), ?crc]"
    unfolding eq by (rule split_on_join, simp, rule bspec [OF sep])
  moreover have "list_all lower_hex ?crc"
    unfolding list_all_iff lower_hex_def by (rule subset_eq [THEN iffD1], rule show_radix_alnum) simp_all
  moreover have "length ?crc = 8" "from_str_radix u32_max 16 ?crc = Some (de_crc32c e)"
      "parse_u64 (show_dec (de_base e)) = Some (de_base e)"
    using wf length_show_crc [of "de_crc32c e"] from_str_radix_show [of 16 "de_crc32c e" u32_max 8]
      parse_u64_show [of "de_base e"] by (simp_all add: wf_entry_def)
  moreover have "de_id e \<noteq> []" using wf by (simp add: wf_entry_def)
  ultimately show ?thesis by (simp add: decode_entry_def)
qed

lemma decode_entry_Inr:
  "decode_entry part = Inr e \<Longrightarrow>
     \<exists>base crc. split_on (CHR '':'') part = [de_id e, base, crc] \<and> de_id e \<noteq> []
       \<and> from_str_radix u32_max 16 crc = Some (de_crc32c e) \<and> parse_u64 base = Some (de_base e)"
  by (auto simp: decode_entry_def Let_def split: list.splits option.splits if_splits)

lemma decode_entry_wf:
  assumes "decode_entry part = Inr e" "CHR '','' \<notin> set part"
  shows "wf_entry e"
proof -
  obtain base crc where sp: "split_on (CHR '':'') part = [de_id e, base, crc]" "de_id e \<noteq> []"
      and nums: "from_str_radix u32_max 16 crc = Some (de_crc32c e)" "parse_u64 base = Some (de_base e)"
    using decode_entry_Inr [OF assms(1)] by blast
  have "set (de_id e) \<subseteq> set part - {CHR '':''}" using split_on_chars [of "de_id e" _ part] sp(1) by simp
  then show ?thesis
    using sp(2) nums assms(2) from_str_radix_bound by (auto simp: wf_entry_def)
qed

lemma decode_parts_encode:
  "(\<forall>e \<in> set es. wf_entry e) \<Longrightarrow> sorted_wrt (<) ((case prev of None \<Rightarrow> [] | Some p \<Rightarrow> [p]) @ map de_base es)
     \<Longrightarrow> decode_parts prev (map encode_entry es) = Inr es"
proof (induction es arbitrary: prev)
  case (Cons e es)
  from Cons.prems have "decode_parts (Some (de_base e)) (map encode_entry es) = Inr es"
    by (intro Cons.IH) (auto split: option.splits)
  then show ?case using Cons.prems by (auto simp: decode_encode_entry split: option.splits)
qed simp

lemma encode_entry_no_comma:
  assumes "wf_entry e"
  shows "CHR '','' \<notin> set (encode_entry e)" "encode_entry e \<noteq> []"
  using assms show_radix_no_sep(1) [of 10 0 "de_base e"] show_radix_no_sep(1) [of 16 8 "de_crc32c e"]
  by (auto simp: encode_entry_def wf_entry_def)

lemma join_with_nonempty: "ws \<noteq> [] \<Longrightarrow> (\<forall>w \<in> set ws. w \<noteq> []) \<Longrightarrow> join_with sep ws \<noteq> []"
  by (induction sep ws rule: join_with.induct) auto

lemma decode_encode_segments:
  assumes "\<forall>e \<in> set es. wf_entry e" "sorted_wrt (<) (map de_base es)"
  shows "decode_segments (encode_segments es) = Inr es"
proof (cases "es = []")
  case False
  have "split_on (CHR '','') (encode_segments es) = map encode_entry es"
    unfolding encode_segments_def
    by (rule split_on_join) (use False assms(1) encode_entry_no_comma in auto)
  moreover have "encode_segments es \<noteq> []"
    unfolding encode_segments_def
    by (rule join_with_nonempty) (use False assms(1) encode_entry_no_comma in auto)
  ultimately show ?thesis
    using decode_parts_encode [of es None] assms by (simp add: decode_segments_def)
qed (simp add: decode_segments_def encode_segments_def)

lemma decode_parts_wf:
  "decode_parts prev parts = Inr es \<Longrightarrow> (\<forall>p \<in> set parts. CHR '','' \<notin> set p) \<Longrightarrow> (\<forall>e \<in> set es. wf_entry e)"
  by (induction prev parts arbitrary: es rule: decode_parts.induct)
    (fastforce simp: and_then_Inr_iff decode_entry_wf split: if_splits)+

lemma decode_segments_wf: "decode_segments v = Inr es \<Longrightarrow> \<forall>e \<in> set es. wf_entry e"
proof (cases "v = []")
  case False
  assume "decode_segments v = Inr es"
  with False have "decode_parts None (split_on (CHR '','') v) = Inr es" by (simp add: decode_segments_def)
  moreover have "\<forall>p \<in> set (split_on (CHR '','') v). CHR '','' \<notin> set p"
    using split_on_chars [of _ "CHR '',''" v] by blast
  ultimately show ?thesis by (rule decode_parts_wf)
qed (simp add: decode_segments_def)

lemma decode_encode_buckets: "valid_buckets bs \<Longrightarrow> decode_buckets (join_with (CHR '','') bs) = Inr bs"
proof -
  assume v: "valid_buckets bs"
  then have "bs \<noteq> []" by (auto simp: valid_buckets_def SUPPORTED_REPLICA_COUNTS_def)
  with v show ?thesis
    using split_on_join [of bs "CHR '',''"] join_with_nonempty [of bs "CHR '',''"]
    by (simp add: decode_buckets_def valid_buckets_def)
qed

text \<open>Reading back the fields of an encoded record.\<close>

lemma encode_record_fields [codec_simps]:
  "encode_record r META_FORMAT = Some FORMAT_VERSION"
  "encode_record r META_EPOCH = Some (show_dec (mr_epoch r))"
  "encode_record r META_OWNER = Some (mr_owner r)"
  "encode_record r META_TAIL_BASE = Some (show_dec (mr_tail_base r))"
  "encode_record r META_TRUNC = Some (show_dec (mr_trunc r))"
  "encode_record r META_SEGMENTS = Some (encode_segments (mr_segments r))"
  "encode_record r META_BUCKETS = Some (join_with (CHR '','') (mr_buckets r))"
  "encode_record r META_TAIL_ID = mr_tail_id r"
  "encode_record r META_PENDING_ID = mr_pending_id r"
  "encode_record r META_SEAL_ID = mr_seal_id r"
  "encode_record r META_SEAL_BASE = map_option show_dec (mr_seal_base r)"
  "encode_record r META_SEAL_DIGEST = mr_seal_digest r"
  by (simp_all add: encode_record_def insert_some_def meta_key_defs split: option.split)

lemma decode_field_Inr:
  "decode_field m k = Inr n \<longleftrightarrow> (\<exists>v. m k = Some v \<and> parse_u64 v = Some n)"
  by (auto simp: decode_field_def and_then_Inr_iff ok_or_Inr_iff)

lemma manifest_record_eta [simp]:
  "\<lparr>mr_epoch = mr_epoch r, mr_owner = mr_owner r, mr_tail_base = mr_tail_base r, mr_tail_id = mr_tail_id r,
     mr_pending_id = mr_pending_id r, mr_seal_base = mr_seal_base r, mr_seal_id = mr_seal_id r,
     mr_seal_digest = mr_seal_digest r, mr_trunc = mr_trunc r, mr_segments = mr_segments r,
     mr_buckets = mr_buckets r\<rparr> = r"
  by (cases r) simp

lemma decode_encode_record:
  assumes "wf_record r"
  shows "decode_record (encode_record r) = Inr r"
proof -
  have "decode_segments (encode_segments (mr_segments r)) = Inr (mr_segments r)"
    using assms by (intro decode_encode_segments) (auto simp: wf_record_def valid_record_def valid_directory_def)
  moreover have "decode_buckets (join_with (CHR '','') (mr_buckets r)) = Inr (mr_buckets r)"
    using assms by (intro decode_encode_buckets) (simp add: wf_record_def valid_record_def)
  moreover have "decode_field (encode_record r) META_EPOCH = Inr (mr_epoch r)"
      "decode_field (encode_record r) META_TAIL_BASE = Inr (mr_tail_base r)"
      "decode_field (encode_record r) META_TRUNC = Inr (mr_trunc r)"
    using assms by (simp_all add: decode_field_Inr encode_record_fields parse_u64_show wf_record_def)
  moreover have "validate r = Inr ()" using assms by (simp add: validate_Inr wf_record_def)
  moreover have "(case map_option show_dec (mr_seal_base r) of
        None \<Rightarrow> Inr None
      | Some v \<Rightarrow> and_then (ok_or (parse_u64 v) (PE_InvalidManifest ''invalid chorus.seal_base''))
          (\<lambda>b. Inr (Some b))) = Inr (mr_seal_base r)"
    using assms by (auto simp: ok_or_def parse_u64_show wf_record_def split: option.split)
  ultimately show ?thesis
    by (simp add: decode_record_def encode_record_fields ok_or_def)
qed

lemma decode_record_wf:
  assumes "decode_record m = Inr r"
  shows "wf_record r"
proof -
  from assms have "validate r = Inr ()"
      and "\<exists>v. decode_segments v = Inr (mr_segments r)"
      and "decode_field m META_EPOCH = Inr (mr_epoch r)" "decode_field m META_TAIL_BASE = Inr (mr_tail_base r)"
        "decode_field m META_TRUNC = Inr (mr_trunc r)"
      and "\<forall>b. mr_seal_base r = Some b \<longrightarrow> (\<exists>v. parse_u64 v = Some b)"
    by (auto simp: decode_record_def and_then_Inr_iff ok_or_Inr_iff Let_def split: if_splits option.splits)
  then show ?thesis
    using decode_segments_wf from_str_radix_bound by (auto simp: wf_record_def validate_Inr decode_field_Inr)
qed


section \<open>Segment ids and the directory budget\<close>

lemma hex_inj: "pad_zero w (show_hex a) = pad_zero w (show_hex b) \<Longrightarrow> a = b"
proof -
  assume eq: "pad_zero w (show_hex a) = pad_zero w (show_hex b)"
  have "Some a = from_str_radix (max a b) 16 (pad_zero w (show_hex a))"
    by (rule sym, rule from_str_radix_show) simp_all
  also have "\<dots> = from_str_radix (max a b) 16 (pad_zero w (show_hex b))" by (simp only: eq)
  also have "\<dots> = Some b" by (rule from_str_radix_show) simp_all
  finally show "a = b" by simp
qed

lemma length_hex_u64: "n \<le> u64_max \<Longrightarrow> w \<le> 16 \<Longrightarrow> length (pad_zero w (show_hex n)) \<le> 16"
  using length_radix_digits [of 16 n 16] by (simp add: show_radix_def u64_max_def pad_zero_def)

lemma split_segment_id:
  "split_on (CHR ''-'') (segment_id e q) = [pad_zero 16 (show_hex e), pad_zero 8 (show_hex q)]"
  using split_on_append [of "CHR ''-''"] split_on_word [of "CHR ''-''"] show_radix_no_sep(3) [of 16]
  by (simp add: segment_id_def)

lemma segment_id_clean [simp]:
  "segment_id e q \<noteq> []" "CHR '','' \<notin> set (segment_id e q)" "CHR '':'' \<notin> set (segment_id e q)"
  using show_radix_no_sep(1,2) [of 16] by (simp_all add: segment_id_def)

lemma length_segment_id: "e \<le> u64_max \<Longrightarrow> q \<le> u64_max \<Longrightarrow> length (segment_id e q) \<le> 33"
  using length_hex_u64 [of e 16] length_hex_u64 [of q 8] by (simp add: segment_id_def)

lemma length_encode_entry:
  assumes "wf_entry e" "length (de_id e) \<le> 33"
  shows "Suc (length (encode_entry e)) \<le> WORST_CASE_ENTRY_BYTES"
  using assms length_show_u64 [of "de_base e"] length_show_crc [of "de_crc32c e"]
  by (simp add: encode_entry_def wf_entry_def WORST_CASE_ENTRY_BYTES_def)

lemma length_encode_segments:
  "length (encode_segments es) = sum_list (map (\<lambda>e. length (encode_entry e)) es) + (length es - 1)"
  by (simp add: encode_segments_def length_join o_def)

lemma length_encode_segments_append:
  assumes "\<forall>e \<in> set new. wf_entry e \<and> length (de_id e) \<le> 33"
  shows "length (encode_segments (es @ new)) \<le> length (encode_segments es) + length new * WORST_CASE_ENTRY_BYTES"
proof -
  have "sum_list (map (\<lambda>e. length (encode_entry e)) new) + length new \<le> length new * WORST_CASE_ENTRY_BYTES"
    using assms
  proof (induction new)
    case (Cons e new)
    then show ?case using length_encode_entry [of e] by simp
  qed simp
  then show ?thesis by (cases "es = []") (simp_all add: length_encode_segments)
qed


section \<open>Properties\<close>

text \<open>
  C26. The register encoding loses nothing: the records that decoding can
  return are exactly the well-formed ones, and they are exactly the records
  that decode from their own encoding.  Well-formedness is the structural
  validation together with the integer ranges and the separators that ids
  must not contain, so a record that some client could read is still readable
  after any client writes it back.
\<close>

theorem manifest_codec_roundtrip:
  "((\<exists>m. decode_record m = Inr r) \<longleftrightarrow> wf_record r)
   \<and> (wf_record r \<longleftrightarrow> decode_record (encode_record r) = Inr r)"
  using decode_encode_record decode_record_wf by blast

text \<open>
  C36. The capacity check is enough: when the directory has room for a number
  of further entries, adding that many entries whose ids are no longer than a
  segment id, with any bases and checksums, keeps the encoded directory within
  the store's byte budget.
\<close>

theorem directory_room_is_enough:
  assumes "directory_has_room r (length new) max_bytes"
    and "\<forall>e \<in> set new. wf_entry e \<and> length (de_id e) \<le> 33"
  shows "length (encode_segments (mr_segments r @ new)) \<le> max_bytes"
proof -
  have "length (encode_segments (mr_segments r)) + length new * WORST_CASE_ENTRY_BYTES \<le> max_bytes"
    using assms(1)
    by (auto simp: directory_has_room_def directory_has_room_for_def checked_add_def Let_def
        split: option.splits if_splits)
  then show ?thesis using length_encode_segments_append [OF assms(2)] by (rule order_trans [rotated])
qed

theorem directory_room_is_enough_witness:
  "length (encode_segments (mr_segments (initial_record [''a''])
     @ [\<lparr>de_id = segment_id 1 0, de_base = 0, de_crc32c = 0\<rparr>])) \<le> 64"
proof (rule directory_room_is_enough)
  show "directory_has_room (initial_record [''a''])
      (length [\<lparr>de_id = segment_id 1 0, de_base = 0, de_crc32c = 0\<rparr>]) 64"
    by (simp add: directory_has_room_def directory_has_room_for_def initial_record_def encode_segments_def
        checked_add_def WORST_CASE_ENTRY_BYTES_def u64_max_def)
  show "\<forall>e \<in> set [\<lparr>de_id = segment_id 1 0, de_base = 0, de_crc32c = 0\<rparr>].
      wf_entry e \<and> length (de_id e) \<le> 33"
    using length_segment_id [of 1 0] by (simp add: wf_entry_def u64_max_def)
qed

text \<open>
  C39. Segment ids never collide: two ids are equal only when both the claimed
  epoch and the counter are equal.
\<close>

theorem segment_id_injective: "segment_id e q = segment_id e' q' \<longleftrightarrow> e = e' \<and> q = q'"
proof
  assume "segment_id e q = segment_id e' q'"
  then have "split_on (CHR ''-'') (segment_id e q) = split_on (CHR ''-'') (segment_id e' q')" by simp
  then show "e = e' \<and> q = q'" by (auto simp: split_segment_id dest: hex_inj)
qed simp

end
