(* ===== verification/Manifest.thy ===== *)
theory Manifest
  imports Manifest_Record Replica_Ops
begin

text \<open>
  The manifest handle of \<open>manifest.rs\<close> over the \<open>ManifestStore\<close> interface of
  \<open>manifest_store.rs\<close>: opening and refreshing, the shared compare-and-swap loop
  and every mutator built on it.  A store is a record of state transformers on
  an abstract world; a handle is passed along with the result, since a failed
  round leaves a refreshed cache behind.  The random incarnation id is an
  argument of \<open>open\<close>.
\<close>

section \<open>Stores\<close>

record 'w manifest_store =
  ms_max_directory_bytes :: nat
  ms_read :: "('w, manifest_store_error + versioned_manifest option) state"
  ms_create :: "metadata \<Rightarrow> ('w, manifest_store_error + versioned_manifest) state"
  ms_update :: "manifest_version \<Rightarrow> metadata \<Rightarrow> ('w, manifest_store_error + versioned_manifest) state"

text \<open>\<open>GcsManifestStore\<close>: the register calls of the gRPC replica are parameters.\<close>

definition versioned_of_snapshot :: "replica_snapshot \<Rightarrow> versioned_manifest" where
  "versioned_of_snapshot s =
     \<lparr>vm_version = ManifestVersion (nat (rs_metageneration s mod 2 ^ 64)), vm_fields = rs_metadata s\<rparr>"

definition gcs_store_read ::
  "('w, transport_error + replica_snapshot) state
     \<Rightarrow> ('w, manifest_store_error + versioned_manifest option) state" where
  "gcs_store_read stat = do {
     r \<leftarrow> stat;
     State_Monad.return (case r of
       Inr s \<Rightarrow> Inr (Some (versioned_of_snapshot s))
     | Inl e \<Rightarrow> if te_code e = NotFound then Inr None else Inl (store_error e))
   }"

definition gcs_store_write ::
  "('w, transport_error + replica_snapshot) state
     \<Rightarrow> ('w, manifest_store_error + versioned_manifest) state" where
  "gcs_store_write call = do {
     r \<leftarrow> call;
     State_Monad.return (case r of
       Inr s \<Rightarrow> Inr (versioned_of_snapshot s)
     | Inl e \<Rightarrow> Inl (store_error e))
   }"

text \<open>The version a handle witnessed, as the \<open>i64\<close> precondition of the update call.\<close>

definition u64_as_i64 :: "nat \<Rightarrow> int" where
  "u64_as_i64 n = (if n < 2 ^ 63 then int n else int n - 2 ^ 64)"

definition gcs_manifest_store ::
  "('w, transport_error + replica_snapshot) state
     \<Rightarrow> (metadata \<Rightarrow> ('w, transport_error + replica_snapshot) state)
     \<Rightarrow> (int \<Rightarrow> metadata \<Rightarrow> ('w, transport_error + replica_snapshot) state) \<Rightarrow> 'w manifest_store" where
  "gcs_manifest_store stat create_register update_register =
     \<lparr>ms_max_directory_bytes = GCS_MAX_DIRECTORY_BYTES,
      ms_read = gcs_store_read stat,
      ms_create = (\<lambda>data. gcs_store_write (create_register data)),
      ms_update = (\<lambda>v data. gcs_store_write (update_register (u64_as_i64 (version_number v)) data))\<rparr>"

text \<open>\<open>LocalManifestStore\<close>: one file, absent until created.\<close>

record stored_manifest =
  sm_version :: nat
  sm_fields :: metadata

definition versioned_of_stored :: "stored_manifest \<Rightarrow> versioned_manifest" where
  "versioned_of_stored s = \<lparr>vm_version = ManifestVersion (sm_version s), vm_fields = sm_fields s\<rparr>"

definition local_store_read ::
  "stored_manifest option
     \<Rightarrow> (manifest_store_error + versioned_manifest option) \<times> stored_manifest option" where
  "local_store_read w = (Inr (map_option versioned_of_stored w), w)"

definition local_store_write ::
  "stored_manifest \<Rightarrow> (manifest_store_error + versioned_manifest) \<times> stored_manifest option" where
  "local_store_write s = (Inr (versioned_of_stored s), Some s)"

definition local_store_create ::
  "metadata \<Rightarrow> stored_manifest option
     \<Rightarrow> (manifest_store_error + versioned_manifest) \<times> stored_manifest option" where
  "local_store_create data w =
     (if w \<noteq> None then (Inl RegisterExists, w)
      else local_store_write \<lparr>sm_version = 1, sm_fields = data\<rparr>)"

definition local_store_update ::
  "manifest_version \<Rightarrow> metadata \<Rightarrow> stored_manifest option
     \<Rightarrow> (manifest_store_error + versioned_manifest) \<times> stored_manifest option" where
  "local_store_update v data w =
     (case w of
        None \<Rightarrow> (Inl (Backend ''the register was never created''), w)
      | Some cur \<Rightarrow>
          if sm_version cur \<noteq> version_number v then (Inl Conflict, w)
          else local_store_write \<lparr>sm_version = version_number v + 1, sm_fields = data\<rparr>)"

definition local_manifest_store :: "stored_manifest option manifest_store" where
  "local_manifest_store =
     \<lparr>ms_max_directory_bytes = 64 * 1024, ms_read = State local_store_read,
      ms_create = (\<lambda>f. State (local_store_create f)),
      ms_update = (\<lambda>v f. State (local_store_update v f))\<rparr>"


section \<open>Handles\<close>

record manifest =
  mf_config :: client_config
  mf_owner :: string
  mf_epoch :: nat
  mf_bucket_names :: "string list"
  mf_max_directory_bytes :: nat
  mf_version :: manifest_version
  mf_record :: manifest_record

record writer_claim =
  wc_epoch :: nat
  wc_owner :: string

record manifest_update =
  mu_version :: manifest_version
  mu_record :: manifest_record

record pending_fold =
  pf_old_tail_id :: string
  pf_old_tail_base :: nat
  pf_old_tail_end :: nat
  pf_old_tail_digest :: string
  pf_old_tail_crc32c :: nat
  pf_consumed_pending_id :: string
  pf_successor_tail_id :: string
  pf_refill_pending_id :: string

datatype 'a cas_outcome = Done 'a | Update manifest_record 'a

definition MAX_CAS_ROUNDS :: nat where "MAX_CAS_ROUNDS = 16"

definition install_cache :: "manifest_version \<Rightarrow> manifest_record \<Rightarrow> manifest \<Rightarrow> manifest" where
  "install_cache v r mf = mf\<lparr>mf_version := v, mf_record := r\<rparr>"

definition install_update :: "manifest_update \<Rightarrow> manifest \<Rightarrow> manifest" where
  "install_update u mf =
     (if version_number (mf_version mf) \<le> version_number (mu_version u)
      then install_cache (mu_version u) (mu_record u) mf else mf)"

definition debug_strs :: "string list \<Rightarrow> string" where
  "debug_strs bs =
     ''['' @ (case bs of [] \<Rightarrow> [] | b # rest \<Rightarrow> debug_str b @ concat (map (\<lambda>x. '', '' @ debug_str x) rest)) @ '']''"

definition validate_configuration :: "manifest \<Rightarrow> manifest_record \<Rightarrow> protocol_error + unit" where
  "validate_configuration mf r =
     (if length (mr_buckets r) \<noteq> length (mf_bucket_names mf)
      then Inl (PE_InvalidManifest (''manifest records '' @ show_dec (length (mr_buckets r))
             @ '' zonal buckets but the volume is configured with ''
             @ show_dec (length (mf_bucket_names mf)) @ '' replicas''))
      else if mr_buckets r \<noteq> mf_bucket_names mf
      then Inl (PE_InvalidManifest (''manifest records buckets '' @ debug_strs (mr_buckets r)
             @ '' but the volume is configured with '' @ debug_strs (mf_bucket_names mf)))
      else Inr ())"

definition adopt_state :: "manifest \<Rightarrow> versioned_manifest \<Rightarrow> (protocol_error + unit) \<times> manifest" where
  "adopt_state mf st =
     (case and_then (decode_record (vm_fields st)) (\<lambda>r.
        and_then (validate_configuration mf r) (\<lambda>_. Inr r)) of
        Inl e \<Rightarrow> (Inl e, mf)
      | Inr r \<Rightarrow> (Inr (), install_cache (vm_version st) r mf))"

text \<open>The attempts of \<open>refresh\<close>; the first argument counts those that are left.\<close>

fun refresh_attempts ::
  "nat \<Rightarrow> 'w manifest_store \<Rightarrow> manifest \<Rightarrow> ('w, (protocol_error + unit) \<times> manifest) state" where
  "refresh_attempts 0 store mf = State_Monad.return (Inl PE_ManifestUnavailable, mf)"
| "refresh_attempts (Suc left) store mf = do {
     r \<leftarrow> ms_read store;
     case r of
       Inr (Some st) \<Rightarrow> State_Monad.return (adopt_state mf st)
     | Inr None \<Rightarrow>
         (let initial = initial_record (mf_bucket_names mf)
          in case validate initial of
               Inl e \<Rightarrow> State_Monad.return (Inl e, mf)
             | Inr _ \<Rightarrow> do {
                 c \<leftarrow> ms_create store (encode_record initial);
                 case c of
                   Inr st \<Rightarrow> State_Monad.return (Inr (), install_cache (vm_version st) initial mf)
                 | Inl RegisterExists \<Rightarrow> refresh_attempts left store mf
                 | Inl Conflict \<Rightarrow> refresh_attempts left store mf
                 | Inl (StoreUnavailable _) \<Rightarrow> refresh_attempts left store mf
                 | Inl e \<Rightarrow> State_Monad.return (Inl (PE_ManifestStore e), mf)
               })
     | Inl (StoreUnavailable _) \<Rightarrow> refresh_attempts left store mf
     | Inl e \<Rightarrow> State_Monad.return (Inl (PE_ManifestStore e), mf)
   }"

definition refresh ::
  "'w manifest_store \<Rightarrow> manifest \<Rightarrow> ('w, (protocol_error + unit) \<times> manifest) state" where
  "refresh store mf = refresh_attempts (Suc (max_retries (mf_config mf))) store mf"

fun refresh_existing_attempts ::
  "nat \<Rightarrow> 'w manifest_store \<Rightarrow> manifest \<Rightarrow> ('w, (protocol_error + bool) \<times> manifest) state" where
  "refresh_existing_attempts 0 store mf = State_Monad.return (Inl PE_ManifestUnavailable, mf)"
| "refresh_existing_attempts (Suc left) store mf = do {
     r \<leftarrow> ms_read store;
     case r of
       Inr (Some st) \<Rightarrow> State_Monad.return (case adopt_state mf st of
           (Inl e, mf') \<Rightarrow> (Inl e, mf')
         | (Inr _, mf') \<Rightarrow> (Inr True, mf'))
     | Inr None \<Rightarrow> State_Monad.return (Inr False, mf)
     | Inl (StoreUnavailable _) \<Rightarrow> refresh_existing_attempts left store mf
     | Inl e \<Rightarrow> State_Monad.return (Inl (PE_ManifestStore e), mf)
   }"

definition refresh_existing ::
  "'w manifest_store \<Rightarrow> manifest \<Rightarrow> ('w, (protocol_error + bool) \<times> manifest) state" where
  "refresh_existing store mf = refresh_existing_attempts (Suc (max_retries (mf_config mf))) store mf"

text \<open>The handle both ways of opening start from.\<close>

definition new_handle ::
  "'w manifest_store \<Rightarrow> client_config \<Rightarrow> string \<Rightarrow> nat \<Rightarrow> string list \<Rightarrow> protocol_error + manifest" where
  "new_handle store cfg owner replica_count bucket_names =
     and_then (validate_bucket_names bucket_names) (\<lambda>_.
       if replica_count \<noteq> length bucket_names
       then Inl (PE_InvalidManifest (''volume has '' @ show_dec replica_count @ '' replica factories but ''
              @ show_dec (length bucket_names) @ '' bucket identities''))
       else let initial = initial_record bucket_names
            in and_then (validate initial) (\<lambda>_.
              Inr \<lparr>mf_config = cfg, mf_owner = owner, mf_epoch = 0, mf_bucket_names = bucket_names,
                   mf_max_directory_bytes = ms_max_directory_bytes store,
                   mf_version = ManifestVersion 0, mf_record = initial\<rparr>))"

definition open_manifest ::
  "'w manifest_store \<Rightarrow> client_config \<Rightarrow> string \<Rightarrow> nat \<Rightarrow> string list
     \<Rightarrow> ('w, protocol_error + manifest) state" where
  "open_manifest store cfg owner replica_count bucket_names =
     (case new_handle store cfg owner replica_count bucket_names of
        Inl e \<Rightarrow> State_Monad.return (Inl e)
      | Inr mf \<Rightarrow> do {
          (r, mf') \<leftarrow> refresh store mf;
          State_Monad.return (and_then r (\<lambda>_. Inr mf'))
        })"

definition open_existing ::
  "'w manifest_store \<Rightarrow> client_config \<Rightarrow> string \<Rightarrow> nat \<Rightarrow> string list
     \<Rightarrow> ('w, protocol_error + manifest option) state" where
  "open_existing store cfg owner replica_count bucket_names =
     (case new_handle store cfg owner replica_count bucket_names of
        Inl e \<Rightarrow> State_Monad.return (Inl e)
      | Inr mf \<Rightarrow> do {
          (r, mf') \<leftarrow> refresh_existing store mf;
          State_Monad.return (and_then r (\<lambda>found. Inr (if found then Some mf' else None)))
        })"


section \<open>Compare and swap\<close>

fun is_unavailable :: "manifest_store_error \<Rightarrow> bool" where
  "is_unavailable (StoreUnavailable _) = True"
| "is_unavailable _ = False"

text \<open>The rounds of \<open>cas_transform\<close>; the first argument counts those that are left.\<close>

fun cas_rounds ::
  "nat \<Rightarrow> 'w manifest_store \<Rightarrow> protocol_error \<Rightarrow> (manifest_record \<Rightarrow> protocol_error + 'a cas_outcome)
     \<Rightarrow> manifest \<Rightarrow> ('w, (protocol_error + 'a) \<times> manifest) state" where
  "cas_rounds 0 store exhausted transform mf = State_Monad.return (Inl exhausted, mf)"
| "cas_rounds (Suc left) store exhausted transform mf =
     (case transform (mf_record mf) of
        Inl e \<Rightarrow> State_Monad.return (Inl e, mf)
      | Inr (Done v) \<Rightarrow> State_Monad.return (Inr v, mf)
      | Inr (Update next v) \<Rightarrow>
          (case validate next of
             Inl e \<Rightarrow> State_Monad.return (Inl e, mf)
           | Inr _ \<Rightarrow> do {
               u \<leftarrow> ms_update store (mf_version mf) (encode_record next);
               case u of
                 Inr st \<Rightarrow> State_Monad.return (Inr v, install_cache (vm_version st) next mf)
               | Inl e \<Rightarrow>
                   if e = Conflict \<or> is_unavailable e then do {
                     (r, mf') \<leftarrow> refresh store mf;
                     case r of
                       Inl e2 \<Rightarrow> State_Monad.return (Inl e2, mf')
                     | Inr _ \<Rightarrow> cas_rounds left store exhausted transform mf'
                   }
                   else State_Monad.return (Inl (PE_ManifestStore e), mf)
             }))"

definition cas_transform ::
  "'w manifest_store \<Rightarrow> protocol_error \<Rightarrow> (manifest_record \<Rightarrow> protocol_error + 'a cas_outcome)
     \<Rightarrow> manifest \<Rightarrow> ('w, (protocol_error + 'a) \<times> manifest) state" where
  "cas_transform store exhausted transform mf = cas_rounds MAX_CAS_ROUNDS store exhausted transform mf"

declare cas_rounds.simps(2) [simp del] refresh_attempts.simps(2) [simp del]
  refresh_existing_attempts.simps(2) [simp del]

definition require_claim :: "manifest \<Rightarrow> protocol_error + unit" where
  "require_claim mf = (if mf_epoch mf = 0 then Inl (PE_Fenced ''manifest mutation without a claim'') else Inr ())"

definition check_claim :: "manifest_record \<Rightarrow> nat \<Rightarrow> string \<Rightarrow> protocol_error + unit" where
  "check_claim r epoch owner =
     (if mr_epoch r \<noteq> epoch \<or> mr_owner r \<noteq> owner
      then Inl (PE_Fenced ''a higher epoch claimed the manifest'') else Inr ())"


section \<open>Transforms\<close>

definition claim_transform :: "string \<Rightarrow> manifest_record \<Rightarrow> protocol_error + nat cas_outcome" where
  "claim_transform owner r =
     and_then (ok_or (checked_add u64_max (mr_epoch r) 1) (PE_InvalidManifest ''epoch overflowed u64'')) (\<lambda>candidate.
       Inr (Update (r\<lparr>mr_epoch := candidate, mr_owner := owner,
         mr_tail_id := (case mr_tail_id r of None \<Rightarrow> Some (segment_id candidate 0) | Some t \<Rightarrow> Some t)\<rparr>) candidate))"

definition register_pending_transform ::
  "nat \<Rightarrow> string \<Rightarrow> string \<Rightarrow> manifest_record \<Rightarrow> protocol_error + unit cas_outcome" where
  "register_pending_transform epoch owner pending_id r =
     and_then (check_claim r epoch owner) (\<lambda>_.
       case mr_pending_id r of
         Some c \<Rightarrow>
           if c = pending_id then Inr (Done ())
           else Inl (PE_Fenced (''pending segment slot already contains '' @ c))
       | None \<Rightarrow> Inr (Update (r\<lparr>mr_pending_id := Some pending_id\<rparr>) ()))"

definition replace_empty_frontier_transform ::
  "nat \<Rightarrow> string \<Rightarrow> string option \<Rightarrow> string option \<Rightarrow> nat \<Rightarrow> string \<Rightarrow> string
     \<Rightarrow> manifest_record \<Rightarrow> protocol_error + unit cas_outcome" where
  "replace_empty_frontier_transform epoch owner expected_tail_id expected_pending_id tail_base active_id pending_id r =
     and_then (check_claim r epoch owner) (\<lambda>_.
       if mr_tail_id r = Some active_id \<and> mr_pending_id r = Some pending_id \<and> mr_tail_base r = tail_base
       then Inr (Done ())
       else if mr_tail_id r \<noteq> expected_tail_id \<or> mr_pending_id r \<noteq> expected_pending_id
            \<or> mr_tail_base r \<noteq> tail_base
       then Inl (PE_Fenced ''manifest no longer matches the empty frontier'')
       else Inr (Update (r\<lparr>mr_tail_id := Some active_id, mr_pending_id := Some pending_id\<rparr>) ()))"

definition show_crc_opt :: "nat option \<Rightarrow> string" where
  "show_crc_opt = debug_opt show_dec"

text \<open>The fold was already committed by an earlier attempt.\<close>

definition fold_committed :: "pending_fold \<Rightarrow> manifest_record \<Rightarrow> bool" where
  "fold_committed f r \<longleftrightarrow>
     mr_tail_id r = Some (pf_successor_tail_id f)
   \<and> mr_tail_base r = saturating_add u64_max (pf_old_tail_end f) 1
   \<and> mr_pending_id r = Some (pf_refill_pending_id f)
   \<and> mr_seal_id r = Some (pf_old_tail_id f)
   \<and> mr_seal_base r = Some (pf_old_tail_base f)
   \<and> mr_seal_digest r = Some (pf_old_tail_digest f)"

definition committed_crc :: "pending_fold \<Rightarrow> manifest_record \<Rightarrow> nat option" where
  "committed_crc f r =
     (if mr_segments r = [] then None
      else let e = last (mr_segments r)
           in if de_id e = pf_old_tail_id f \<and> de_base e = pf_old_tail_base f then Some (de_crc32c e) else None)"

definition fold_pending_transform ::
  "nat \<Rightarrow> string \<Rightarrow> nat \<Rightarrow> pending_fold \<Rightarrow> manifest_record \<Rightarrow> protocol_error + unit cas_outcome" where
  "fold_pending_transform epoch owner max_directory_bytes f r =
     and_then (check_claim r epoch owner) (\<lambda>_.
       if fold_committed f r then
         (if committed_crc f r \<noteq> Some (pf_old_tail_crc32c f)
          then Inl (PE_InvalidManifest (''committed fold checksum '' @ show_crc_opt (committed_crc f r)
                 @ '' differs from retry '' @ pad_zero 8 (show_hex (pf_old_tail_crc32c f))))
          else Inr (Done ()))
       else if mr_tail_id r \<noteq> Some (pf_old_tail_id f) \<or> mr_tail_base r \<noteq> pf_old_tail_base f
            \<or> mr_pending_id r \<noteq> Some (pf_consumed_pending_id f)
       then Inl (PE_Fenced ''manifest no longer matches the pending fold'')
       else if checked_add u64_max (pf_old_tail_end f) 1 = None
       then Inl (PE_InvalidManifest ''pending fold tail end overflowed u64'')
       else if \<not> directory_has_room r 1 max_directory_bytes then Inl PE_SegmentDirectoryFull
       else Inr (Update (r\<lparr>mr_segments := mr_segments r @ [\<lparr>de_id = pf_old_tail_id f,
                   de_base = pf_old_tail_base f, de_crc32c = pf_old_tail_crc32c f\<rparr>],
                 mr_tail_base := pf_old_tail_end f + 1,
                 mr_tail_id := Some (pf_successor_tail_id f),
                 mr_pending_id := Some (pf_refill_pending_id f),
                 mr_seal_base := Some (pf_old_tail_base f),
                 mr_seal_id := Some (pf_old_tail_id f),
                 mr_seal_digest := Some (pf_old_tail_digest f)\<rparr>) ()))"

definition raise_trunc_transform ::
  "writer_claim \<Rightarrow> nat \<Rightarrow> manifest_record \<Rightarrow> protocol_error + unit cas_outcome" where
  "raise_trunc_transform cl floor r =
     and_then (check_claim r (wc_epoch cl) (wc_owner cl)) (\<lambda>_.
       if floor \<le> mr_trunc r then Inr (Done ()) else Inr (Update (r\<lparr>mr_trunc := floor\<rparr>) ()))"

definition remove_segments_transform ::
  "string set \<Rightarrow> nat \<Rightarrow> manifest_record \<Rightarrow> protocol_error + unit cas_outcome" where
  "remove_segments_transform ids witnessed_floor r =
     and_then (validate_removals r ids witnessed_floor) (\<lambda>_.
       if \<not> list_ex (\<lambda>e. de_id e \<in> ids) (mr_segments r) then Inr (Done ())
       else Inr (Update (r\<lparr>mr_segments := filter (\<lambda>e. de_id e \<notin> ids) (mr_segments r)\<rparr>) ()))"


section \<open>Mutators\<close>

definition claim ::
  "'w manifest_store \<Rightarrow> manifest \<Rightarrow> ('w, (protocol_error + unit) \<times> manifest) state" where
  "claim store mf = do {
     (r, mf') \<leftarrow> cas_transform store (PE_Fenced ''manifest epoch claim did not converge under contention'')
       (claim_transform (mf_owner mf)) mf;
     State_Monad.return (case r of
       Inl e \<Rightarrow> (Inl e, mf')
     | Inr candidate \<Rightarrow> (Inr (), mf'\<lparr>mf_epoch := candidate\<rparr>))
   }"

definition with_claim ::
  "manifest \<Rightarrow> ('w, (protocol_error + unit) \<times> manifest) state
     \<Rightarrow> ('w, (protocol_error + unit) \<times> manifest) state" where
  "with_claim mf m = (case require_claim mf of Inl e \<Rightarrow> State_Monad.return (Inl e, mf) | Inr _ \<Rightarrow> m)"

definition register_pending ::
  "'w manifest_store \<Rightarrow> manifest \<Rightarrow> string \<Rightarrow> ('w, (protocol_error + unit) \<times> manifest) state" where
  "register_pending store mf pending_id =
     with_claim mf (cas_transform store PE_ManifestUnavailable
       (register_pending_transform (mf_epoch mf) (mf_owner mf) pending_id) mf)"

definition replace_empty_frontier ::
  "'w manifest_store \<Rightarrow> manifest \<Rightarrow> string option \<Rightarrow> string option \<Rightarrow> nat \<Rightarrow> string \<Rightarrow> string
     \<Rightarrow> ('w, (protocol_error + unit) \<times> manifest) state" where
  "replace_empty_frontier store mf expected_tail_id expected_pending_id tail_base active_id pending_id =
     with_claim mf (cas_transform store PE_ManifestUnavailable
       (replace_empty_frontier_transform (mf_epoch mf) (mf_owner mf) expected_tail_id expected_pending_id
          tail_base active_id pending_id) mf)"

definition fold_pending ::
  "'w manifest_store \<Rightarrow> manifest \<Rightarrow> pending_fold \<Rightarrow> ('w, (protocol_error + unit) \<times> manifest) state" where
  "fold_pending store mf f =
     with_claim mf (cas_transform store PE_ManifestUnavailable
       (fold_pending_transform (mf_epoch mf) (mf_owner mf) (mf_max_directory_bytes mf) f) mf)"

definition raise_trunc ::
  "'w manifest_store \<Rightarrow> manifest \<Rightarrow> writer_claim \<Rightarrow> nat \<Rightarrow> ('w, (protocol_error + unit) \<times> manifest) state" where
  "raise_trunc store mf cl floor = do {
     (r, mf') \<leftarrow> refresh store mf;
     case r of
       Inl e \<Rightarrow> State_Monad.return (Inl e, mf')
     | Inr _ \<Rightarrow> cas_transform store PE_ManifestUnavailable (raise_trunc_transform cl floor) mf'
   }"

definition remove_segments ::
  "'w manifest_store \<Rightarrow> manifest \<Rightarrow> string set \<Rightarrow> nat \<Rightarrow> ('w, (protocol_error + unit) \<times> manifest) state" where
  "remove_segments store mf ids witnessed_floor =
     (if ids = {} then State_Monad.return (Inr (), mf)
      else cas_transform store PE_ManifestUnavailable (remove_segments_transform ids witnessed_floor) mf)"

definition writer_claim_of :: "manifest \<Rightarrow> protocol_error + writer_claim" where
  "writer_claim_of mf =
     and_then (require_claim mf) (\<lambda>_. Inr \<lparr>wc_epoch = mf_epoch mf, wc_owner = mf_owner mf\<rparr>)"

definition refreshed_record ::
  "'w manifest_store \<Rightarrow> manifest \<Rightarrow> ('w, (protocol_error + manifest_record) \<times> manifest) state" where
  "refreshed_record store mf = do {
     (r, mf') \<leftarrow> refresh store mf;
     State_Monad.return (and_then r (\<lambda>_. Inr (mf_record mf')), mf')
   }"

definition refreshed_existing_record ::
  "'w manifest_store \<Rightarrow> manifest \<Rightarrow> ('w, (protocol_error + manifest_record option) \<times> manifest) state" where
  "refreshed_existing_record store mf = do {
     (r, mf') \<leftarrow> refresh_existing store mf;
     State_Monad.return (and_then r (\<lambda>found. Inr (if found then Some (mf_record mf') else None)), mf')
   }"

definition validate_owner ::
  "'w manifest_store \<Rightarrow> manifest \<Rightarrow> ('w, (protocol_error + unit) \<times> manifest) state" where
  "validate_owner store mf = do {
     (r, mf') \<leftarrow> refresh store mf;
     State_Monad.return (and_then r (\<lambda>_. check_claim (mf_record mf') (mf_epoch mf') (mf_owner mf')), mf')
   }"

text \<open>\<open>ManifestAccess\<close>: a copy of the handle for work off the append path; its result is a
  \<open>ManifestUpdate\<close> that the engine adopts with \<open>install_update\<close>.\<close>

definition off_path_access :: "manifest \<Rightarrow> protocol_error + manifest" where
  "off_path_access mf =
     (if mf_epoch mf = 0 then Inl (PE_Fenced ''manifest background access without a claim'') else Inr mf)"

definition access_result ::
  "(protocol_error + unit) \<times> manifest \<Rightarrow> protocol_error + manifest_update" where
  "access_result p =
     (case p of (r, mf) \<Rightarrow> and_then r (\<lambda>_. Inr \<lparr>mu_version = mf_version mf, mu_record = mf_record mf\<rparr>))"

definition access_register_pending ::
  "'w manifest_store \<Rightarrow> manifest \<Rightarrow> string \<Rightarrow> ('w, protocol_error + manifest_update) state" where
  "access_register_pending store access pending_id = do {
     p \<leftarrow> register_pending store access pending_id;
     State_Monad.return (access_result p)
   }"

definition access_fold_pending ::
  "'w manifest_store \<Rightarrow> manifest \<Rightarrow> pending_fold \<Rightarrow> ('w, protocol_error + manifest_update) state" where
  "access_fold_pending store access f = do {
     p \<leftarrow> fold_pending store access f;
     State_Monad.return (access_result p)
   }"

end
