(* ===== verification/Manifest_History.thy ===== *)
theory Manifest_History
  imports Manifest
begin

text \<open>
  The abstract history of the manifest register: one atomic step per committed
  mutator, issued by any number of clients in any order.  The theory states
  what such histories keep, and that the compare-and-swap loop of \<open>Manifest\<close>
  implements them over any store that honours the register contract.
\<close>

section \<open>Steps\<close>

datatype manifest_command =
    Cmd_Claim string
  | Cmd_Register_Pending nat string string
  | Cmd_Replace_Frontier nat string "string option" "string option" nat string string
  | Cmd_Fold_Pending nat string nat pending_fold
  | Cmd_Raise_Trunc writer_claim nat
  | Cmd_Remove_Segments "string set" nat

fun command_transform :: "manifest_command \<Rightarrow> manifest_record \<Rightarrow> protocol_error + unit cas_outcome" where
  "command_transform (Cmd_Claim owner) r =
     and_then (claim_transform owner r) (\<lambda>t. Inr (map_cas_outcome (\<lambda>_. ()) t))"
| "command_transform (Cmd_Register_Pending e ow p) r = register_pending_transform e ow p r"
| "command_transform (Cmd_Replace_Frontier e ow et ep tb a p) r =
     replace_empty_frontier_transform e ow et ep tb a p r"
| "command_transform (Cmd_Fold_Pending e ow m f) r = fold_pending_transform e ow m f r"
| "command_transform (Cmd_Raise_Trunc cl fl) r = raise_trunc_transform cl fl r"
| "command_transform (Cmd_Remove_Segments ids fl) r = remove_segments_transform ids fl r"

lemma command_transform_fun [simp]:
  "command_transform (Cmd_Register_Pending e ow p) = register_pending_transform e ow p"
  "command_transform (Cmd_Replace_Frontier e ow et ep tb a p) = replace_empty_frontier_transform e ow et ep tb a p"
  "command_transform (Cmd_Fold_Pending e ow m f) = fold_pending_transform e ow m f"
  "command_transform (Cmd_Raise_Trunc cl fl) = raise_trunc_transform cl fl"
  "command_transform (Cmd_Remove_Segments ids fl) = remove_segments_transform ids fl"
  by (rule ext, simp)+

inductive manifest_step :: "manifest_record \<Rightarrow> manifest_command \<Rightarrow> manifest_record \<Rightarrow> bool" where
  commit: "command_transform cmd r = Inr (Update r' ()) \<Longrightarrow> validate r' = Inr () \<Longrightarrow> manifest_step r cmd r'"

inductive manifest_run :: "manifest_record \<Rightarrow> manifest_command list \<Rightarrow> manifest_record \<Rightarrow> bool" where
  start: "manifest_run r [] r"
| step: "manifest_step r cmd r1 \<Longrightarrow> manifest_run r1 cmds r' \<Longrightarrow> manifest_run r (cmd # cmds) r'"

inductive_simps manifest_run_Nil [simp]: "manifest_run r [] r'"
inductive_simps manifest_run_Cons [simp]: "manifest_run r (cmd # cmds) r'"

lemma manifest_run_invariant:
  assumes "\<And>r cmd r'. manifest_step r cmd r' \<Longrightarrow> P cmd \<Longrightarrow> Q r \<Longrightarrow> Q r'"
    and "manifest_run r cmds r'" "Q r" "\<forall>cmd \<in> set cmds. P cmd"
  shows "Q r'"
  using assms(2-4) by (induction rule: manifest_run.induct) (auto intro: assms(1))

text \<open>What one committed command does to the record.\<close>

lemma check_claim_Inr [simp]: "check_claim r e ow = Inr u \<longleftrightarrow> mr_epoch r = e \<and> mr_owner r = ow"
  by (simp add: check_claim_def)

lemma manifest_stepE [consumes 1, case_names claim register replace fold raise remove]:
  assumes "manifest_step r cmd r'"
  obtains
    (claim) owner where "cmd = Cmd_Claim owner" "valid_record r'" "Suc (mr_epoch r) \<le> u64_max"
      "r' = r\<lparr>mr_epoch := Suc (mr_epoch r), mr_owner := owner,
         mr_tail_id := (case mr_tail_id r of None \<Rightarrow> Some (segment_id (Suc (mr_epoch r)) 0) | Some t \<Rightarrow> Some t)\<rparr>"
  | (register) p where "cmd = Cmd_Register_Pending (mr_epoch r) (mr_owner r) p" "valid_record r'"
      "mr_pending_id r = None" "r' = r\<lparr>mr_pending_id := Some p\<rparr>"
  | (replace) a p where
      "cmd = Cmd_Replace_Frontier (mr_epoch r) (mr_owner r) (mr_tail_id r) (mr_pending_id r) (mr_tail_base r) a p"
      "valid_record r'" "r' = r\<lparr>mr_tail_id := Some a, mr_pending_id := Some p\<rparr>"
  | (fold) m f where "cmd = Cmd_Fold_Pending (mr_epoch r) (mr_owner r) m f" "valid_record r'"
      "mr_tail_id r = Some (pf_old_tail_id f)" "mr_tail_base r = pf_old_tail_base f"
      "mr_pending_id r = Some (pf_consumed_pending_id f)" "pf_old_tail_end f + 1 \<le> u64_max"
      "directory_has_room r 1 m"
      "r' = r\<lparr>mr_segments := mr_segments r @ [\<lparr>de_id = pf_old_tail_id f, de_base = pf_old_tail_base f,
                de_crc32c = pf_old_tail_crc32c f\<rparr>],
              mr_tail_base := pf_old_tail_end f + 1, mr_tail_id := Some (pf_successor_tail_id f),
              mr_pending_id := Some (pf_refill_pending_id f), mr_seal_base := Some (pf_old_tail_base f),
              mr_seal_id := Some (pf_old_tail_id f), mr_seal_digest := Some (pf_old_tail_digest f)\<rparr>"
  | (raise) cl fl where "cmd = Cmd_Raise_Trunc cl fl" "valid_record r'"
      "wc_epoch cl = mr_epoch r" "wc_owner cl = mr_owner r" "mr_trunc r < fl" "r' = r\<lparr>mr_trunc := fl\<rparr>"
  | (remove) ids fl where "cmd = Cmd_Remove_Segments ids fl" "valid_record r'"
      "validate_removals r ids fl = Inr ()"
      "r' = r\<lparr>mr_segments := filter (\<lambda>e. de_id e \<notin> ids) (mr_segments r)\<rparr>"
proof -
  from assms have t: "command_transform cmd r = Inr (Update r' ())" and v: "valid_record r'"
    by (auto simp: validate_Inr elim: manifest_step.cases)
  show thesis
  proof (cases cmd)
    case (Cmd_Claim owner)
    with t v show ?thesis
      by (intro claim) (auto simp: claim_transform_def and_then_Inr_iff ok_or_Inr_iff checked_add_def split: if_splits)
  next
    case (Cmd_Register_Pending e ow p)
    with t v show ?thesis
      by (intro register) (auto simp: register_pending_transform_def and_then_Inr_iff split: option.splits if_splits)
  next
    case (Cmd_Replace_Frontier e ow et ep tb a p)
    with t v show ?thesis
      by (intro replace) (auto simp: replace_empty_frontier_transform_def and_then_Inr_iff split: if_splits)
  next
    case (Cmd_Fold_Pending e ow m f)
    with t v show ?thesis
      by (intro fold)
        (auto simp: fold_pending_transform_def and_then_Inr_iff checked_add_def split: if_splits)
  next
    case (Cmd_Raise_Trunc cl fl)
    with t v show ?thesis
      by (intro raise) (auto simp: raise_trunc_transform_def and_then_Inr_iff split: if_splits)
  next
    case (Cmd_Remove_Segments ids fl)
    with t v show ?thesis
      by (intro remove) (auto simp: remove_segments_transform_def and_then_Inr_iff split: if_splits)
  qed
qed


section \<open>Ownership and monotonicity\<close>

definition later_record :: "manifest_record \<Rightarrow> manifest_record \<Rightarrow> bool" where
  "later_record r r' \<longleftrightarrow>
     mr_epoch r \<le> mr_epoch r' \<and> (mr_epoch r = mr_epoch r' \<longrightarrow> mr_owner r = mr_owner r')
   \<and> mr_trunc r \<le> mr_trunc r' \<and> mr_tail_base r \<le> mr_tail_base r' \<and> mr_buckets r = mr_buckets r'"

lemma later_record_refl [simp]: "later_record r r"
  by (simp add: later_record_def)

lemma later_record_trans: "later_record r r1 \<Longrightarrow> later_record r1 r' \<Longrightarrow> later_record r r'"
  by (auto simp: later_record_def)

lemma manifest_step_later:
  assumes "manifest_step r cmd r'"
  shows "later_record r r'"
  using assms
proof (cases rule: manifest_stepE)
  case (fold m f)
  then have "pf_old_tail_base f < pf_old_tail_end f + 1" by (simp add: valid_record_def valid_directory_def)
  with fold show ?thesis by (simp add: later_record_def)
qed (simp_all add: later_record_def)

lemma manifest_run_later: "manifest_run r cmds r' \<Longrightarrow> later_record r r'"
  by (induction rule: manifest_run.induct) (auto intro: later_record_trans manifest_step_later)

text \<open>The commands a writer issues under its claim.\<close>

fun issued_under :: "manifest_command \<Rightarrow> nat \<Rightarrow> string \<Rightarrow> bool" where
  "issued_under (Cmd_Claim _) e ow = False"
| "issued_under (Cmd_Register_Pending e' ow' _) e ow \<longleftrightarrow> e' = e \<and> ow' = ow"
| "issued_under (Cmd_Replace_Frontier e' ow' _ _ _ _ _) e ow \<longleftrightarrow> e' = e \<and> ow' = ow"
| "issued_under (Cmd_Fold_Pending e' ow' _ _) e ow \<longleftrightarrow> e' = e \<and> ow' = ow"
| "issued_under (Cmd_Raise_Trunc cl _) e ow \<longleftrightarrow> wc_epoch cl = e \<and> wc_owner cl = ow"
| "issued_under (Cmd_Remove_Segments _ _) e ow = False"

lemma issued_under_fenced:
  assumes "issued_under cmd e ow" "mr_epoch r \<noteq> e \<or> mr_owner r \<noteq> ow"
  shows "command_transform cmd r = Inl (PE_Fenced ''a higher epoch claimed the manifest'')"
  using assms
  by (cases cmd)
    (auto simp: check_claim_def register_pending_transform_def replace_empty_frontier_transform_def
      fold_pending_transform_def raise_trunc_transform_def)


section \<open>The sealed history\<close>

text \<open>The directory entry of a record index: the last one that starts at or before it.\<close>

definition segment_of :: "manifest_record \<Rightarrow> nat \<Rightarrow> directory_entry option" where
  "segment_of r i =
     (if i < mr_tail_base r then List.find (\<lambda>e. de_base e \<le> i) (rev (mr_segments r)) else None)"

lemma check_removals_end:
  "check_removals tb ids fl (xs @ e # ys) = Inr () \<Longrightarrow> de_id e \<in> ids \<Longrightarrow> next_base tb ys \<le> fl"
  by (induction xs)
    (auto simp: and_then_Inr_iff ok_or_Inr_iff checked_sub_def split: if_splits)

lemma find_rev_filter:
  assumes "\<And>xs e ys. es = xs @ e # ys \<Longrightarrow> P e \<Longrightarrow> (\<forall>y \<in> set ys. \<not> P y) \<Longrightarrow> K e"
  shows "List.find P (rev (filter K es)) = List.find P (rev es)"
  using assms
proof (induction es rule: rev_induct)
  case (snoc x es)
  show ?case
  proof (cases "P x")
    case True
    then have "K x" using snoc.prems [of es x "[]"] by simp
    with True show ?thesis by simp
  next
    case False
    have "List.find P (rev (filter K es)) = List.find P (rev es)"
    proof (rule snoc.IH)
      fix xs e ys
      assume "es = xs @ e # ys" "P e" "\<forall>y \<in> set ys. \<not> P y"
      then show "K e" using snoc.prems [of xs e "ys @ [x]"] False by simp
    qed
    with False show ?thesis by simp
  qed
qed simp

lemma removal_keeps_segment_of:
  assumes "validate_removals r ids fl = Inr ()" "valid_directory (mr_tail_base r) (mr_segments r)"
    and "mr_trunc r \<le> i" "i < mr_tail_base r"
  shows "segment_of (r\<lparr>mr_segments := filter (\<lambda>e. de_id e \<notin> ids) (mr_segments r)\<rparr>) i = segment_of r i"
proof -
  have fl: "fl \<le> mr_trunc r" and rem: "check_removals (mr_tail_base r) ids fl (mr_segments r) = Inr ()"
    using assms(1) by (auto simp: validate_removals_def split: if_splits)
  have "List.find (\<lambda>e. de_base e \<le> i) (rev (filter (\<lambda>e. de_id e \<notin> ids) (mr_segments r)))
      = List.find (\<lambda>e. de_base e \<le> i) (rev (mr_segments r))"
  proof (rule find_rev_filter)
    fix xs e ys
    assume seg: "mr_segments r = xs @ e # ys" and "de_base e \<le> i" and above: "\<forall>y \<in> set ys. \<not> de_base y \<le> i"
    have "i < next_base (mr_tail_base r) ys" using above assms(4) by (cases ys) auto
    then show "de_id e \<notin> ids"
      using check_removals_end [of "mr_tail_base r" ids fl xs e ys] rem seg fl assms(3) by auto
  qed
  then show ?thesis by (simp add: segment_of_def)
qed

lemma manifest_step_segment_of:
  assumes "manifest_step r cmd r'" "valid_record r" "mr_trunc r \<le> i" "i < mr_tail_base r"
  shows "segment_of r' i = segment_of r i"
  using assms(1)
proof (cases rule: manifest_stepE)
  case (fold m f)
  then have "pf_old_tail_base f < pf_old_tail_end f + 1" by (simp add: valid_record_def valid_directory_def)
  with fold assms(4) show ?thesis by (simp add: segment_of_def)
next
  case (remove ids fl)
  then show ?thesis using removal_keeps_segment_of assms by (simp add: valid_record_def)
qed (use assms(4) in \<open>simp_all add: segment_of_def\<close>)

text \<open>Every retained index below the active tail lies in some sealed segment.\<close>

definition history_covered :: "manifest_record \<Rightarrow> bool" where
  "history_covered r \<longleftrightarrow> (\<forall>i. mr_trunc r \<le> i \<longrightarrow> i < mr_tail_base r \<longrightarrow> segment_of r i \<noteq> None)"

lemma segment_of_None: "segment_of r i = None \<longleftrightarrow> mr_tail_base r \<le> i \<or> (\<forall>e \<in> set (mr_segments r). i < de_base e)"
  by (auto simp: segment_of_def find_None_iff not_le)

lemma manifest_step_covered:
  assumes "manifest_step r cmd r'" "valid_record r" "history_covered r"
  shows "history_covered r'"
  unfolding history_covered_def
proof (intro allI impI)
  fix i
  assume i: "mr_trunc r' \<le> i" "i < mr_tail_base r'"
  have "mr_trunc r \<le> i" using i(1) manifest_step_later [OF assms(1)] by (simp add: later_record_def)
  show "segment_of r' i \<noteq> None"
  proof (cases "i < mr_tail_base r")
    case True
    then show ?thesis
      using manifest_step_segment_of [OF assms(1,2)] assms(3) \<open>mr_trunc r \<le> i\<close> by (simp add: history_covered_def)
  next
    case False
    with assms(1) i show ?thesis
      by (cases rule: manifest_stepE) (auto simp: segment_of_None)
  qed
qed


section \<open>Readability\<close>

definition clean_id :: "string \<Rightarrow> bool" where
  "clean_id s \<longleftrightarrow> s \<noteq> [] \<and> CHR '','' \<notin> set s \<and> CHR '':'' \<notin> set s"

text \<open>The arguments the code passes: segment ids, checksums and floors in range.\<close>

fun command_ok :: "manifest_command \<Rightarrow> bool" where
  "command_ok (Cmd_Fold_Pending _ _ _ f) \<longleftrightarrow> clean_id (pf_old_tail_id f) \<and> pf_old_tail_crc32c f \<le> u32_max"
| "command_ok (Cmd_Raise_Trunc _ fl) \<longleftrightarrow> fl \<le> u64_max"
| "command_ok _ = True"

lemma wf_initial: "valid_buckets bs \<Longrightarrow> wf_record (initial_record bs)"
  by (simp add: wf_record_def initial_record_def valid_record_def valid_directory_def
      valid_pending_def valid_last_seal_def)

lemma manifest_step_wf:
  assumes "manifest_step r cmd r'" "command_ok cmd" "wf_record r"
  shows "wf_record r'"
  using assms(1)
proof (cases rule: manifest_stepE)
  case (fold m f)
  then show ?thesis using assms(2,3)
    by (auto simp: wf_record_def wf_entry_def clean_id_def)
qed (use assms(2,3) in \<open>auto simp: wf_record_def\<close>)


definition keeps_wf :: "(manifest_record \<Rightarrow> protocol_error + 'a cas_outcome) \<Rightarrow> bool" where
  "keeps_wf f \<longleftrightarrow>
     (\<forall>r r' v. f r = Inr (Update r' v) \<longrightarrow> wf_record r \<longrightarrow> valid_record r' \<longrightarrow> wf_record r')"

lemma keeps_wf_command: "command_ok cmd \<Longrightarrow> keeps_wf (command_transform cmd)"
  unfolding keeps_wf_def
proof (intro allI impI)
  fix r r' and v :: unit
  assume "command_ok cmd" "command_transform cmd r = Inr (Update r' v)" "wf_record r" "valid_record r'"
  then show "wf_record r'"
    using manifest_step_wf [OF manifest_step.commit [of cmd r r']] by (simp add: validate_Inr)
qed

lemma keeps_wf_claim: "keeps_wf (claim_transform owner)"
  unfolding keeps_wf_def
proof (intro allI impI)
  fix r r' v
  assume "claim_transform owner r = Inr (Update r' v)" "wf_record r" "valid_record r'"
  then show "wf_record r'"
    using manifest_step_wf [OF manifest_step.commit [of "Cmd_Claim owner" r r']] by (simp add: validate_Inr)
qed


section \<open>Contract of a register\<close>

text \<open>
  The history of a register is the list of its contents, oldest first, each with
  the version it was written under.  Versions grow along it, so that a version
  names the contents it was written with.
\<close>

definition ordered_history :: "versioned_manifest list \<Rightarrow> bool" where
  "ordered_history hs \<longleftrightarrow> sorted_wrt (\<lambda>s t. version_number (vm_version s) < version_number (vm_version t)) hs"

definition contents :: "versioned_manifest list \<Rightarrow> versioned_manifest option" where
  "contents hs = (if hs = [] then None else Some (last hs))"

lemma ordered_history_unique:
  "ordered_history hs \<Longrightarrow> s \<in> set hs \<Longrightarrow> t \<in> set hs \<Longrightarrow> vm_version s = vm_version t \<Longrightarrow> s = t"
  by (induction hs) (auto simp: ordered_history_def)

text \<open>Between two worlds the history only gets longer, and stays ordered.\<close>

definition history_grows :: "('w \<Rightarrow> versioned_manifest list) \<Rightarrow> 'w \<Rightarrow> 'w \<Rightarrow> bool" where
  "history_grows hist w w' \<longleftrightarrow> prefix (hist w) (hist w') \<and> (ordered_history (hist w) \<longrightarrow> ordered_history (hist w'))"

lemma history_grows_refl [simp]: "history_grows hist w w"
  by (simp add: history_grows_def)

lemma history_grows_trans: "history_grows hist w w1 \<Longrightarrow> history_grows hist w1 w' \<Longrightarrow> history_grows hist w w'"
  by (auto simp: history_grows_def intro: prefix_order.trans)

text \<open>The handle's cache is some earlier or current contents of the register.\<close>

definition coherent :: "('w \<Rightarrow> versioned_manifest list) \<Rightarrow> manifest \<Rightarrow> 'w \<Rightarrow> bool" where
  "coherent hist mf w \<longleftrightarrow>
     (\<exists>s \<in> set (hist w). vm_version s = mf_version mf \<and> decode_record (vm_fields s) = Inr (mf_record mf))"

text \<open>\<open>s\<close> was the contents at some moment between two worlds.\<close>

definition instant :: "('w \<Rightarrow> versioned_manifest list) \<Rightarrow> 'w \<Rightarrow> versioned_manifest \<Rightarrow> 'w \<Rightarrow> bool" where
  "instant hist w s w' \<longleftrightarrow> (\<exists>h. prefix (hist w) (h @ [s]) \<and> prefix (h @ [s]) (hist w'))"

text \<open>A transform took effect: between the two worlds the contents it was computed from were replaced by its result,
  with nothing in between.\<close>

definition commits ::
  "('w \<Rightarrow> versioned_manifest list) \<Rightarrow> 'w \<Rightarrow> manifest_record \<Rightarrow> manifest_record \<Rightarrow> 'w \<Rightarrow> bool" where
  "commits hist w r r' w' \<longleftrightarrow>
     (\<exists>h s t. prefix (hist w) (h @ [s]) \<and> prefix (h @ [s, t]) (hist w')
        \<and> decode_record (vm_fields s) = Inr r \<and> vm_fields t = encode_record r')"

definition same_handle :: "manifest \<Rightarrow> manifest \<Rightarrow> bool" where
  "same_handle mf mf' \<longleftrightarrow> mf_epoch mf' = mf_epoch mf \<and> mf_owner mf' = mf_owner mf
     \<and> mf_bucket_names mf' = mf_bucket_names mf \<and> mf_max_directory_bytes mf' = mf_max_directory_bytes mf"

lemma instant_before: "history_grows hist w w1 \<Longrightarrow> instant hist w1 s w' \<Longrightarrow> instant hist w s w'"
  by (auto simp: instant_def history_grows_def intro: prefix_order.trans)

lemma instant_after: "instant hist w s w1 \<Longrightarrow> history_grows hist w1 w' \<Longrightarrow> instant hist w s w'"
  by (auto simp: instant_def history_grows_def intro: prefix_order.trans)

lemma commits_before: "history_grows hist w w1 \<Longrightarrow> commits hist w1 r r' w' \<Longrightarrow> commits hist w r r' w'"
  unfolding commits_def history_grows_def by (meson prefix_order.trans)

lemma instant_coherent:
  "instant hist w s w' \<Longrightarrow> vm_version s = mf_version mf \<Longrightarrow> decode_record (vm_fields s) = Inr (mf_record mf) \<Longrightarrow> coherent hist mf w'"
  by (auto simp: instant_def coherent_def prefix_def)

lemma commits_instant:
  assumes "commits hist w r r' w'" "wf_record r'"
  shows "\<exists>s. instant hist w s w' \<and> decode_record (vm_fields s) = Inr r'"
proof -
  obtain h s t where c: "prefix (hist w) (h @ [s])" "prefix (h @ [s, t]) (hist w')" "vm_fields t = encode_record r'"
    using assms(1) by (auto simp: commits_def)
  have "prefix (hist w) ((h @ [s]) @ [t])" by (rule prefix_order.trans [OF c(1)]) simp
  then have "instant hist w t w'" unfolding instant_def using c(2) by (intro exI [of _ "h @ [s]"]) simp
  then show ?thesis using c(3) decode_encode_record [OF assms(2)] by auto
qed

text \<open>
  The semantics the \<open>ManifestStore\<close> trait requires.  Other clients may move the
  register before and after the moment a call takes effect.  A read returns the
  contents of one moment of the call; a creation initialises a register that had
  no history; a successful update replaced, at one moment of the call, contents
  that still carried the witnessed version; a failed call may or may not have
  taken effect.
\<close>

locale manifest_register =
  fixes store :: "'w manifest_store" and hist :: "'w \<Rightarrow> versioned_manifest list"
  assumes read_instant: "run_state (ms_read store) w = (Inr x, w') \<Longrightarrow>
      \<exists>h. prefix (hist w) h \<and> prefix h (hist w') \<and> x = contents h"
    and create_instant: "run_state (ms_create store f) w = (Inr s, w') \<Longrightarrow>
      hist w = [] \<and> vm_fields s = f \<and> prefix [s] (hist w')"
    and update_instant: "run_state (ms_update store v f) w = (Inr s, w') \<Longrightarrow>
      \<exists>h cur. prefix (hist w) (h @ [cur]) \<and> vm_version cur = v \<and> vm_fields s = f \<and> prefix (h @ [cur, s]) (hist w')"
    and read_grows: "run_state (ms_read store) w = (y, w') \<Longrightarrow> history_grows hist w w'"
    and create_grows: "run_state (ms_create store f) w = (z, w') \<Longrightarrow> history_grows hist w w'"
    and update_grows: "run_state (ms_update store v f) w = (z, w') \<Longrightarrow> history_grows hist w w'"
begin

lemma refresh_observes:
  assumes "valid_buckets (mf_bucket_names mf)"
    and "run_state (refresh_attempts k store mf) w = ((r, mf'), w')"
  shows "history_grows hist w w' \<and> same_handle mf mf'
    \<and> (if r = Inr () then \<exists>s. instant hist w s w' \<and> vm_version s = mf_version mf'
         \<and> decode_record (vm_fields s) = Inr (mf_record mf') else mf' = mf)"
  using assms(2)
proof (induction k arbitrary: w)
  case (Suc k)
  obtain x w1 where rd: "run_state (ms_read store) w = (x, w1)" by fastforce
  have m1: "history_grows hist w w1" by (rule read_grows [OF rd])
  have again: ?case if "history_grows hist w w1" "run_state (refresh_attempts k store mf) w1 = ((r, mf'), w')" for w1
    using Suc.IH [OF that(2)] history_grows_trans [OF that(1)] instant_before [OF that(1)] by (auto split: if_splits)
  show ?case
  proof (cases x)
    case (Inl e)
    then show ?thesis
      using again [OF m1] m1 Suc.prems rd
      by (cases e) (auto simp: refresh_attempts.simps(2) same_handle_def)
  next
    case (Inr y)
    then obtain h where h: "prefix (hist w) h" "prefix h (hist w1)" "y = contents h" using read_instant rd by blast
    show ?thesis
    proof (cases y)
      case (Some st)
      then have "h = butlast h @ [st]" using h(3) by (auto simp: contents_def split: if_splits)
      then have "instant hist w st w1" using h(1,2) unfolding instant_def by metis
      then show ?thesis
        using Suc.prems rd Inr Some m1
        by (auto simp: refresh_attempts.simps(2) adopt_state_def install_cache_def and_then_Inr_iff
            same_handle_def split: sum.splits)
    next
      case None
      then have empty: "hist w = []" using h(1,3) by (auto simp: contents_def split: if_splits)
      let ?init = "initial_record (mf_bucket_names mf)"
      have wf: "wf_record ?init" by (rule wf_initial [OF assms(1)])
      then have v: "validate ?init = Inr ()" by (simp add: validate_Inr wf_record_def)
      obtain c w2 where c: "run_state (ms_create store (encode_record ?init)) w1 = (c, w2)" by fastforce
      have m2: "history_grows hist w w2" using m1 create_grows [OF c] by (rule history_grows_trans)
      show ?thesis
      proof (cases c)
        case (Inl e)
        then show ?thesis
          using again [OF m2] m2 Suc.prems rd \<open>x = Inr y\<close> None v c
          by (cases e) (auto simp: refresh_attempts.simps(2) same_handle_def Let_def)
      next
        case (Inr st)
        then have st: "vm_fields st = encode_record ?init" "prefix [st] (hist w2)" using create_instant c by blast+
        have "instant hist w st w2" unfolding instant_def using empty st(2) by (intro exI [of _ "[]"]) simp
        then show ?thesis
          using Suc.prems rd \<open>x = Inr y\<close> None v c Inr st(1) m2 decode_encode_record [OF wf]
          by (auto simp: refresh_attempts.simps(2) same_handle_def install_cache_def Let_def)
      qed
    qed
  qed
qed (auto simp: same_handle_def)

text \<open>
  A successful run of the loop took effect at one moment: either the transform
  found nothing to do in contents the register had, or its update replaced the
  contents it was computed from.
\<close>

lemma cas_rounds_commits:
  assumes "valid_buckets (mf_bucket_names mf)" "coherent hist mf w" "ordered_history (hist w)"
    and wf: "keeps_wf f"
    and "run_state (cas_rounds k store ex f mf) w = ((Inr v, mf'), w')"
  shows "history_grows hist w w' \<and> same_handle mf mf' \<and> coherent hist mf' w'
    \<and> (f (mf_record mf') = Inr (Done v) \<and> (mf_record mf' = mf_record mf
            \<or> (\<exists>s. instant hist w s w' \<and> decode_record (vm_fields s) = Inr (mf_record mf')))
       \<or> (\<exists>r. f r = Inr (Update (mf_record mf') v) \<and> validate (mf_record mf') = Inr ()
            \<and> commits hist w r (mf_record mf') w'))"
  using assms(1-3,5)
proof (induction k arbitrary: mf w)
  case (Suc k)
  show ?case
  proof (cases "f (mf_record mf)")
    case (Inr t)
    show ?thesis
    proof (cases t)
      case (Done u)
      then show ?thesis using Suc.prems Inr by (simp add: cas_rounds.simps(2) same_handle_def)
    next
      case (Update nx u)
      obtain s where s: "s \<in> set (hist w)" "vm_version s = mf_version mf" "decode_record (vm_fields s) = Inr (mf_record mf)"
        using Suc.prems(2) by (auto simp: coherent_def)
      have v: "validate nx = Inr ()"
        using Suc.prems(4) Inr Update by (auto simp: cas_rounds.simps(2) split: sum.splits)
      then have wfn: "wf_record nx"
        using wf Inr Update decode_record_wf [OF s(3)] by (auto simp: validate_Inr keeps_wf_def)
      obtain c w1 where c: "run_state (ms_update store (mf_version mf) (encode_record nx)) w = (c, w1)"
        by fastforce
      have m1: "history_grows hist w w1" by (rule update_grows [OF c])
      show ?thesis
      proof (cases c)
        case (Inr st)
        then obtain h cur where cur: "prefix (hist w) (h @ [cur])" "vm_version cur = mf_version mf"
            "vm_fields st = encode_record nx" "prefix (h @ [cur, st]) (hist w1)" using update_instant c by blast
        have "cur \<in> set (hist w1)" "s \<in> set (hist w1)"
          using set_mono_prefix [OF cur(4)] s(1) m1 by (auto simp: history_grows_def dest: set_mono_prefix)
        moreover have "ordered_history (hist w1)" using m1 Suc.prems(3) by (simp add: history_grows_def)
        ultimately have "cur = s" using ordered_history_unique cur(2) s(2) by metis
        have eq: "u = v" "mf' = install_cache (vm_version st) nx mf" "w' = w1"
          using Suc.prems(4) \<open>f (mf_record mf) = Inr t\<close> Update v c Inr by (auto simp: cas_rounds.simps(2))
        have "commits hist w (mf_record mf) nx w1"
          unfolding commits_def using cur(1,3,4) s(3) \<open>cur = s\<close> by blast
        moreover have "coherent hist mf' w1"
          using cur(3) set_mono_prefix [OF cur(4)] decode_encode_record [OF wfn] eq by (auto simp: coherent_def install_cache_def)
        ultimately show ?thesis
          using m1 eq v \<open>f (mf_record mf) = Inr t\<close> Update by (auto simp: install_cache_def same_handle_def)
      next
        case (Inl e)
        obtain r mf1 w2 where rf: "run_state (refresh store mf) w1 = ((r, mf1), w2)" by (metis surj_pair)
        have r: "r = Inr ()" and rest: "run_state (cas_rounds k store ex f mf1) w2 = ((Inr v, mf'), w')"
          using Suc.prems(4) \<open>f (mf_record mf) = Inr t\<close> Update v c Inl rf
          by (auto simp: cas_rounds.simps(2) split: sum.splits if_splits)
        note ob = refresh_observes [OF Suc.prems(1) rf [unfolded refresh_def]]
        then obtain s2 where s2: "instant hist w1 s2 w2" "vm_version s2 = mf_version mf1"
            "decode_record (vm_fields s2) = Inr (mf_record mf1)" using r by auto
        have vb: "valid_buckets (mf_bucket_names mf1)" using ob Suc.prems(1) by (simp add: same_handle_def)
        have m2: "history_grows hist w w2" by (rule history_grows_trans [OF m1 ob [THEN conjunct1]])
        have ord: "ordered_history (hist w2)" using m2 Suc.prems(3) by (simp add: history_grows_def)
        note IH = Suc.IH [OF vb instant_coherent [OF s2] ord rest]
        have "instant hist w s2 w'" using instant_after [OF instant_before [OF m1 s2(1)]] IH by blast
        then have "mf_record mf' = mf_record mf1 \<Longrightarrow>
            \<exists>s. instant hist w s w' \<and> decode_record (vm_fields s) = Inr (mf_record mf')"
          using s2(3) by auto
        moreover have "history_grows hist w w'" by (rule history_grows_trans [OF m2 IH [THEN conjunct1]])
        moreover have "same_handle mf mf'" using ob IH by (auto simp: same_handle_def)
        moreover have "commits hist w x y w'" if "commits hist w2 x y w'" for x y by (rule commits_before [OF m2 that])
        moreover have "instant hist w x w'" if "instant hist w2 x w'" for x by (rule instant_before [OF m2 that])
        ultimately show ?thesis using IH by auto
      qed
    qed
  qed (use Suc.prems in \<open>simp add: cas_rounds.simps(2)\<close>)
qed simp

lemma raise_trunc_instant:
  assumes "valid_buckets (mf_bucket_names mf)" "fl \<le> u64_max" "ordered_history (hist w)"
    and "run_state (raise_trunc store mf cl fl) w = ((Inr (), mf'), w')"
  shows "\<exists>s. instant hist w s w' \<and> decode_record (vm_fields s) = Inr (mf_record mf')
    \<and> mr_epoch (mf_record mf') = wc_epoch cl \<and> mr_owner (mf_record mf') = wc_owner cl
    \<and> fl \<le> mr_trunc (mf_record mf')"
proof -
  obtain r mf1 w1 where rf: "run_state (refresh store mf) w = ((r, mf1), w1)" by (metis surj_pair)
  then have r: "r = Inr ()" and cas: "run_state (cas_rounds MAX_CAS_ROUNDS store PE_ManifestUnavailable
      (raise_trunc_transform cl fl) mf1) w1 = ((Inr (), mf'), w')"
    using assms(4) by (auto simp: raise_trunc_def cas_transform_def split: sum.splits)
  note ob = refresh_observes [OF assms(1) rf [unfolded refresh_def]]
  then obtain s1 where s1: "instant hist w s1 w1" "vm_version s1 = mf_version mf1"
      "decode_record (vm_fields s1) = Inr (mf_record mf1)" using r by auto
  have co: "coherent hist mf1 w1" by (rule instant_coherent [OF s1])
  have ord: "ordered_history (hist w1)" using ob assms(3) by (simp add: history_grows_def)
  have vb: "valid_buckets (mf_bucket_names mf1)" using ob assms(1) by (simp add: same_handle_def)
  have wf: "keeps_wf (raise_trunc_transform cl fl)"
    using keeps_wf_command [of "Cmd_Raise_Trunc cl fl"] assms(2) by (simp add: keeps_wf_def)
  note cc = cas_rounds_commits [OF vb co ord wf cas]
  have before: "instant hist w s w'" if "instant hist w1 s w'" for s
    by (rule instant_before [OF ob [THEN conjunct1] that])
  from cc consider
      (cached) "raise_trunc_transform cl fl (mf_record mf') = Inr (Done ())" "mf_record mf' = mf_record mf1"
    | (seen) s where "raise_trunc_transform cl fl (mf_record mf') = Inr (Done ())" "instant hist w1 s w'"
        "decode_record (vm_fields s) = Inr (mf_record mf')"
    | (committed) r where "raise_trunc_transform cl fl r = Inr (Update (mf_record mf') ())"
        "validate (mf_record mf') = Inr ()" "commits hist w1 r (mf_record mf') w'"
    by blast
  then show ?thesis
  proof cases
    case cached
    moreover have "instant hist w s1 w'" using instant_after [OF s1(1)] cc by blast
    ultimately show ?thesis
      using s1(3) by (auto simp: raise_trunc_transform_def and_then_Inr_iff split: if_splits)
  next
    case seen
    then show ?thesis using before [of s]
      by (auto simp: raise_trunc_transform_def and_then_Inr_iff split: if_splits)
  next
    case committed
    then have "wf_record r" by (auto simp: commits_def dest: decode_record_wf)
    then have "wf_record (mf_record mf')" using wf committed by (auto simp: validate_Inr keeps_wf_def)
    then obtain s where "instant hist w1 s w'" "decode_record (vm_fields s) = Inr (mf_record mf')"
      using commits_instant [OF committed(3)] by blast
    moreover have "mr_epoch (mf_record mf') = wc_epoch cl \<and> mr_owner (mf_record mf') = wc_owner cl
        \<and> fl \<le> mr_trunc (mf_record mf')"
      using committed(1)
      by (auto simp: raise_trunc_transform_def and_then_Inr_iff split: if_splits dest!: sym [of _ "mf_record mf'"])
    ultimately show ?thesis using before by blast
  qed
qed

end

text \<open>
  A store whose register is never removed, with the history of its register kept beside its world: a call that changes
  the contents leaves the contents it replaced behind.
\<close>

definition logged_history :: "('w \<Rightarrow> versioned_manifest option) \<Rightarrow> 'w \<times> versioned_manifest list \<Rightarrow> versioned_manifest list" where
  "logged_history reg c = (case reg (fst c) of None \<Rightarrow> [] | Some s \<Rightarrow> snd c @ [s])"

definition logged ::
  "('w \<Rightarrow> versioned_manifest option) \<Rightarrow> ('w, 'a) state \<Rightarrow> ('w \<times> versioned_manifest list, 'a) state" where
  "logged reg m = State (\<lambda>(w, past).
     case run_state m w of (x, w') \<Rightarrow> (x, w', if reg w' = reg w then past else logged_history reg (w, past)))"

definition logged_store ::
  "('w \<Rightarrow> versioned_manifest option) \<Rightarrow> 'w manifest_store \<Rightarrow> ('w \<times> versioned_manifest list) manifest_store" where
  "logged_store reg store =
     \<lparr>ms_max_directory_bytes = ms_max_directory_bytes store, ms_read = logged reg (ms_read store),
      ms_create = (\<lambda>f. logged reg (ms_create store f)), ms_update = (\<lambda>v f. logged reg (ms_update store v f))\<rparr>"

lemma logged_store_simps [simp]:
  "ms_read (logged_store reg store) = logged reg (ms_read store)"
  "ms_create (logged_store reg store) f = logged reg (ms_create store f)"
  "ms_update (logged_store reg store) v f = logged reg (ms_update store v f)"
  by (simp_all add: logged_store_def)

text \<open>Keeping the history changes nothing else.\<close>

definition erased :: "('w, 'a) state \<Rightarrow> ('w \<times> versioned_manifest list, 'a) state \<Rightarrow> bool" where
  "erased m m' \<longleftrightarrow> (\<forall>w past. \<exists>past'. run_state m' (w, past) = (fst (run_state m w), snd (run_state m w), past'))"

lemma erased_return [simp]: "erased (State_Monad.return x) (State_Monad.return x)"
  by (simp add: erased_def)

lemma erased_logged [simp]: "erased m (logged reg m)"
  by (auto simp: erased_def logged_def split: prod.split)

lemma erased_bind:
  assumes "erased m m'" "\<And>x. erased (f x) (f' x)"
  shows "erased (State_Monad.bind m f) (State_Monad.bind m' f')"
  unfolding erased_def
proof (intro allI)
  fix w past
  obtain x w1 where m: "run_state m w = (x, w1)" by (rule prod.exhaust)
  then obtain past1 where m': "run_state m' (w, past) = (x, w1, past1)" using assms(1) by (metis erased_def fst_conv snd_conv)
  obtain past2 where "run_state (f' x) (w1, past1) = (fst (run_state (f x) w1), snd (run_state (f x) w1), past2)"
    using assms(2) [of x] by (metis erased_def)
  then show "\<exists>past'. run_state (State_Monad.bind m' f') (w, past)
      = (fst (run_state (State_Monad.bind m f) w), snd (run_state (State_Monad.bind m f) w), past')"
    using m m' by simp
qed

lemma erased_cases:
  "(\<And>e. erased (f e) (f' e)) \<Longrightarrow> (\<And>v. erased (g v) (g' v)) \<Longrightarrow> erased (case_sum f g x) (case_sum f' g' x)"
  "(\<And>v. erased (d v) (d' v)) \<Longrightarrow> (\<And>r v. erased (u r v) (u' r v)) \<Longrightarrow> erased (case_cas_outcome d u y) (case_cas_outcome d' u' y)"
  "(\<And>a b. erased (p a b) (p' a b)) \<Longrightarrow> erased (case_prod p z) (case_prod p' z)"
  "erased m m' \<Longrightarrow> erased n n' \<Longrightarrow> erased (if c then m else n) (if c then m' else n')"
  by (auto split: sum.split cas_outcome.split prod.split)

lemmas erased_intros = erased_bind erased_cases erased_return erased_logged

lemma refresh_attempts_erased: "erased (refresh_attempts k store mf) (refresh_attempts k (logged_store reg store) mf)"
  by (induction k) (auto simp: refresh_attempts.simps(2) Let_def split: sum.split option.split manifest_store_error.split intro!: erased_bind)

lemma refresh_erased: "erased (refresh store mf) (refresh (logged_store reg store) mf)"
  unfolding refresh_def by (rule refresh_attempts_erased)

lemma cas_rounds_erased: "erased (cas_rounds k store ex f mf) (cas_rounds k (logged_store reg store) ex f mf)"
  by (induction k arbitrary: mf) (simp_all only: cas_rounds.simps logged_store_simps, (intro erased_intros refresh_erased)+)

lemma logged_local_read:
  "run_state (logged reg (ms_read local_manifest_store)) (w, past) = (Inr (map_option versioned_of_stored w), w, past)"
  by (simp add: logged_def local_manifest_store_def local_store_read_def)

lemma logged_local_create:
  "run_state (logged (map_option versioned_of_stored) (ms_create local_manifest_store f)) (w, past) =
     (case w of Some _ \<Rightarrow> (Inl RegisterExists, w, past)
      | None \<Rightarrow> (Inr (versioned_of_stored \<lparr>sm_version = 1, sm_fields = f\<rparr>), Some \<lparr>sm_version = 1, sm_fields = f\<rparr>, []))"
  by (simp add: logged_def local_manifest_store_def local_store_create_def local_store_write_def logged_history_def split: option.split)

lemma logged_local_update:
  "run_state (logged (map_option versioned_of_stored) (ms_update local_manifest_store v f)) (w, past) =
     (case w of None \<Rightarrow> (Inl (Backend ''the register was never created''), w, past)
      | Some cur \<Rightarrow> let s = \<lparr>sm_version = version_number v + 1, sm_fields = f\<rparr> in
          if sm_version cur \<noteq> version_number v then (Inl Conflict, w, past)
          else (Inr (versioned_of_stored s), Some s, past @ [versioned_of_stored cur]))"
  by (simp add: logged_def local_manifest_store_def local_store_update_def local_store_write_def logged_history_def
      versioned_of_stored_def Let_def split: option.split)

interpretation local_register: manifest_register "logged_store (map_option versioned_of_stored) local_manifest_store"
  "logged_history (map_option versioned_of_stored)"
proof (unfold_locales, goal_cases)
  case (1 c x c')
  then show ?case
    by (cases c, intro exI [of _ "logged_history (map_option versioned_of_stored) c"])
      (auto simp: logged_local_read logged_history_def contents_def split: option.split)
next
  case (2 f c s c')
  then show ?case by (cases c) (auto simp: logged_local_create logged_history_def versioned_of_stored_def split: option.splits)
next
  case (3 v f c s c')
  then obtain cur past where "c = (Some cur, past)" "sm_version cur = version_number v"
      "s = versioned_of_stored \<lparr>sm_version = version_number v + 1, sm_fields = f\<rparr>"
      "c' = (Some \<lparr>sm_version = version_number v + 1, sm_fields = f\<rparr>, past @ [versioned_of_stored cur])"
    by (cases c) (auto simp: logged_local_update Let_def split: option.splits if_splits)
  then show ?case
    by (intro exI [of _ past] exI [of _ "versioned_of_stored cur"], cases v) (simp add: logged_history_def versioned_of_stored_def)
next
  case (4 c y c')
  then show ?case by (cases c) (auto simp: logged_local_read)
next
  case (5 f c z c')
  then show ?case
    by (cases c) (auto simp: logged_local_create history_grows_def logged_history_def ordered_history_def split: option.splits)
next
  case (6 v f c z c')
  then show ?case
    by (cases c) (auto simp: logged_local_update Let_def history_grows_def logged_history_def ordered_history_def versioned_of_stored_def
        sorted_wrt_append less_Suc_eq split: option.splits if_splits)
qed

text \<open>
  The same store under contention: before each call takes effect, the next
  update another client has prepared is applied.  A store that honours the
  contract still honours it then.
\<close>

definition contended ::
  "'w manifest_store \<Rightarrow> ('w, 'a) state \<Rightarrow> ('w \<times> (manifest_version \<times> metadata) list, 'a) state" where
  "contended store m = State (\<lambda>(w, others).
     let w1 = (case others of [] \<Rightarrow> w | (v, f) # _ \<Rightarrow> snd (run_state (ms_update store v f) w));
         (x, w') = run_state m w1
     in (x, w', tl others))"

definition contended_store ::
  "'w manifest_store \<Rightarrow> ('w \<times> (manifest_version \<times> metadata) list) manifest_store" where
  "contended_store store =
     \<lparr>ms_max_directory_bytes = ms_max_directory_bytes store, ms_read = contended store (ms_read store),
      ms_create = (\<lambda>f. contended store (ms_create store f)), ms_update = (\<lambda>v f. contended store (ms_update store v f))\<rparr>"

lemma contended_store_simps [simp]:
  "ms_read (contended_store store) = contended store (ms_read store)"
  "ms_create (contended_store store) f = contended store (ms_create store f)"
  "ms_update (contended_store store) v f = contended store (ms_update store v f)"
  by (simp_all add: contended_store_def)

context manifest_register
begin

lemma contended_run:
  assumes "run_state (contended store m) (w, others) = (x, c')"
  obtains w1 w' where "history_grows hist w w1" "run_state m w1 = (x, w')" "c' = (w', tl others)"
proof -
  define w1 where "w1 = (case others of [] \<Rightarrow> w | (v, f) # _ \<Rightarrow> snd (run_state (ms_update store v f) w))"
  have "history_grows hist w w1" using update_grows by (auto simp: w1_def split: list.split) (metis prod.collapse)
  moreover obtain w' where "run_state m w1 = (x, w')" "c' = (w', tl others)"
    using assms by (auto simp: contended_def Let_def w1_def [symmetric] split: prod.splits)
  ultimately show thesis by (rule that)
qed

lemma history_grows_contended: "history_grows (\<lambda>(w, _). hist w) c c' \<longleftrightarrow> history_grows hist (fst c) (fst c')"
  by (simp add: history_grows_def case_prod_beta)

lemma contended_register: "manifest_register (contended_store store) (\<lambda>(w, _). hist w)"
proof (unfold_locales, goal_cases)
  case (1 c x c')
  then obtain w1 where w1: "history_grows hist (fst c) w1" "run_state (ms_read store) w1 = (Inr x, fst c')"
    by (cases c) (auto elim!: contended_run)
  obtain h where "prefix (hist w1) h" "prefix h (hist (fst c'))" "x = contents h" using read_instant [OF w1(2)] by blast
  then show ?case using w1(1) by (intro exI [of _ h]) (auto simp: case_prod_beta history_grows_def intro: prefix_order.trans)
next
  case (2 f c s c')
  then obtain w1 where w1: "history_grows hist (fst c) w1" "run_state (ms_create store f) w1 = (Inr s, fst c')"
    by (cases c) (auto elim!: contended_run)
  then show ?case using create_instant [OF w1(2)] by (auto simp: case_prod_beta history_grows_def)
next
  case (3 v f c s c')
  then obtain w1 where w1: "history_grows hist (fst c) w1" "run_state (ms_update store v f) w1 = (Inr s, fst c')"
    by (cases c) (auto elim!: contended_run)
  obtain h cur where "prefix (hist w1) (h @ [cur])" "vm_version cur = v \<and> vm_fields s = f \<and> prefix (h @ [cur, s]) (hist (fst c'))"
    using update_instant [OF w1(2)] by blast
  then show ?case
    using w1(1) by (intro exI [of _ h] exI [of _ cur]) (auto simp: case_prod_beta history_grows_def intro: prefix_order.trans)
next
  case (4 c y c')
  then show ?case by (cases c) (auto simp: history_grows_contended elim!: contended_run elim: history_grows_trans dest!: read_grows)
next
  case (5 f c z c')
  then show ?case by (cases c) (auto simp: history_grows_contended elim!: contended_run elim: history_grows_trans dest!: create_grows)
next
  case (6 v f c z c')
  then show ?case by (cases c) (auto simp: history_grows_contended elim!: contended_run elim: history_grows_trans dest!: update_grows)
qed

end


section \<open>Mutators\<close>

text \<open>The mutator a handle runs for a command, and the commands that name the handle's own claim.\<close>

fun run_mutator ::
  "'w manifest_store \<Rightarrow> manifest \<Rightarrow> manifest_command \<Rightarrow> ('w, (protocol_error + unit) \<times> manifest) state" where
  "run_mutator store mf (Cmd_Claim _) = claim store mf"
| "run_mutator store mf (Cmd_Register_Pending _ _ p) = register_pending store mf p"
| "run_mutator store mf (Cmd_Replace_Frontier _ _ et ep tb a p) = replace_empty_frontier store mf et ep tb a p"
| "run_mutator store mf (Cmd_Fold_Pending _ _ _ f) = fold_pending store mf f"
| "run_mutator store mf (Cmd_Raise_Trunc cl fl) = raise_trunc store mf cl fl"
| "run_mutator store mf (Cmd_Remove_Segments ids fl) = remove_segments store mf ids fl"

fun own_command :: "manifest \<Rightarrow> manifest_command \<Rightarrow> bool" where
  "own_command mf (Cmd_Claim ow) \<longleftrightarrow> ow = mf_owner mf"
| "own_command mf (Cmd_Register_Pending e ow _) \<longleftrightarrow> e = mf_epoch mf \<and> ow = mf_owner mf"
| "own_command mf (Cmd_Replace_Frontier e ow _ _ _ _ _) \<longleftrightarrow> e = mf_epoch mf \<and> ow = mf_owner mf"
| "own_command mf (Cmd_Fold_Pending e ow m _) \<longleftrightarrow>
     e = mf_epoch mf \<and> ow = mf_owner mf \<and> m = mf_max_directory_bytes mf"
| "own_command mf (Cmd_Raise_Trunc _ _) = True"
| "own_command mf (Cmd_Remove_Segments ids _) \<longleftrightarrow> ids \<noteq> {}"

lemma run_mutator_erased: "erased (run_mutator store mf cmd) (run_mutator (logged_store reg store) mf cmd)"
  by (cases cmd) (simp_all only: run_mutator.simps claim_def register_pending_def replace_empty_frontier_def fold_pending_def
      raise_trunc_def remove_segments_def with_claim_def cas_transform_def,
      (intro erased_intros refresh_erased cas_rounds_erased)+)

context manifest_register
begin

text \<open>What a successful command did: its step was committed, or the contents already agreed with it.\<close>

definition command_effect :: "manifest_command \<Rightarrow> manifest \<Rightarrow> 'w \<Rightarrow> manifest \<Rightarrow> 'w \<Rightarrow> bool" where
  "command_effect cmd mf w mf' w' \<longleftrightarrow>
     coherent hist mf' w' \<and> history_grows hist w w'
   \<and> ((\<exists>r. commits hist w r (mf_record mf') w' \<and> manifest_step r cmd (mf_record mf'))
      \<or> command_transform cmd (mf_record mf') = Inr (Done ())
        \<and> (mf_record mf' = mf_record mf \<or> (\<exists>s. instant hist w s w' \<and> decode_record (vm_fields s) = Inr (mf_record mf'))))"

lemma cas_command_effect:
  assumes "valid_buckets (mf_bucket_names mf)" "coherent hist mf w" "ordered_history (hist w)" "command_ok cmd"
    and "run_state (cas_transform store ex (command_transform cmd) mf) w = ((Inr (), mf'), w')"
  shows "command_effect cmd mf w mf' w'"
proof -
  note cc = cas_rounds_commits [OF assms(1-3) keeps_wf_command [OF assms(4)] assms(5) [unfolded cas_transform_def]]
  then show ?thesis by (auto simp: command_effect_def intro: manifest_step.commit)
qed

lemma run_mutator_effect:
  assumes "valid_buckets (mf_bucket_names mf)" "coherent hist mf w" "ordered_history (hist w)" "command_ok cmd" "own_command mf cmd"
    and "run_state (run_mutator store mf cmd) w = ((Inr (), mf'), w')"
  shows "command_effect cmd mf w mf' w'"
proof (cases cmd)
  case (Cmd_Claim ow)
  then obtain e mf1 where cas: "run_state (cas_rounds MAX_CAS_ROUNDS store
        (PE_Fenced ''manifest epoch claim did not converge under contention'') (claim_transform ow) mf) w
        = ((Inr e, mf1), w')" and mf': "mf' = mf1\<lparr>mf_epoch := e\<rparr>"
    using assms(5,6) by (auto simp: claim_def cas_transform_def split: prod.splits sum.splits)
  note cc = cas_rounds_commits [OF assms(1-3) keeps_wf_claim cas]
  have "\<not> (\<exists>v r. claim_transform ow r = Inr (Done v))" by (auto simp: claim_transform_def and_then_Inr_iff)
  with cc obtain r where "claim_transform ow r = Inr (Update (mf_record mf1) e)"
      "validate (mf_record mf1) = Inr ()" "commits hist w r (mf_record mf1) w'" by blast
  then show ?thesis
    using cc mf' Cmd_Claim manifest_step.commit [of cmd r "mf_record mf1"]
    by (auto simp: command_effect_def coherent_def)
next
  case (Cmd_Raise_Trunc cl fl)
  then obtain mf1 w1 where rf: "run_state (refresh store mf) w = ((Inr (), mf1), w1)"
      and cas: "run_state (cas_transform store PE_ManifestUnavailable (command_transform cmd) mf1) w1
         = ((Inr (), mf'), w')"
    using assms(6) by (auto simp: raise_trunc_def split: prod.splits sum.splits)
  note ob = refresh_observes [OF assms(1) rf [unfolded refresh_def]]
  then obtain s where s: "instant hist w s w1" "vm_version s = mf_version mf1" "decode_record (vm_fields s) = Inr (mf_record mf1)"
    by auto
  have m: "history_grows hist w w1" "valid_buckets (mf_bucket_names mf1)" "ordered_history (hist w1)"
    using ob assms(1,3) by (simp_all add: same_handle_def history_grows_def)
  then have eff: "command_effect cmd mf1 w1 mf' w'" using cas_command_effect instant_coherent [OF s] assms(4) cas by blast
  have "instant hist w s w'" using instant_after [OF s(1)] eff by (simp add: command_effect_def)
  then show ?thesis using eff s(3) history_grows_trans [OF m(1)] commits_before [OF m(1)] instant_before [OF m(1)]
    unfolding command_effect_def by metis
qed (use assms cas_command_effect [OF assms(1-4)] in
      \<open>auto simp: register_pending_def replace_empty_frontier_def fold_pending_def remove_segments_def
         with_claim_def split: sum.splits\<close>)

end


section \<open>Properties\<close>

definition demo_record :: manifest_record where
  "demo_record = \<lparr>mr_epoch = 1, mr_owner = ''w'', mr_tail_base = 5, mr_tail_id = Some ''t1'',
     mr_pending_id = Some ''p1'', mr_seal_base = Some 0, mr_seal_id = Some ''s0'', mr_seal_digest = Some ''d'',
     mr_trunc = 0, mr_segments = [\<lparr>de_id = ''s0'', de_base = 0, de_crc32c = 7\<rparr>], mr_buckets = [''b'']\<rparr>"

lemmas valid_record_simps = valid_record_def valid_directory_def valid_pending_def valid_last_seal_def
  valid_buckets_def SUPPORTED_REPLICA_COUNTS_def

lemma demo_raise:
  "manifest_step demo_record (Cmd_Raise_Trunc \<lparr>wc_epoch = 1, wc_owner = ''w''\<rparr> 3) (demo_record\<lparr>mr_trunc := 3\<rparr>)"
  by (rule manifest_step.commit)
    (simp_all add: raise_trunc_transform_def check_claim_def demo_record_def validate_Inr valid_record_simps)

lemma demo_claim:
  "manifest_step demo_record (Cmd_Claim ''x'') (demo_record\<lparr>mr_epoch := 2, mr_owner := ''x''\<rparr>)"
  by (rule manifest_step.commit)
    (simp_all add: claim_transform_def checked_add_def ok_or_def u64_max_def demo_record_def validate_Inr
      valid_record_simps)

lemma demo_valid: "valid_record demo_record"
  by (simp add: demo_record_def valid_record_simps)

text \<open>
  C25. Register histories only move forward.  Whatever commands any clients
  commit in any order, the granted epoch, the truncation floor and the base of
  the active tail never decrease, the bucket binding never changes, and an
  epoch that is still current belongs to the incarnation it was granted to.
\<close>

theorem manifest_history_monotone:
  assumes "manifest_run r cmds r'"
  shows "mr_epoch r \<le> mr_epoch r' \<and> mr_trunc r \<le> mr_trunc r' \<and> mr_tail_base r \<le> mr_tail_base r'
    \<and> mr_buckets r = mr_buckets r' \<and> (mr_epoch r = mr_epoch r' \<longrightarrow> mr_owner r = mr_owner r')"
  using manifest_run_later [OF assms] by (simp add: later_record_def)

theorem manifest_history_monotone_witness:
  "mr_trunc demo_record \<le> mr_trunc (demo_record\<lparr>mr_trunc := 3\<rparr>)"
proof -
  have "manifest_run demo_record [Cmd_Raise_Trunc \<lparr>wc_epoch = 1, wc_owner = ''w''\<rparr> 3] (demo_record\<lparr>mr_trunc := 3\<rparr>)"
    using demo_raise by auto
  from manifest_history_monotone [OF this] show ?thesis by blast
qed

text \<open>
  C10. A deposed writer stays fenced.  Once the register has granted an epoch
  at or above a writer's without that writer owning it, every later mutation
  the writer issues under its claim is refused as fenced, so it can neither
  register a successor, nor fold or replace a tail, nor raise the truncation
  floor ever again.
\<close>

theorem deposed_writer_stays_fenced:
  assumes "manifest_run r cmds r'" "e \<le> mr_epoch r" "mr_epoch r \<noteq> e \<or> mr_owner r \<noteq> ow"
    and "issued_under cmd e ow"
  shows "command_transform cmd r' = Inl (PE_Fenced ''a higher epoch claimed the manifest'')"
proof (rule issued_under_fenced [OF assms(4)])
  show "mr_epoch r' \<noteq> e \<or> mr_owner r' \<noteq> ow"
    using manifest_run_later [OF assms(1)] assms(2,3) by (auto simp: later_record_def)
qed

theorem deposed_writer_stays_fenced_witness:
  "command_transform (Cmd_Raise_Trunc \<lparr>wc_epoch = 1, wc_owner = ''old''\<rparr> 3) (demo_record\<lparr>mr_epoch := 2, mr_owner := ''x''\<rparr>)
     = Inl (PE_Fenced ''a higher epoch claimed the manifest'')"
proof -
  have "manifest_run demo_record [Cmd_Claim ''x''] (demo_record\<lparr>mr_epoch := 2, mr_owner := ''x''\<rparr>)"
    using demo_claim by auto
  moreover have "1 \<le> mr_epoch demo_record" "mr_epoch demo_record \<noteq> 1 \<or> mr_owner demo_record \<noteq> ''old''"
    by (simp_all add: demo_record_def)
  moreover have "issued_under (Cmd_Raise_Trunc \<lparr>wc_epoch = 1, wc_owner = ''old''\<rparr> 3) 1 ''old''" by simp
  ultimately show ?thesis by (rule deposed_writer_stays_fenced)
qed

text \<open>
  C11. Sealed history is immutable.  A record index below the active tail
  belongs to one directory entry, and whatever is committed afterwards, as
  long as the truncation floor has not passed the index it belongs to the same
  entry with the same checksum: no fold, claim or removal can drop or replace
  a retained sealed segment.
\<close>

theorem sealed_history_immutable:
  assumes "manifest_run r cmds r'" "valid_record r" "i < mr_tail_base r" "mr_trunc r' \<le> i"
  shows "segment_of r' i = segment_of r i"
  using assms
proof (induction rule: manifest_run.induct)
  case (step r cmd r1 cmds r')
  have l: "later_record r r1" "later_record r1 r'"
    using manifest_step_later [OF step.hyps(1)] manifest_run_later [OF step.hyps(2)] by blast+
  have "segment_of r1 i = segment_of r i"
    using manifest_step_segment_of [OF step.hyps(1) step.prems(1)] l step.prems(2,3)
    by (simp add: later_record_def)
  moreover have "valid_record r1" using step.hyps(1) by (auto elim: manifest_stepE)
  ultimately show ?case using step.IH step.prems l by (simp add: later_record_def)
qed simp

theorem sealed_history_immutable_witness:
  "segment_of (demo_record\<lparr>mr_trunc := 3\<rparr>) 4 = Some \<lparr>de_id = ''s0'', de_base = 0, de_crc32c = 7\<rparr>"
proof -
  have run: "manifest_run demo_record [Cmd_Raise_Trunc \<lparr>wc_epoch = 1, wc_owner = ''w''\<rparr> 3] (demo_record\<lparr>mr_trunc := 3\<rparr>)"
    using demo_raise by auto
  have "segment_of (demo_record\<lparr>mr_trunc := 3\<rparr>) 4 = segment_of demo_record 4"
    by (rule sealed_history_immutable [OF run demo_valid]) (simp_all add: demo_record_def)
  then show ?thesis by (simp add: segment_of_def demo_record_def)
qed

text \<open>
  C13. Every register state stays readable and complete.  Starting from the
  initial record of a supported bucket list, any sequence of committed
  commands with clean segment ids, checksums and floors in range leaves a
  well-formed record that decodes from its own encoding, and every record index
  between the truncation floor and the active tail lies in some directory
  entry: the sealed chain never has a gap.
\<close>

theorem register_readable_and_covered:
  assumes "valid_buckets bs" "manifest_run (initial_record bs) cmds r" "\<forall>cmd \<in> set cmds. command_ok cmd"
  shows "wf_record r \<and> decode_record (encode_record r) = Inr r
    \<and> (\<forall>i. mr_trunc r \<le> i \<and> i < mr_tail_base r \<longrightarrow> segment_of r i \<noteq> None)"
proof -
  have "wf_record r \<and> history_covered r"
  proof (rule manifest_run_invariant [where Q = "\<lambda>r. wf_record r \<and> history_covered r", OF _ assms(2) _ assms(3)])
    fix r cmd r'
    assume st: "manifest_step r cmd r'" "command_ok cmd" and wf: "wf_record r \<and> history_covered r"
    then show "wf_record r' \<and> history_covered r'"
      using manifest_step_wf [OF st] manifest_step_covered [OF st(1)] by (simp add: wf_record_def)
  next
    show "wf_record (initial_record bs) \<and> history_covered (initial_record bs)"
      using wf_initial [OF assms(1)] by (simp add: history_covered_def initial_record_def)
  qed
  then show ?thesis using decode_encode_record by (auto simp: history_covered_def)
qed

theorem register_readable_and_covered_witness:
  "wf_record (initial_record [''b'']\<lparr>mr_epoch := 1, mr_owner := ''w'', mr_tail_id := Some (segment_id 1 0)\<rparr>)"
proof -
  let ?r = "initial_record [''b'']\<lparr>mr_epoch := 1, mr_owner := ''w'', mr_tail_id := Some (segment_id 1 0)\<rparr>"
  have b: "valid_buckets [''b'']" by (simp add: valid_record_simps)
  have "manifest_step (initial_record [''b'']) (Cmd_Claim ''w'') ?r"
    by (rule manifest_step.commit)
      (simp_all add: claim_transform_def checked_add_def ok_or_def u64_max_def initial_record_def validate_Inr
        valid_record_simps)
  then have run: "manifest_run (initial_record [''b'']) [Cmd_Claim ''w''] ?r" by auto
  have "\<forall>cmd \<in> set [Cmd_Claim ''w'']. command_ok cmd" by simp
  from register_readable_and_covered [OF b run this] show ?thesis by blast
qed

text \<open>
  C9. The mutators implement the abstract history.  Over any store that
  honours the register contract, with other clients moving the register at
  will, a mutator that reports success either committed its abstract step: in
  the history of the register, within the call, the very contents the step was
  computed from are directly followed by its result; or it found that contents
  of the register, cached or read within the call, already agree with its
  request.  The handle's cache is again some contents of the register.
\<close>

theorem mutators_refine_history:
  assumes "manifest_register store hist" "valid_buckets (mf_bucket_names mf)" "coherent hist mf w" "ordered_history (hist w)"
    and "command_ok cmd" "own_command mf cmd"
    and "run_state (run_mutator store mf cmd) w = ((Inr (), mf'), w')"
  shows "coherent hist mf' w' \<and> prefix (hist w) (hist w') \<and> ordered_history (hist w')
    \<and> ((\<exists>h s t r. prefix (hist w) (h @ [s]) \<and> prefix (h @ [s, t]) (hist w')
           \<and> decode_record (vm_fields s) = Inr r \<and> vm_fields t = encode_record (mf_record mf')
           \<and> manifest_step r cmd (mf_record mf'))
       \<or> command_transform cmd (mf_record mf') = Inr (Done ())
         \<and> (mf_record mf' = mf_record mf \<or> (\<exists>s. instant hist w s w' \<and> decode_record (vm_fields s) = Inr (mf_record mf'))))"
  using manifest_register.run_mutator_effect [OF assms(1-7)] assms(4)
  unfolding manifest_register.command_effect_def [OF assms(1)] commits_def history_grows_def by blast

definition demo_stored :: stored_manifest where
  "demo_stored = \<lparr>sm_version = 4, sm_fields = encode_record demo_record\<rparr>"

definition demo_handle :: manifest where
  "demo_handle = \<lparr>mf_config = \<lparr>max_retries = 1, retry_base = 0\<rparr>, mf_owner = ''w'', mf_epoch = 1,
     mf_bucket_names = [''b''], mf_max_directory_bytes = 1000, mf_version = ManifestVersion 4,
     mf_record = demo_record\<rparr>"

lemma demo_wf: "wf_record demo_record"
  by (simp add: wf_record_def demo_valid) (simp add: demo_record_def wf_entry_def u64_max_def u32_max_def)

abbreviation demo_register :: "stored_manifest option \<times> versioned_manifest list \<Rightarrow> versioned_manifest list" where
  "demo_register \<equiv> logged_history (map_option versioned_of_stored)"

abbreviation demo_store :: "(stored_manifest option \<times> versioned_manifest list) manifest_store" where
  "demo_store \<equiv> logged_store (map_option versioned_of_stored) local_manifest_store"

lemma demo_coherent:
  "coherent demo_register demo_handle (Some demo_stored, [])" "ordered_history (demo_register (Some demo_stored, []))"
  by (simp_all add: coherent_def logged_history_def ordered_history_def versioned_of_stored_def demo_stored_def demo_handle_def
      decode_encode_record [OF demo_wf])

lemma demo_buckets: "valid_buckets (mf_bucket_names demo_handle)"
  by (simp add: demo_handle_def valid_record_simps)

lemma local_store_calls [simp]:
  "run_state (ms_read local_manifest_store) w = local_store_read w"
  "run_state (ms_create local_manifest_store data) w = local_store_create data w"
  "run_state (ms_update local_manifest_store v data) w = local_store_update v data w"
  by (simp_all add: local_manifest_store_def)

lemma demo_refresh:
  "run_state (refresh local_manifest_store demo_handle) (Some demo_stored) = ((Inr (), demo_handle), Some demo_stored)"
  using decode_encode_record [OF demo_wf]
  by (simp add: refresh_def refresh_attempts.simps(2) local_store_read_def adopt_state_def
      versioned_of_stored_def demo_stored_def demo_handle_def validate_configuration_def install_cache_def)
    (simp add: demo_record_def)

lemma demo_raise_run:
  "run_state (raise_trunc local_manifest_store demo_handle \<lparr>wc_epoch = 1, wc_owner = ''w''\<rparr> 3) (Some demo_stored)
     = ((Inr (), demo_handle\<lparr>mf_version := ManifestVersion 5, mf_record := demo_record\<lparr>mr_trunc := 3\<rparr>\<rparr>),
        Some \<lparr>sm_version = 5, sm_fields = encode_record (demo_record\<lparr>mr_trunc := 3\<rparr>)\<rparr>)"
proof -
  have t: "raise_trunc_transform \<lparr>wc_epoch = 1, wc_owner = ''w''\<rparr> 3 (mf_record demo_handle)
      = Inr (Update (demo_record\<lparr>mr_trunc := 3\<rparr>) ())"
    by (simp add: raise_trunc_transform_def check_claim_def demo_handle_def demo_record_def)
  have v: "validate (demo_record\<lparr>mr_trunc := 3\<rparr>) = Inr ()" using demo_raise by (auto elim: manifest_step.cases)
  obtain k where k: "MAX_CAS_ROUNDS = Suc k" by (simp add: MAX_CAS_ROUNDS_def)
  have "sm_version demo_stored = version_number (mf_version demo_handle)" "mf_version demo_handle = ManifestVersion 4"
    by (simp_all add: demo_stored_def demo_handle_def)
  then show ?thesis
    using t by (simp add: raise_trunc_def demo_refresh cas_transform_def k cas_rounds.simps(2) v install_cache_def
        local_store_update_def local_store_write_def versioned_of_stored_def)
qed

lemma demo_logged_run:
  assumes "run_state (run_mutator local_manifest_store mf cmd) w = ((Inr (), mf'), w')"
  obtains past where "run_state (run_mutator demo_store mf cmd) (w, []) = ((Inr (), mf'), w', past)"
  using run_mutator_erased [of local_manifest_store mf cmd] assms unfolding erased_def by (metis fst_conv snd_conv)

text \<open>A rival claims the register just before the claim under test takes effect, which then needs a second round.\<close>

definition rival_record :: manifest_record where
  "rival_record = demo_record\<lparr>mr_epoch := 2, mr_owner := ''x''\<rparr>"

abbreviation rival_world :: "(stored_manifest option \<times> versioned_manifest list) \<times> (manifest_version \<times> metadata) list" where
  "rival_world \<equiv> ((Some demo_stored, []), [(ManifestVersion 4, encode_record rival_record)])"

lemma rival_wf: "wf_record rival_record" "wf_record (rival_record\<lparr>mr_epoch := 3, mr_owner := ''w''\<rparr>)"
  by (simp_all add: wf_record_def rival_record_def demo_record_def valid_record_simps wf_entry_def u64_max_def u32_max_def)

lemma rival_refresh:
  "run_state (refresh (contended_store demo_store) demo_handle)
      ((Some \<lparr>sm_version = 5, sm_fields = encode_record rival_record\<rparr>, past), [])
     = ((Inr (), demo_handle\<lparr>mf_version := ManifestVersion 5, mf_record := rival_record\<rparr>),
        (Some \<lparr>sm_version = 5, sm_fields = encode_record rival_record\<rparr>, past), [])"
  using decode_encode_record [OF rival_wf(1)]
  by (simp add: refresh_def refresh_attempts.simps(2) contended_def logged_local_read adopt_state_def
      versioned_of_stored_def demo_handle_def validate_configuration_def install_cache_def)
    (simp add: rival_record_def demo_record_def)

lemma rival_claim_run:
  "\<exists>mf' w'. run_state (claim (contended_store demo_store) demo_handle) rival_world = ((Inr (), mf'), w') \<and> mf_epoch mf' = 3"
proof -
  have t: "claim_transform ''w'' (mf_record demo_handle) = Inr (Update (demo_record\<lparr>mr_epoch := 2\<rparr>) 2)"
      "claim_transform ''w'' rival_record = Inr (Update (rival_record\<lparr>mr_epoch := 3, mr_owner := ''w''\<rparr>) 3)"
    by (simp_all add: claim_transform_def rival_record_def demo_handle_def demo_record_def checked_add_def u64_max_def ok_or_def)
  have v: "validate (demo_record\<lparr>mr_epoch := 2\<rparr>) = Inr ()"
      "validate (rival_record\<lparr>mr_epoch := 3, mr_owner := ''w''\<rparr>) = Inr ()"
    using rival_wf(2) by (simp_all add: demo_record_def validate_Inr valid_record_simps wf_record_def)
  obtain k where k: "MAX_CAS_ROUNDS = Suc (Suc k)" by (simp add: MAX_CAS_ROUNDS_def numeral_eq_Suc)
  have "sm_version demo_stored = 4" "mf_version demo_handle = ManifestVersion 4" "mf_owner demo_handle = ''w''"
    by (simp_all add: demo_stored_def demo_handle_def)
  then show ?thesis
    using t by (simp add: claim_def cas_transform_def k cas_rounds.simps(2) v contended_def logged_local_update Let_def rival_refresh)
qed

theorem mutators_refine_history_witness:
  "\<exists>mf' w' h s t r. run_state (run_mutator (contended_store demo_store) demo_handle (Cmd_Claim ''w'')) rival_world = ((Inr (), mf'), w')
     \<and> mf_epoch mf' = 3 \<and> prefix (demo_register (fst rival_world)) (h @ [s]) \<and> prefix (h @ [s, t]) (demo_register (fst w'))
     \<and> decode_record (vm_fields s) = Inr r \<and> vm_fields t = encode_record (mf_record mf')
     \<and> manifest_step r (Cmd_Claim ''w'') (mf_record mf')"
proof -
  let ?hist = "\<lambda>(w, _ :: (manifest_version \<times> metadata) list). demo_register w"
  obtain mf' w' where r: "run_state (run_mutator (contended_store demo_store) demo_handle (Cmd_Claim ''w'')) rival_world
      = ((Inr (), mf'), w')" and e: "mf_epoch mf' = 3" using rival_claim_run by auto
  have c: "command_ok (Cmd_Claim ''w'')" "own_command demo_handle (Cmd_Claim ''w'')" by (simp_all add: demo_handle_def)
  have h: "coherent ?hist demo_handle rival_world" "ordered_history (?hist rival_world)"
    using demo_coherent by (simp_all add: coherent_def)
  have "command_transform (Cmd_Claim ''w'') r \<noteq> Inr (Done ())" for r
    by (auto simp: claim_transform_def and_then_Inr_iff)
  then show ?thesis
    using mutators_refine_history [OF local_register.contended_register demo_buckets h c r] r e by (simp add: case_prod_beta)
qed

text \<open>
  C24. Raising the truncation floor is conditional on a live claim.  Whatever
  the handle had cached, when the call reports success there was an instant
  during the call at which the register named exactly the given claim and a
  floor at least as high as the requested one.  A deposed writer with a stale
  cache cannot be told that its floor was accepted.
\<close>

theorem raise_trunc_success_is_current:
  assumes "manifest_register store hist" "valid_buckets (mf_bucket_names mf)" "fl \<le> u64_max" "ordered_history (hist w)"
    and "run_state (raise_trunc store mf cl fl) w = ((Inr (), mf'), w')"
  shows "\<exists>s r. instant hist w s w' \<and> decode_record (vm_fields s) = Inr r
    \<and> mr_epoch r = wc_epoch cl \<and> mr_owner r = wc_owner cl \<and> fl \<le> mr_trunc r"
  using manifest_register.raise_trunc_instant [OF assms] by blast

theorem raise_trunc_success_is_current_witness:
  "\<exists>mf' w'. run_state (raise_trunc demo_store demo_handle \<lparr>wc_epoch = 1, wc_owner = ''w''\<rparr> 3)
        (Some demo_stored, []) = ((Inr (), mf'), w')
     \<and> (\<exists>s r. instant demo_register (Some demo_stored, []) s w'
          \<and> decode_record (vm_fields s) = Inr r \<and> mr_owner r = ''w'' \<and> 3 \<le> mr_trunc r)"
proof -
  obtain mf' w' where r: "run_state (raise_trunc demo_store demo_handle \<lparr>wc_epoch = 1, wc_owner = ''w''\<rparr> 3)
      (Some demo_stored, []) = ((Inr (), mf'), w')"
    using demo_raise_run demo_logged_run [of demo_handle "Cmd_Raise_Trunc \<lparr>wc_epoch = 1, wc_owner = ''w''\<rparr> 3"]
    by (metis run_mutator.simps(5))
  have "3 \<le> u64_max" by (simp add: u64_max_def)
  from raise_trunc_success_is_current [OF local_register.manifest_register_axioms demo_buckets this demo_coherent(2) r] r
  show ?thesis by auto
qed

end
