(* ===== verification/Segment_Read.thy ===== *)
theory Segment_Read
  imports Recovery Manifest_History "HOL-Library.List_Lexorder" "HOL-Library.Char_ord"
begin

text \<open>
  Reading segments, from \<open>segment.rs\<close>: segment ids and object names, the
  descriptors derived from the manifest directory, verified reads of sealed
  segments, majority reads of the active segment, and the rounds of the
  readonly follower.  The storage of all zones is a record of operations on an
  abstract world, one \<open>replica_ops\<close> per object name.
\<close>

section \<open>Storage\<close>

record 'w factories =
  fa_count :: nat
  fa_replicas :: "string \<Rightarrow> 'w replica_ops"
  fa_list :: "nat \<Rightarrow> string \<Rightarrow> ('w, transport_error + listed_object list) state"

text \<open>
  \<open>LocalReplicaFactory\<close>: a single zone over a directory.  The file names a walk
  of the metadata directory finds and their modification times are arguments;
  a listing is sorted by name, so it does not depend on the order of the walk.
\<close>

definition local_list ::
  "(bytes \<Rightarrow> nat) \<Rightarrow> string list \<Rightarrow> (string \<Rightarrow> nat option) \<Rightarrow> string \<Rightarrow> local_world
     \<Rightarrow> (transport_error + listed_object list) \<times> local_world" where
  "local_list crc names modified pre w =
     (and_then (collect_results (map (\<lambda>name.
         case fs_meta w name of
           None \<Rightarrow> Inr []
         | Some m \<Rightarrow> and_then (read_data name w) (\<lambda>b.
             Inr [\<lparr>lo_zone = 0, lo_name = name, lo_generation = om_generation m, lo_size = int (length b),
                   lo_finalized = om_finalized m, lo_last_modified = modified name,
                   lo_crc32c = (if om_finalized m then Some (crc b) else None),
                   lo_metadata = om_metadata m\<rparr>]))
         (filter (\<lambda>name. prefix pre name) names)))
       (\<lambda>listed. Inr (sort_key lo_name (concat listed))), w)"

definition local_factories ::
  "(bytes \<Rightarrow> nat) \<Rightarrow> string list \<Rightarrow> (string \<Rightarrow> nat option) \<Rightarrow> local_world factories" where
  "local_factories crc names modified =
     \<lparr>fa_count = 1, fa_replicas = local_ops crc,
      fa_list = (\<lambda>z pre. State (local_list crc names modified pre))\<rparr>"

record segment_descriptor =
  sd_id :: string
  sd_base :: nat
  sd_end :: nat
  sd_crc32c :: nat
  sd_copies :: nat
  sd_finalized_copies :: nat
  sd_seal_pending :: bool

record wal_record =
  wr_seqno :: wal_seq_no
  wr_payload :: bytes

definition next_seqno :: "wal_record \<Rightarrow> wal_seq_no" where
  "next_seqno r = WalSeqNo (get_seq (wr_seqno r) + 1)"

text \<open>\<open>str::split_once\<close>.\<close>

fun split_once :: "char \<Rightarrow> string \<Rightarrow> (string \<times> string) option" where
  "split_once sep [] = None"
| "split_once sep (c # cs) =
     (if c = sep then Some ([], cs)
      else map_option (\<lambda>(a, b). (c # a, b)) (split_once sep cs))"

definition id_epoch :: "string \<Rightarrow> nat option" where
  "id_epoch i =
     (case split_once (CHR ''-'') i of
        None \<Rightarrow> None
      | Some (epoch, _) \<Rightarrow> if length epoch \<noteq> 16 then None else from_str_radix u64_max 16 epoch)"

definition segments_prefix :: "string \<Rightarrow> string" where
  "segments_prefix pre = pre @ ''/segments/''"

definition segment_object :: "string \<Rightarrow> string \<Rightarrow> string" where
  "segment_object pre i = pre @ ''/segments/'' @ i"

definition hex8 :: "nat \<Rightarrow> string" where
  "hex8 n = pad_zero 8 (show_hex n)"


section \<open>Sealed segments\<close>

definition usable_sealed_snapshot :: "replica_snapshot \<Rightarrow> nat \<Rightarrow> bool \<Rightarrow> bool" where
  "usable_sealed_snapshot s expected_records require_finalized \<longleftrightarrow>
     (require_finalized \<longrightarrow> rs_finalized s) \<and> valid_format (rs_metadata s)
   \<and> validate_all (rs_bytes s) = Inr expected_records"

fun permanent_read_code :: "transport_code \<Rightarrow> bool" where
  "permanent_read_code PermissionDenied = True"
| "permanent_read_code Unauthenticated = True"
| "permanent_read_code InvalidArgument = True"
| "permanent_read_code _ = False"

definition quorum_impossible_error ::
  "nat \<Rightarrow> nat \<Rightarrow> (nat \<times> transport_error) list \<Rightarrow> error option" where
  "quorum_impossible_error replica_count q permanent =
     (if q \<le> replica_count - length permanent then None
      else case permanent of
        [] \<Rightarrow> None
      | (zone, e) # _ \<Rightarrow> Some (Err_Transport zone (te_code e) (te_message e)))"

definition unwrap_or :: "'a option \<Rightarrow> 'a \<Rightarrow> 'a" where
  "unwrap_or x d = (case x of None \<Rightarrow> d | Some y \<Rightarrow> y)"

text \<open>The loop of \<open>read_sealed_segment_bytes\<close> over the zones: the first copy that matches the
  committed checksum ends it, the others are collected.\<close>

datatype sealed_scan =
    Scan_Verified bytes
  | Scan_Collected "replica_snapshot list" "(nat \<times> transport_error) list"

definition verified_copy :: "(bytes \<Rightarrow> nat) \<Rightarrow> bool \<Rightarrow> nat \<Rightarrow> nat \<Rightarrow> replica_snapshot \<Rightarrow> bool" where
  "verified_copy crc accept_unfinalized expected_records expected_crc32c s \<longleftrightarrow>
     rs_crc32c s = Some expected_crc32c \<and> crc (rs_bytes s) = expected_crc32c
   \<and> usable_sealed_snapshot s expected_records (\<not> accept_unfinalized)"

fun scan_sealed_copies ::
  "'w replica_ops \<Rightarrow> (replica_snapshot \<Rightarrow> bool) \<Rightarrow> nat list \<Rightarrow> replica_snapshot list
     \<Rightarrow> (nat \<times> transport_error) list \<Rightarrow> ('w, sealed_scan) state" where
  "scan_sealed_copies ops ok [] snaps permanent = State_Monad.return (Scan_Collected snaps permanent)"
| "scan_sealed_copies ops ok (z # zs) snaps permanent = do {
     r \<leftarrow> op_snapshot ops z;
     case r of
       Inr s \<Rightarrow> if ok s then State_Monad.return (Scan_Verified (rs_bytes s))
               else scan_sealed_copies ops ok zs (snaps @ [s]) permanent
     | Inl e \<Rightarrow> scan_sealed_copies ops ok zs snaps
                 (if permanent_read_code (te_code e) then permanent @ [(z, e)] else permanent)
   }"

text \<open>The fallback when no single copy is verified: a quorum of usable copies, checked again.\<close>

definition sealed_from_quorum ::
  "(bytes \<Rightarrow> nat) \<Rightarrow> nat \<Rightarrow> segment_descriptor \<Rightarrow> nat \<Rightarrow> replica_snapshot list
     \<Rightarrow> (nat \<times> transport_error) list \<Rightarrow> error + bytes \<times> record_frame list" where
  "sealed_from_quorum crc n seg expected_records snapshots permanent =
     (let usable = filter (\<lambda>s. usable_sealed_snapshot s expected_records True) snapshots;
          q = majority n
      in if length usable < q
         then Inl (unwrap_or (quorum_impossible_error n q permanent) Err_NoReadQuorum)
         else case canonical_prefix_bytes usable q of
           Inl e \<Rightarrow> Inl (error_of_protocol e)
         | Inr data \<Rightarrow>
             (case decode_all_bytes data of
                Inl e \<Rightarrow> Inl (error_of_record e)
              | Inr records \<Rightarrow>
                  if length records \<noteq> expected_records
                  then Inl (Err_InvalidSegmentData (''segment '' @ show_dec (sd_base seg) @ '' should contain ''
                         @ show_dec expected_records @ '' records but contains '' @ show_dec (length records)))
                  else if crc data \<noteq> sd_crc32c seg
                  then Inl (Err_InvalidSegmentData (''segment '' @ show_dec (sd_base seg) @ '' quorum bytes have CRC32C ''
                         @ hex8 (crc data) @ '', expected '' @ hex8 (sd_crc32c seg)))
                  else Inr (data, records)))"

definition expected_record_count :: "nat \<Rightarrow> nat \<Rightarrow> nat option" where
  "expected_record_count base_index end_index =
     (case checked_sub end_index base_index of None \<Rightarrow> None | Some span \<Rightarrow> checked_add u64_max span 1)"

definition read_sealed_segment_bytes ::
  "'w factories \<Rightarrow> (bytes \<Rightarrow> nat) \<Rightarrow> string \<Rightarrow> segment_descriptor \<Rightarrow> bool
     \<Rightarrow> ('w, error + bytes \<times> record_frame list) state" where
  "read_sealed_segment_bytes fac crc object seg accept_unfinalized_crc_match =
     (case expected_record_count (sd_base seg) (sd_end seg) of
        None \<Rightarrow> State_Monad.return (Inl (Err_InvalidCatalog (''sealed segment '' @ show_dec (sd_base seg)
                  @ '' has invalid end '' @ show_dec (sd_end seg))))
      | Some expected_records \<Rightarrow>
          if fa_count fac = 0
          then State_Monad.return (Inl (Err_InvalidCatalog ''sealed segment has no configured replicas''))
          else do {
            scan \<leftarrow> scan_sealed_copies (fa_replicas fac object)
              (verified_copy crc accept_unfinalized_crc_match expected_records (sd_crc32c seg))
              [0..<fa_count fac] [] [];
            State_Monad.return (case scan of
              Scan_Verified data \<Rightarrow>
                (case decode_all_bytes data of
                   Inl e \<Rightarrow> Inl (error_of_record e)
                 | Inr records \<Rightarrow> Inr (data, records))
            | Scan_Collected snapshots permanent \<Rightarrow>
                sealed_from_quorum crc (fa_count fac) seg expected_records snapshots permanent)
          })"

definition read_sealed_segment ::
  "'w factories \<Rightarrow> (bytes \<Rightarrow> nat) \<Rightarrow> string \<Rightarrow> segment_descriptor \<Rightarrow> bool
     \<Rightarrow> ('w, error + record_frame list) state" where
  "read_sealed_segment fac crc object seg accept = do {
     r \<leftarrow> read_sealed_segment_bytes fac crc object seg accept;
     State_Monad.return (and_then r (\<lambda>(_, records). Inr records))
   }"

text \<open>The records of one segment that fall into a replay range.\<close>

definition replay_records ::
  "segment_descriptor \<Rightarrow> record_frame list \<Rightarrow> wal_seq_no \<Rightarrow> wal_seq_no \<Rightarrow> wal_record list" where
  "replay_records seg frames from end =
     map (\<lambda>(i, f). \<lparr>wr_seqno = WalSeqNo i, wr_payload = payload f\<rparr>)
       (filter (\<lambda>(i, f). \<not> (i < get_seq from \<or> get_seq end \<le> i))
         (zip [sd_base seg..<sd_base seg + length frames] frames))"


section \<open>The manifest as a catalog\<close>

definition check_readonly_floor :: "manifest_record \<Rightarrow> wal_seq_no \<Rightarrow> error + unit" where
  "check_readonly_floor r n =
     (if get_seq n < mr_trunc r then Inl (Err_ReadOnlyLagged n (WalSeqNo (mr_trunc r))) else Inr ())"

fun readonly_segments_from ::
  "manifest_record \<Rightarrow> directory_entry list \<Rightarrow> error + segment_descriptor list" where
  "readonly_segments_from r [] = Inr []"
| "readonly_segments_from r (e # rest) =
     (let following = (case rest of [] \<Rightarrow> mr_tail_base r | e' # _ \<Rightarrow> de_base e')
      in case checked_sub following 1 of
           None \<Rightarrow> Inl (Err_InvalidCatalog (''cannot derive an end for readonly segment '' @ de_id e
                    @ '' at base '' @ show_dec (de_base e)))
         | Some end_record_index \<Rightarrow>
             if end_record_index < de_base e
             then Inl (Err_InvalidCatalog (''readonly segment '' @ de_id e @ '' at base '' @ show_dec (de_base e)
                    @ '' extends past following base '' @ show_dec following))
             else and_then (readonly_segments_from r rest) (\<lambda>segs.
               Inr (\<lparr>sd_id = de_id e, sd_base = de_base e, sd_end = end_record_index,
                     sd_crc32c = de_crc32c e, sd_copies = 0, sd_finalized_copies = 0,
                     sd_seal_pending = (mr_seal_id r = Some (de_id e))\<rparr> # segs)))"

definition readonly_segments :: "manifest_record \<Rightarrow> error + segment_descriptor list" where
  "readonly_segments r = readonly_segments_from r (mr_segments r)"


section \<open>The active segment\<close>

datatype active_read_observation =
    Read_Pending
  | Read_Failed "transport_error option"
  | Read_Records "record_frame list"

datatype active_read_decision =
    Decision_Pending
  | Decision_Frames "record_frame list"
  | Decision_NoReadQuorum

definition observed_records :: "active_read_observation list \<Rightarrow> record_frame list list" where
  "observed_records obs = List.map_filter (\<lambda>x. case x of Read_Records fs \<Rightarrow> Some fs | _ \<Rightarrow> None) obs"

definition pending_reads :: "active_read_observation list \<Rightarrow> nat" where
  "pending_reads obs = length (filter (\<lambda>x. x = Read_Pending) obs)"

text \<open>The votes for one record index, keyed by encoded bytes in the order of first appearance.\<close>

fun add_vote ::
  "bytes \<Rightarrow> record_frame \<Rightarrow> (bytes \<times> nat \<times> record_frame) list \<Rightarrow> (bytes \<times> nat \<times> record_frame) list" where
  "add_vote b f [] = [(b, 1, f)]"
| "add_vote b f ((b', k, g) # vs) = (if b' = b then (b', k + 1, g) # vs else (b', k, g) # add_vote b f vs)"

fun tally ::
  "nat \<Rightarrow> record_frame list list \<Rightarrow> (bytes \<times> nat \<times> record_frame) list \<Rightarrow> nat
     \<Rightarrow> error + (bytes \<times> nat \<times> record_frame) list \<times> nat" where
  "tally i [] votes end_votes = Inr (votes, end_votes)"
| "tally i (fs # rest) votes end_votes =
     (if i < length fs
      then (case encode (fs ! i) of
              Inl e \<Rightarrow> Inl (error_of_record e)
            | Inr b \<Rightarrow> tally i rest (add_vote b (fs ! i) votes) end_votes)
      else tally i rest votes (end_votes + 1))"

definition winner :: "nat \<Rightarrow> (bytes \<times> nat \<times> record_frame) list \<Rightarrow> record_frame option" where
  "winner q votes = map_option (\<lambda>(_, _, f). f) (List.find (\<lambda>(_, k, _). q \<le> k) votes)"

lemma tally_beyond:
  assumes "tally i rs votes ends = Inr (votes', ends')" "\<forall>fs \<in> set rs. length fs \<le> i"
  shows "votes' = votes"
  using assms by (induction i rs votes ends rule: tally.induct) auto

lemma winner_in_range:
  assumes "tally i rs [] 0 = Inr (votes, ends)" "winner q votes = Some f"
  shows "i < foldr (max \<circ> length) rs 0"
proof -
  have "votes \<noteq> []" using assms(2) by (auto simp: winner_def)
  then obtain fs where fs: "fs \<in> set rs" "i < length fs"
    using tally_beyond [OF assms(1)] by (meson not_le)
  from fs(1) have "length fs \<le> foldr (max \<circ> length) rs 0" by (induction rs) auto
  with fs(2) show ?thesis by simp
qed

text \<open>The loop over record indices; \<open>rs\<close> are the records observed so far.\<close>

function decide_from ::
  "record_frame list list \<Rightarrow> nat \<Rightarrow> nat \<Rightarrow> record_frame list \<Rightarrow> error + active_read_decision" where
  "decide_from rs pending q accepted =
     (case tally (length accepted) rs [] 0 of
        Inl e \<Rightarrow> Inl e
      | Inr (votes, end_votes) \<Rightarrow>
          (case winner q votes of
             Some f \<Rightarrow> decide_from rs pending q (accepted @ [f])
           | None \<Rightarrow>
               if accepted \<noteq> [] \<or> q \<le> end_votes then Inr (Decision_Frames accepted)
               else if pending = 0
               then (if length rs < q then Inr Decision_NoReadQuorum else Inr (Decision_Frames []))
               else Inr Decision_Pending))"
  by pat_completeness auto
termination
proof (relation "measure (\<lambda>(rs, pending, q, accepted). foldr (max \<circ> length) rs 0 - length accepted)",
    goal_cases)
  case (2 rs pending q accepted p votes ends f)
  then show ?case using winner_in_range [of "length accepted" rs votes ends q f] by (auto simp: diff_less_mono2)
qed simp

declare decide_from.simps [simp del]

definition active_read_decision ::
  "active_read_observation list \<Rightarrow> nat \<Rightarrow> error + active_read_decision" where
  "active_read_decision obs q = decide_from (observed_records obs) (pending_reads obs) q []"

definition permanent_active_read_failure :: "active_read_observation list \<Rightarrow> nat \<Rightarrow> error option" where
  "permanent_active_read_failure obs q =
     quorum_impossible_error (length obs) q
       (List.map_filter (\<lambda>(zone, x). case x of
           Read_Failed (Some e) \<Rightarrow> if permanent_read_code (te_code e) then Some (zone, e) else None
         | _ \<Rightarrow> None) (enumerate 0 obs))"

section \<open>Polling the active segment\<close>

record active_read_state =
  ar_id :: string
  ar_epoch :: nat
  ar_base :: nat
  ar_byte_offset :: int
  ar_skip_records :: nat
  ar_replicas :: nat
  ar_inflight_offsets :: "int option list"
  ar_generations :: "int option list"

record active_read_result =
  rd_replica_index :: nat
  rd_byte_offset :: int
  rd_read :: "transport_error + replica_range_read"

definition start_active_read :: "active_read_state \<Rightarrow> nat \<Rightarrow> active_read_state" where
  "start_active_read st z =
     (if ar_inflight_offsets st ! z \<noteq> None then st
      else st\<lparr>ar_inflight_offsets := (ar_inflight_offsets st)[z := Some (ar_byte_offset st)]\<rparr>)"

definition ensure_active_reads :: "active_read_state \<Rightarrow> active_read_state" where
  "ensure_active_reads st = foldl start_active_read st [0..<ar_replicas st]"

text \<open>What one answer at the polled offset contributes; the generation is remembered.\<close>

definition observe_active_read ::
  "bool \<Rightarrow> nat \<Rightarrow> transport_error + replica_range_read \<Rightarrow> active_read_state
     \<Rightarrow> (error + active_read_observation) \<times> active_read_state" where
  "observe_active_read snapshot z read st =
     (case read of
        Inr rd \<Rightarrow>
          (let seen = ar_generations st ! z;
               st' = st\<lparr>ar_generations := (ar_generations st)[z := Some (rr_generation rd)]\<rparr>
           in if seen \<noteq> None \<and> seen \<noteq> Some (rr_generation rd) then (Inr (Read_Failed None), st')
              else (Inr (Read_Records (fst (decode_complete_prefix (rr_bytes rd)))), st'))
      | Inl e \<Rightarrow>
          if snapshot \<and> te_code e = NotFound then (Inr (Read_Records []), st)
          else if te_code e = Unimplemented
          then (Inl (Err_Transport z (te_code e)
                  (''readonly following requires Replica::read_range: '' @ te_message e)), st)
          else (Inr (Read_Failed (Some e)), st))"

definition possible_longer :: "active_read_observation list \<Rightarrow> record_frame list \<Rightarrow> nat" where
  "possible_longer obs frames =
     length (filter (\<lambda>x. case x of
         Read_Pending \<Rightarrow> True
       | Read_Records records \<Rightarrow> length frames < length records
       | Read_Failed _ \<Rightarrow> False) obs)"

text \<open>
  The loop of \<open>read_active_quorum\<close> over the answers in the order in which they
  complete.  \<open>None\<close> is the wait for an answer that has not completed yet; with
  no read in flight the stream of answers has ended.
\<close>

datatype poll_step =
    Poll_Done "error + record_frame list"
  | Poll_More "active_read_observation list"

definition poll_answer ::
  "bool \<Rightarrow> int \<Rightarrow> nat \<Rightarrow> active_read_result \<Rightarrow> active_read_observation list \<Rightarrow> active_read_state
     \<Rightarrow> poll_step \<times> active_read_state" where
  "poll_answer snapshot offset q a obs st =
     (let z = rd_replica_index a;
          st = (if ar_inflight_offsets st ! z = Some (rd_byte_offset a)
                then st\<lparr>ar_inflight_offsets := (ar_inflight_offsets st)[z := None]\<rparr> else st)
      in if rd_byte_offset a \<noteq> offset then (Poll_More obs, start_active_read st z)
         else case observe_active_read snapshot z (rd_read a) st of
           (Inl e, st') \<Rightarrow> (Poll_Done (Inl e), st')
         | (Inr x, st') \<Rightarrow>
             (let obs' = obs[z := x]
              in (case active_read_decision obs' q of
                    Inl e \<Rightarrow> Poll_Done (Inl e)
                  | Inr Decision_Pending \<Rightarrow> Poll_More obs'
                  | Inr (Decision_Frames frames) \<Rightarrow>
                      if \<not> snapshot \<or> pending_reads obs' = 0 \<or> possible_longer obs' frames < q
                      then Poll_Done (Inr frames) else Poll_More obs'
                  | Inr Decision_NoReadQuorum \<Rightarrow>
                      Poll_Done (Inl (unwrap_or (permanent_active_read_failure obs' q) Err_NoReadQuorum)),
                  st')))"

fun poll_answers ::
  "bool \<Rightarrow> int \<Rightarrow> nat \<Rightarrow> active_read_result list \<Rightarrow> active_read_observation list \<Rightarrow> active_read_state
     \<Rightarrow> (error + record_frame list) option \<times> active_read_state" where
  "poll_answers snapshot offset q [] obs st =
     (if \<forall>x \<in> set (ar_inflight_offsets st). x = None then Some (Inl Err_NoReadQuorum) else None, st)"
| "poll_answers snapshot offset q (a # rest) obs st =
     (case poll_answer snapshot offset q a obs st of
        (Poll_Done r, st') \<Rightarrow> (Some r, st')
      | (Poll_More obs', st') \<Rightarrow> poll_answers snapshot offset q rest obs' st')"

definition read_active_quorum ::
  "bool \<Rightarrow> active_read_result list \<Rightarrow> active_read_state
     \<Rightarrow> (error + record_frame list) option \<times> active_read_state" where
  "read_active_quorum snapshot answers st =
     (if ar_replicas st = 0
      then (Some (Inl (Err_InvalidCatalog ''active segment has no configured replicas'')), st)
      else poll_answers snapshot (ar_byte_offset st) (majority (ar_replicas st)) answers
             (replicate (ar_replicas st) Read_Pending) (ensure_active_reads st))"


section \<open>The readonly follower\<close>

text \<open>One pass over the sealed segments: the records emitted, the next sequence number, and whether the
  pass went through (\<open>Inr True\<close>), has to be repeated (\<open>Inr False\<close>) or failed.\<close>

fun follow_sealed ::
  "'w factories \<Rightarrow> (bytes \<Rightarrow> nat) \<Rightarrow> string \<Rightarrow> wal_seq_no \<Rightarrow> segment_descriptor list \<Rightarrow> wal_seq_no
     \<Rightarrow> ('w, wal_record list \<times> wal_seq_no \<times> (error + bool)) state" where
  "follow_sealed fac crc pre sealed_end [] nx = State_Monad.return ([], nx, Inr True)"
| "follow_sealed fac crc pre sealed_end (seg # rest) nx =
     (if sd_end seg < get_seq nx \<or> get_seq sealed_end \<le> sd_base seg
      then follow_sealed fac crc pre sealed_end rest nx
      else do {
        r \<leftarrow> read_sealed_segment fac crc (segment_object pre (sd_id seg)) seg (sd_seal_pending seg);
        case r of
          Inl e \<Rightarrow> State_Monad.return ([], nx, if e = Err_NoReadQuorum then Inr False else Inl e)
        | Inr frames \<Rightarrow>
            (let records = replay_records seg frames nx sealed_end
             in do {
               (later, nx', status) \<leftarrow> follow_sealed fac crc pre sealed_end rest
                 (if records = [] then nx else next_seqno (last records));
               State_Monad.return (records @ later, nx', status)
             })
      })"

text \<open>The loop over the frames of the active segment.\<close>

fun emit_active ::
  "record_frame list \<Rightarrow> wal_seq_no \<Rightarrow> active_read_state
     \<Rightarrow> wal_record list \<times> wal_seq_no \<times> active_read_state \<times> error option" where
  "emit_active [] nx st = ([], nx, st, None)"
| "emit_active (f # rest) nx st =
     (case encoded_len f of
        Inl e \<Rightarrow> ([], nx, st, Some (error_of_record e))
      | Inr len \<Rightarrow>
          if 2 ^ 63 \<le> ar_byte_offset st + int len
          then ([], nx, st, Some (Err_InvalidSegmentData ''active segment byte offset overflowed''))
          else let st = st\<lparr>ar_byte_offset := ar_byte_offset st + int len\<rparr>
               in if 0 < ar_skip_records st
                  then emit_active rest nx (st\<lparr>ar_skip_records := ar_skip_records st - 1\<rparr>)
                  else let record = \<lparr>wr_seqno = nx, wr_payload = payload f\<rparr>;
                           (later, nx', st', e) = emit_active rest (next_seqno record) st
                       in (record # later, nx', st', e))"

definition new_active_state :: "manifest_record \<Rightarrow> string \<Rightarrow> nat \<Rightarrow> wal_seq_no \<Rightarrow> active_read_state" where
  "new_active_state r tail_id n nx =
     \<lparr>ar_id = tail_id, ar_epoch = mr_epoch r, ar_base = mr_tail_base r, ar_byte_offset = 0,
      ar_skip_records = get_seq nx - mr_tail_base r, ar_replicas = n,
      ar_inflight_offsets = replicate n None, ar_generations = replicate n None\<rparr>"

definition active_for :: "manifest_record \<Rightarrow> string \<Rightarrow> nat \<Rightarrow> wal_seq_no \<Rightarrow> active_read_state option \<Rightarrow> active_read_state" where
  "active_for r tail_id n nx active =
     (case active of
        Some st \<Rightarrow> if ar_id st \<noteq> tail_id \<or> ar_epoch st \<noteq> mr_epoch r \<or> ar_base st \<noteq> mr_tail_base r
                   then new_active_state r tail_id n nx else st
      | None \<Rightarrow> new_active_state r tail_id n nx)"

record follower =
  fo_next :: wal_seq_no
  fo_active :: "active_read_state option"

datatype round_result = Round_Next follower | Round_Failed error | Round_Waiting

text \<open>
  One iteration of the \<open>'follow\<close> loop, for the manifest record at hand and the
  answers the active reads deliver: the records emitted, and the follower to
  continue with, the error that ends the stream, or the wait for an answer
  that has not come.
\<close>

definition follow_active ::
  "'w factories \<Rightarrow> manifest_record \<Rightarrow> active_read_result list \<Rightarrow> wal_seq_no \<Rightarrow> active_read_state option
     \<Rightarrow> wal_record list \<times> round_result" where
  "follow_active fac r answers nx active =
     (if get_seq nx < mr_tail_base r
      then ([], Round_Failed (Err_InvalidCatalog (''readonly checkpoint '' @ show_dec (get_seq nx)
                  @ '' is not covered through published end '' @ show_dec (mr_tail_base r))))
      else case mr_tail_id r of
        None \<Rightarrow> ([], Round_Failed (Err_InvalidCatalog ''claimed manifest is missing chorus.tail_id''))
      | Some tail_id \<Rightarrow>
          (case read_active_quorum False answers (active_for r tail_id (fa_count fac) nx active) of
             (None, _) \<Rightarrow> ([], Round_Waiting)
           | (Some (Inl e), st) \<Rightarrow>
               ([], if e = Err_NoReadQuorum then Round_Next \<lparr>fo_next = nx, fo_active = Some st\<rparr> else Round_Failed e)
           | (Some (Inr frames), st) \<Rightarrow>
               (case emit_active frames nx st of
                  (out, nx', st', None) \<Rightarrow> (out, Round_Next \<lparr>fo_next = nx', fo_active = Some st'\<rparr>)
                | (out, nx', st', Some e) \<Rightarrow> (out, Round_Failed e))))"

definition follow_round ::
  "'w factories \<Rightarrow> (bytes \<Rightarrow> nat) \<Rightarrow> string \<Rightarrow> manifest_record \<Rightarrow> active_read_result list \<Rightarrow> follower
     \<Rightarrow> ('w, wal_record list \<times> round_result) state" where
  "follow_round fac crc pre r answers fo =
     (case and_then (check_readonly_floor r (fo_next fo)) (\<lambda>_. readonly_segments r) of
        Inl e \<Rightarrow> State_Monad.return ([], Round_Failed e)
      | Inr segments \<Rightarrow> do {
          (out, nx, status) \<leftarrow> follow_sealed fac crc pre (WalSeqNo (mr_tail_base r)) segments (fo_next fo);
          State_Monad.return (case status of
            Inl e \<Rightarrow> (out, Round_Failed e)
          | Inr False \<Rightarrow> (out, Round_Next (fo\<lparr>fo_next := nx\<rparr>))
          | Inr True \<Rightarrow>
              (case follow_active fac r answers nx (fo_active fo) of
                 (later, result) \<Rightarrow> (out @ later, result)))
        })"

text \<open>The stream: each round sees the latest manifest update, or the error that ended the poller.\<close>

fun follow_readonly ::
  "'w factories \<Rightarrow> (bytes \<Rightarrow> nat) \<Rightarrow> string \<Rightarrow> ((error + manifest_record) \<times> active_read_result list) list \<Rightarrow> follower
     \<Rightarrow> ('w, wal_record list \<times> round_result) state" where
  "follow_readonly fac crc pre [] fo = State_Monad.return ([], Round_Next fo)"
| "follow_readonly fac crc pre ((update, answers) # rest) fo =
     (case update of
        Inl e \<Rightarrow> State_Monad.return ([], Round_Failed e)
      | Inr r \<Rightarrow> do {
          (out, result) \<leftarrow> follow_round fac crc pre r answers fo;
          case result of
            Round_Next fo' \<Rightarrow> do {
              (later, result') \<leftarrow> follow_readonly fac crc pre rest fo';
              State_Monad.return (out @ later, result')
            }
          | _ \<Rightarrow> State_Monad.return (out, result)
        })"

record read_only_config =
  ro_poll_interval :: nat
  ro_manifest_poll_interval :: nat

definition default_read_only_config :: read_only_config where
  "default_read_only_config = \<lparr>ro_poll_interval = 1000000000, ro_manifest_poll_interval = 1000000000\<rparr>"

definition validate_read_only :: "read_only_config \<Rightarrow> error + unit" where
  "validate_read_only cfg =
     (if ro_poll_interval cfg = 0 then Inl (Err_InvalidConfig ''readonly poll_interval must be nonzero'')
      else if ro_manifest_poll_interval cfg = 0
      then Inl (Err_InvalidConfig ''readonly manifest_poll_interval must be nonzero'')
      else Inr ())"

text \<open>\<open>refresh_readonly_manifest\<close> waits and repeats while the register is unavailable; the first argument
  bounds the repetitions.\<close>

fun refresh_readonly_manifest ::
  "nat \<Rightarrow> 'w manifest_store \<Rightarrow> manifest \<Rightarrow> ('w, (error + manifest_record) option \<times> manifest) state" where
  "refresh_readonly_manifest 0 store mf = State_Monad.return (None, mf)"
| "refresh_readonly_manifest (Suc left) store mf = do {
     (r, mf') \<leftarrow> refreshed_existing_record store mf;
     case r of
       Inr (Some rec) \<Rightarrow> State_Monad.return (Some (Inr rec), mf')
     | Inr None \<Rightarrow> State_Monad.return (Some (Inl Err_Uninitialized), mf')
     | Inl e \<Rightarrow> if e = PE_ManifestUnavailable then refresh_readonly_manifest left store mf'
               else State_Monad.return (Some (Inl (error_of_protocol e)), mf')
   }"


section \<open>Sealed reads are verified\<close>

lemma scan_sealed_verified:
  "run_state (scan_sealed_copies ops ok zs snaps permanent) w = (Scan_Verified data, w') \<Longrightarrow>
     \<exists>s. ok s \<and> data = rs_bytes s"
  by (induction zs arbitrary: snaps permanent w) (auto split: prod.splits sum.splits if_splits)

lemma expected_record_count_Some:
  "expected_record_count a b = Some k \<longleftrightarrow> a \<le> b \<and> k = b - a + 1 \<and> k \<le> u64_max"
  by (auto simp: expected_record_count_def checked_sub_def checked_add_def split: if_splits)

lemma validate_all_Inr: "validate_all b = Inr k \<longleftrightarrow> (\<exists>fs. decode_all_bytes b = Inr fs \<and> length fs = k)"
  by (auto simp: validate_all_eq split: sum.splits)

definition sealed_content ::
  "(bytes \<Rightarrow> nat) \<Rightarrow> segment_descriptor \<Rightarrow> bytes \<Rightarrow> record_frame list \<Rightarrow> bool" where
  "sealed_content crc seg data records \<longleftrightarrow>
     encode_all records = Inr data \<and> crc data = sd_crc32c seg
   \<and> sd_base seg \<le> sd_end seg \<and> sd_base seg + length records = sd_end seg + 1"

lemma read_sealed_segment_bytes_content:
  assumes "run_state (read_sealed_segment_bytes fac crc object seg accept) w = (Inr (data, records), w')"
  shows "sealed_content crc seg data records"
proof -
  obtain k where k: "expected_record_count (sd_base seg) (sd_end seg) = Some k"
    using assms by (auto simp: read_sealed_segment_bytes_def split: option.splits)
  obtain scan w1 where scan: "run_state (scan_sealed_copies (fa_replicas fac object)
      (verified_copy crc accept k (sd_crc32c seg)) [0..<fa_count fac] [] []) w = (scan, w1)" by (rule prod.exhaust)
  have "decode_all_bytes data = Inr records \<and> length records = k \<and> crc data = sd_crc32c seg"
  proof (cases scan)
    case (Scan_Verified b)
    from scan_sealed_verified [OF scan [unfolded Scan_Verified]]
    obtain s where "verified_copy crc accept k (sd_crc32c seg) s" "b = rs_bytes s" by (elim exE conjE)
    moreover have "decode_all_bytes b = Inr records \<and> data = b"
      using assms k scan Scan_Verified by (auto simp: read_sealed_segment_bytes_def split: if_splits sum.splits)
    ultimately show ?thesis
      by (auto simp: verified_copy_def usable_sealed_snapshot_def validate_all_Inr)
  next
    case (Scan_Collected snaps permanent)
    then have "sealed_from_quorum crc (fa_count fac) seg k snaps permanent = Inr (data, records)"
      using assms k scan by (auto simp: read_sealed_segment_bytes_def split: if_splits)
    then show ?thesis
      by (auto simp: sealed_from_quorum_def Let_def split: if_splits sum.splits)
  qed
  then show ?thesis using k
    by (auto simp: sealed_content_def expected_record_count_Some encode_all_decode_all)
qed


section \<open>Majority reads\<close>

definition votes_for :: "nat \<Rightarrow> record_frame list list \<Rightarrow> record_frame \<Rightarrow> nat" where
  "votes_for i rs f = length (filter (\<lambda>fs. i < length fs \<and> fs ! i = f) rs)"

lemma encode_inj: "encode f = Inr b \<Longrightarrow> encode g = Inr b \<Longrightarrow> f = g"
  using decode_one_encode [of f b "[]"] decode_one_encode [of g b "[]"] by simp

lemma map_of_add_vote:
  "map_of (add_vote b f vs) =
     (map_of vs)(b \<mapsto> (case map_of vs b of None \<Rightarrow> (1, f) | Some (k, g) \<Rightarrow> (k + 1, g)))"
  by (induction b f vs rule: add_vote.induct) (auto split: option.splits)

lemma keys_add_vote: "set (map fst (add_vote b f vs)) = insert b (set (map fst vs))"
  by (induction b f vs rule: add_vote.induct) auto

lemma distinct_add_vote: "distinct (map fst vs) \<Longrightarrow> distinct (map fst (add_vote b f vs))"
  by (induction b f vs rule: add_vote.induct) (auto simp: keys_add_vote simp flip: set_map)

text \<open>A vote table counts, per encoding, the copies that hold that record at index \<open>i\<close>.\<close>

definition counted :: "nat \<Rightarrow> record_frame list list \<Rightarrow> (bytes \<times> nat \<times> record_frame) list \<Rightarrow> bool" where
  "counted i rs votes \<longleftrightarrow> distinct (map fst votes)
     \<and> (\<forall>b k f. map_of votes b = Some (k, f) \<longleftrightarrow> encode f = Inr b \<and> k = votes_for i rs f \<and> 0 < k)"

lemma counted_add_vote:
  assumes "counted i rs votes" "i < length fs" "encode (fs ! i) = Inr b"
  shows "counted i (rs @ [fs]) (add_vote b (fs ! i) votes)"
proof -
  let ?f = "fs ! i"
  have v: "votes_for i (rs @ [fs]) g = votes_for i rs g + (if g = ?f then 1 else 0)" for g
    using assms(2) by (auto simp: votes_for_def)
  have old: "map_of votes c = Some (k, g) \<longleftrightarrow> encode g = Inr c \<and> k = votes_for i rs g \<and> 0 < k" for c k g
    using assms(1) by (simp add: counted_def)
  have "map_of (add_vote b ?f votes) c = Some (k, g) \<longleftrightarrow>
      encode g = Inr c \<and> k = votes_for i (rs @ [fs]) g \<and> 0 < k" for c k g
  proof (cases "c = b")
    case False
    then have "encode g = Inr c \<Longrightarrow> g \<noteq> ?f" using assms(3) by auto
    then show ?thesis using False old by (auto simp: map_of_add_vote v)
  next
    case True
    have inj: "encode g = Inr b \<longleftrightarrow> g = ?f" for g using encode_inj assms(3) by blast
    show ?thesis
    proof (cases "map_of votes b")
      case None
      then have "votes_for i rs ?f = 0" using old [of b _ ?f] assms(3) by (metis gr0I option.distinct(1))
      then show ?thesis using None True by (auto simp: map_of_add_vote v inj)
    next
      case (Some p)
      then obtain k' g' where p: "p = (k', g')" by (cases p)
      with Some have "g' = ?f" "k' = votes_for i rs ?f" using old inj by auto
      then show ?thesis using Some p True by (auto simp: map_of_add_vote v inj)
    qed
  qed
  then show ?thesis using distinct_add_vote assms(1) by (simp add: counted_def)
qed

lemma counted_skip: "counted i rs votes \<Longrightarrow> \<not> i < length fs \<Longrightarrow> counted i (rs @ [fs]) votes"
  by (simp add: counted_def votes_for_def)

lemma tally_counted:
  assumes "tally i rs votes ends = Inr (votes', ends')" "counted i pre votes"
  shows "counted i (pre @ rs) votes' \<and> ends' = ends + length (filter (\<lambda>fs. length fs \<le> i) rs)"
  using assms
proof (induction rs arbitrary: pre votes ends)
  case (Cons fs rs)
  show ?case
  proof (cases "i < length fs")
    case True
    with Cons.prems obtain b where b: "encode (fs ! i) = Inr b"
        "tally i rs (add_vote b (fs ! i) votes) ends = Inr (votes', ends')"
      by (auto split: sum.splits)
    from Cons.IH [OF b(2) counted_add_vote [OF Cons.prems(2) True b(1)]] True show ?thesis by simp
  next
    case False
    then have t: "tally i rs votes (ends + 1) = Inr (votes', ends')" using Cons.prems(1) by simp
    from Cons.IH [OF t counted_skip [OF Cons.prems(2) False]] False show ?thesis by simp
  qed
qed auto

lemma counted_Nil: "counted i [] []"
  by (auto simp: counted_def votes_for_def)

lemma tally_votes:
  assumes "tally i rs [] 0 = Inr (votes, ends)"
  shows "counted i rs votes" "ends = length (filter (\<lambda>fs. length fs \<le> i) rs)"
  using tally_counted [OF assms counted_Nil] by simp_all

lemma winner_votes:
  assumes "tally i rs [] 0 = Inr (votes, ends)" "winner q votes = Some f"
  shows "q \<le> votes_for i rs f" "0 < votes_for i rs f"
proof -
  from assms(2) obtain b k where "List.find (\<lambda>(_, k, _). q \<le> k) votes = Some (b, k, f)"
    by (auto simp: winner_def)
  then have bk: "(b, k, f) \<in> set votes" "q \<le> k"
    by (auto simp: find_Some_iff in_set_conv_nth)
  have "map_of votes b = Some (k, f)"
    using bk(1) tally_votes(1) [OF assms(1)] by (simp add: counted_def)
  then have "k = votes_for i rs f \<and> 0 < k" using tally_votes(1) [OF assms(1)] by (simp add: counted_def)
  with bk show "q \<le> votes_for i rs f" "0 < votes_for i rs f" by auto
qed

lemma no_winner_votes:
  assumes "tally i rs [] 0 = Inr (votes, ends)" "winner q votes = None" "encode f = Inr b" "0 < q"
  shows "votes_for i rs f < q"
proof (rule ccontr)
  assume *: "\<not> votes_for i rs f < q"
  then have "map_of votes b = Some (votes_for i rs f, f)"
    using tally_votes(1) [OF assms(1)] assms(3,4) by (simp add: counted_def)
  then have "(b, votes_for i rs f, f) \<in> set votes" by (rule map_of_SomeD)
  moreover have "\<forall>b k g. (b, k, g) \<in> set votes \<longrightarrow> \<not> q \<le> k"
    using assms(2) by (auto simp: winner_def find_None_iff)
  ultimately show False using * by (meson not_less)
qed

lemma decide_from_pending: "decide_from rs 0 q accepted \<noteq> Inr Decision_Pending"
proof (induction rs "0 :: nat" q accepted rule: decide_from.induct)
  case (1 rs q accepted)
  then show ?case by (subst decide_from.simps) (auto split: sum.splits option.splits)
qed

lemma decide_from_frames:
  assumes "decide_from rs pending q accepted = Inr (Decision_Frames fs)"
    and "\<And>i. i < length accepted \<Longrightarrow> q \<le> votes_for i rs (accepted ! i)"
    and "i < length fs"
  shows "q \<le> votes_for i rs (fs ! i)"
  using assms
proof (induction rs pending q accepted rule: decide_from.induct)
  case (1 rs pending q accepted)
  obtain votes ends where t: "tally (length accepted) rs [] 0 = Inr (votes, ends)"
    using 1(2) by (subst (asm) decide_from.simps) (auto split: sum.splits)
  show ?case
  proof (cases "winner q votes")
    case (Some f)
    have rec: "decide_from rs pending q (accepted @ [f]) = Inr (Decision_Frames fs)"
      using 1(2) t Some by (subst (asm) decide_from.simps) simp
    have "q \<le> votes_for k rs ((accepted @ [f]) ! k)" if "k < length (accepted @ [f])" for k
      using that 1(3) [of k] winner_votes(1) [OF t Some] by (cases "k = length accepted") (auto simp: nth_append)
    with 1(1) [OF t refl Some rec] 1(4) show ?thesis by blast
  next
    case None
    then have "fs = accepted" using 1(2) t by (subst (asm) decide_from.simps) (auto split: if_splits)
    with 1(3,4) show ?thesis by blast
  qed
qed

lemma tally_total:
  "\<forall>fs \<in> set rs. \<forall>f \<in> set fs. is_ok (encode f) \<Longrightarrow> \<exists>votes' ends'. tally i rs votes ends = Inr (votes', ends')"
  by (induction i rs votes ends rule: tally.induct) (fastforce simp: is_ok_iff)+

lemma votes_unique:
  assumes "q \<le> votes_for i rs f" "q \<le> votes_for i rs g" "length rs < 2 * q"
  shows "f = g"
proof (rule ccontr)
  assume "f \<noteq> g"
  then have "votes_for i rs f + votes_for i rs g \<le> length rs"
    by (induction rs) (auto simp: votes_for_def)
  with assms show False by simp
qed

lemma decide_from_reaches:
  assumes "0 < q" "length rs < 2 * q" "\<forall>fs \<in> set rs. \<forall>f \<in> set fs. is_ok (encode f)"
    and "\<And>i. i < length cs \<Longrightarrow> q \<le> votes_for i rs (cs ! i)" "cs \<noteq> []"
    and "prefix accepted cs \<or> prefix cs accepted"
  shows "\<exists>fs. decide_from rs pending q accepted = Inr (Decision_Frames fs) \<and> prefix cs fs"
  using assms
proof (induction rs pending q accepted rule: decide_from.induct)
  case (1 rs pending q accepted)
  obtain votes ends where t: "tally (length accepted) rs [] 0 = Inr (votes, ends)"
    using tally_total [OF 1(4)] by blast
  have due: "\<exists>b. encode (cs ! i) = Inr b" if "i < length cs" for i
  proof -
    from 1(5) [OF that] 1(2) have "0 < votes_for i rs (cs ! i)" by simp
    then obtain fs where "fs \<in> set rs" "i < length fs" "fs ! i = cs ! i"
      unfolding votes_for_def length_greater_0_conv filter_empty_conv by blast
    with 1(4) show ?thesis using nth_mem is_ok_iff by metis
  qed
  show ?case
  proof (cases "winner q votes")
    case (Some f)
    have "prefix (accepted @ [f]) cs \<or> prefix cs (accepted @ [f])"
    proof (cases "length accepted < length cs")
      case True
      then have "prefix accepted cs" using 1(7) prefix_length_le leD by blast
      moreover have "f = cs ! length accepted"
        using votes_unique [OF winner_votes(1) [OF t Some] 1(5) [OF True] 1(3)] .
      ultimately show ?thesis using True by (auto simp: prefix_def nth_append neq_Nil_conv)
    next
      case False
      then have "prefix cs accepted" using 1(7) by (auto simp: prefix_def)
      then show ?thesis using prefix_prefix by blast
    qed
    from 1(1) [OF t refl Some 1(2-6) this] t Some show ?thesis by (subst decide_from.simps) simp
  next
    case None
    have "\<not> length accepted < length cs"
      using due no_winner_votes [OF t None _ 1(2)] 1(5) by (meson leD)
    then have "prefix cs accepted" "accepted \<noteq> []" using 1(6,7) by (auto simp: prefix_def)
    then show ?thesis using t None by (subst decide_from.simps) simp
  qed
qed


text \<open>Votes among the observed records are votes of zones.\<close>

definition holds_at :: "nat \<Rightarrow> record_frame \<Rightarrow> active_read_observation \<Rightarrow> bool" where
  "holds_at i f x \<longleftrightarrow> (\<exists>fs. x = Read_Records fs \<and> i < length fs \<and> fs ! i = f)"

lemma observed_records_simps [simp]:
  "observed_records [] = []"
  "observed_records (x # obs) = (case x of Read_Records fs \<Rightarrow> [fs] | _ \<Rightarrow> []) @ observed_records obs"
  by (simp_all add: observed_records_def map_filter_simps split: active_read_observation.splits)

lemma votes_for_zones: "votes_for i (observed_records obs) f = length (filter (holds_at i f) obs)"
proof (induction obs)
  case (Cons x obs)
  then show ?case by (cases x) (auto simp: votes_for_def holds_at_def)
qed (simp add: votes_for_def)

lemma observed_records_mem: "fs \<in> set (observed_records obs) \<longleftrightarrow> Read_Records fs \<in> set obs"
proof (induction obs)
  case (Cons x obs)
  then show ?case by (cases x) auto
qed simp

lemma length_observed_records: "length (observed_records obs) \<le> length obs"
proof (induction obs)
  case (Cons x obs)
  then show ?case by (cases x) auto
qed simp


section \<open>Polls\<close>

lemma ensure_active_reads_fields:
  "ar_byte_offset (ensure_active_reads st) = ar_byte_offset st
   \<and> ar_skip_records (ensure_active_reads st) = ar_skip_records st
   \<and> ar_base (ensure_active_reads st) = ar_base st \<and> ar_replicas (ensure_active_reads st) = ar_replicas st"
proof -
  have "ar_byte_offset (foldl start_active_read st zs) = ar_byte_offset st
    \<and> ar_skip_records (foldl start_active_read st zs) = ar_skip_records st
    \<and> ar_base (foldl start_active_read st zs) = ar_base st \<and> ar_replicas (foldl start_active_read st zs) = ar_replicas st" for zs
    by (induction zs arbitrary: st) (auto simp: start_active_read_def)
  then show ?thesis by (simp add: ensure_active_reads_def)
qed

lemma observe_active_read_fields:
  "observe_active_read snapshot z rd st = (r, st') \<Longrightarrow>
     ar_byte_offset st' = ar_byte_offset st \<and> ar_skip_records st' = ar_skip_records st \<and> ar_base st' = ar_base st \<and> ar_replicas st' = ar_replicas st"
  by (auto simp: observe_active_read_def Let_def split: sum.splits if_splits)

lemma poll_answer_fields:
  "poll_answer snapshot offset q a obs st = (r, st') \<Longrightarrow>
     ar_byte_offset st' = ar_byte_offset st \<and> ar_skip_records st' = ar_skip_records st \<and> ar_base st' = ar_base st \<and> ar_replicas st' = ar_replicas st"
  by (auto simp: poll_answer_def Let_def start_active_read_def dest!: observe_active_read_fields
      split: sum.splits if_splits prod.splits)

lemma poll_answers_fields:
  "poll_answers snapshot offset q answers obs st = (r, st') \<Longrightarrow>
     ar_byte_offset st' = ar_byte_offset st \<and> ar_skip_records st' = ar_skip_records st \<and> ar_base st' = ar_base st \<and> ar_replicas st' = ar_replicas st"
  by (induction answers arbitrary: obs st)
    (force dest!: poll_answer_fields split: prod.splits poll_step.splits)+

text \<open>What one answer does to the observations.\<close>

lemma poll_answer_cases:
  assumes "poll_answer snapshot offset q a obs st = (r, st')"
  obtains (stale) "rd_byte_offset a \<noteq> offset" "r = Poll_More obs"
  | (failed) e where "r = Poll_Done (Inl e)"
  | (frames) x frames where "rd_byte_offset a = offset"
      "observe_active_read snapshot (rd_replica_index a) (rd_read a)
         (if ar_inflight_offsets st ! rd_replica_index a = Some (rd_byte_offset a)
          then st\<lparr>ar_inflight_offsets := (ar_inflight_offsets st)[rd_replica_index a := None]\<rparr> else st) = (Inr x, st')"
      "active_read_decision (obs[rd_replica_index a := x]) q = Inr (Decision_Frames frames)"
      "r = Poll_Done (Inr frames)"
  | (wait) x where "rd_byte_offset a = offset"
      "observe_active_read snapshot (rd_replica_index a) (rd_read a)
         (if ar_inflight_offsets st ! rd_replica_index a = Some (rd_byte_offset a)
          then st\<lparr>ar_inflight_offsets := (ar_inflight_offsets st)[rd_replica_index a := None]\<rparr> else st) = (Inr x, st')"
      "r = Poll_More (obs[rd_replica_index a := x])"
      "pending_reads (obs[rd_replica_index a := x]) \<noteq> 0"
proof (cases "rd_byte_offset a = offset")
  case False
  with assms stale show ?thesis by (auto simp: poll_answer_def Let_def)
next
  case True
  define st1 where "st1 = (if ar_inflight_offsets st ! rd_replica_index a = Some (rd_byte_offset a)
    then st\<lparr>ar_inflight_offsets := (ar_inflight_offsets st)[rd_replica_index a := None]\<rparr> else st)"
  obtain x st2 where x: "observe_active_read snapshot (rd_replica_index a) (rd_read a) st1 = (x, st2)"
    by (rule prod.exhaust)
  show ?thesis
  proof (cases x)
    case (Inl e)
    with assms True x failed show ?thesis by (auto simp: poll_answer_def Let_def st1_def)
  next
    case (Inr y)
    let ?obs = "obs[rd_replica_index a := y]"
    have r: "st' = st2" "r = (case active_read_decision ?obs q of
                    Inl e \<Rightarrow> Poll_Done (Inl e)
                  | Inr Decision_Pending \<Rightarrow> Poll_More ?obs
                  | Inr (Decision_Frames frames) \<Rightarrow>
                      if \<not> snapshot \<or> pending_reads ?obs = 0 \<or> possible_longer ?obs frames < q
                      then Poll_Done (Inr frames) else Poll_More ?obs
                  | Inr Decision_NoReadQuorum \<Rightarrow>
                      Poll_Done (Inl (unwrap_or (permanent_active_read_failure ?obs q) Err_NoReadQuorum)))"
      using assms True x Inr by (simp_all add: poll_answer_def Let_def st1_def)
    have "active_read_decision ?obs q = Inr Decision_Pending \<Longrightarrow> pending_reads ?obs \<noteq> 0"
      using decide_from_pending by (metis active_read_decision_def)
    with r x Inr True failed frames wait show ?thesis
      by (auto simp: st1_def split: sum.splits active_read_decision.splits if_splits)
  qed
qed


lemma observation_not_pending:
  "observe_active_read snapshot z rd st = (Inr x, st') \<Longrightarrow> x \<noteq> Read_Pending"
  by (auto simp: observe_active_read_def Let_def split: sum.splits if_splits)

lemma pending_reads_0: "pending_reads obs = 0 \<longleftrightarrow> (\<forall>z < length obs. obs ! z \<noteq> Read_Pending)"
  by (auto simp: pending_reads_def filter_empty_conv set_conv_nth)

lemma poll_answers_return:
  assumes "z < length obs" "obs ! z = Read_Pending"
    and "\<And>z. z < length obs \<Longrightarrow> obs ! z = Read_Pending \<Longrightarrow>
       \<exists>a \<in> set answers. rd_replica_index a = z \<and> rd_byte_offset a = offset"
  shows "\<exists>r. fst (poll_answers snapshot offset q answers obs st) = Some r"
  using assms
proof (induction answers arbitrary: obs st z)
  case (Cons a rest)
  obtain r st' where r: "poll_answer snapshot offset q a obs st = (r, st')" by (rule prod.exhaust)
  from r show ?case
  proof (cases rule: poll_answer_cases)
    case stale
    have "\<exists>b \<in> set rest. rd_replica_index b = y \<and> rd_byte_offset b = offset"
      if "y < length obs" "obs ! y = Read_Pending" for y
      using Cons.prems(3) [OF that] stale(1) by auto
    from Cons.IH [OF Cons.prems(1,2) this] r stale(2) show ?thesis by simp
  next
    case (wait x)
    let ?obs = "obs[rd_replica_index a := x]"
    from wait(4) obtain y where y: "y < length ?obs" "?obs ! y = Read_Pending"
      by (auto simp: pending_reads_0)
    have x: "x \<noteq> Read_Pending" using observation_not_pending [OF wait(2)] .
    have "\<exists>b \<in> set rest. rd_replica_index b = y \<and> rd_byte_offset b = offset"
      if "y < length ?obs" "?obs ! y = Read_Pending" for y
    proof -
      have "y \<noteq> rd_replica_index a" using that x by auto
      then show ?thesis using Cons.prems(3) [of y] that by auto
    qed
    from Cons.IH [OF y this] r wait(3) show ?thesis by simp
  qed (use r in simp_all)
qed auto

text \<open>Observations whose zone lies in \<open>C\<close> satisfy \<open>P\<close>.\<close>

definition observed_by :: "nat set \<Rightarrow> (record_frame list \<Rightarrow> bool) \<Rightarrow> active_read_observation list \<Rightarrow> bool" where
  "observed_by C P obs \<longleftrightarrow> (\<forall>z fs. z < length obs \<longrightarrow> z \<in> C \<longrightarrow> obs ! z = Read_Records fs \<longrightarrow> P fs)"

definition answers_by ::
  "nat set \<Rightarrow> (record_frame list \<Rightarrow> bool) \<Rightarrow> int \<Rightarrow> active_read_result list \<Rightarrow> bool" where
  "answers_by C P offset answers \<longleftrightarrow>
     (\<forall>a \<in> set answers. \<forall>rd. rd_replica_index a \<in> C \<longrightarrow> rd_byte_offset a = offset \<longrightarrow> rd_read a = Inr rd
        \<longrightarrow> P (fst (decode_complete_prefix (rr_bytes rd))))"

lemma observed_by_update:
  assumes "observed_by C P obs" "\<And>fs. x = Read_Records fs \<Longrightarrow> z \<in> C \<Longrightarrow> P fs"
  shows "observed_by C P (obs[z := x])"
  unfolding observed_by_def
proof (intro allI impI)
  fix y fs
  assume y: "y < length (obs[z := x])" "y \<in> C" "obs[z := x] ! y = Read_Records fs"
  show "P fs"
    using y assms by (cases "y = z") (auto simp: observed_by_def)
qed

lemma poll_answers_frames:
  assumes "poll_answers False offset q answers obs st = (Some (Inr frames), st')"
    and "answers_by C P offset answers" "observed_by C P obs"
  shows "\<exists>obs'. length obs' = length obs \<and> observed_by C P obs'
    \<and> active_read_decision obs' q = Inr (Decision_Frames frames)"
  using assms
proof (induction answers arbitrary: obs st)
  case (Cons a rest)
  obtain r st1 where r: "poll_answer False offset q a obs st = (r, st1)" by (rule prod.exhaust)
  have upd: "observed_by C P (obs[rd_replica_index a := x])"
    if "rd_byte_offset a = offset" "observe_active_read False (rd_replica_index a) (rd_read a) s = (Inr x, s')" for x s s'
    using that Cons.prems(2)
    by (intro observed_by_update [OF Cons.prems(3)])
      (auto simp: answers_by_def observe_active_read_def Let_def split: sum.splits if_splits)
  have rest: "answers_by C P offset rest" using Cons.prems(2) by (simp add: answers_by_def)
  from r show ?case
  proof (cases rule: poll_answer_cases)
    case stale
    then show ?thesis using Cons.IH [OF _ rest Cons.prems(3)] Cons.prems(1) r by auto
  next
    case (frames x fs)
    then have "fs = frames" using Cons.prems(1) r by simp
    with upd [OF frames(1,2)] frames(3) show ?thesis by (intro exI [of _ "obs[rd_replica_index a := x]"]) simp
  next
    case (wait x)
    then show ?thesis using Cons.IH [OF _ rest upd [OF wait(1,2)]] Cons.prems(1) r by auto
  qed (use Cons.prems(1) r in auto)
qed (auto split: if_splits)

text \<open>A quorum contains a zone of \<open>C\<close> whenever fewer than a quorum of the zones lie outside it.\<close>

lemma quorum_meets:
  assumes "q \<le> length (filter (holds_at i f) obs)" "C \<subseteq> {..<length obs}" "length obs < q + card C"
    and "observed_by C P obs"
  shows "\<exists>fs. P fs \<and> i < length fs \<and> fs ! i = f"
proof -
  let ?Z = "{z. z < length obs \<and> holds_at i f (obs ! z)}"
  have "q \<le> card ?Z" using assms(1) by (simp add: length_filter_conv_card)
  moreover have "finite ?Z" "finite C" using assms(2) by (auto intro: finite_subset)
  moreover have "card (?Z \<union> C) \<le> length obs"
    using card_mono [of "{..<length obs}" "?Z \<union> C"] assms(2) by auto
  ultimately have "?Z \<inter> C \<noteq> {}"
    using assms(3) card_Un_disjoint [of ?Z C] by auto
  then show ?thesis using assms(4) by (auto simp: holds_at_def observed_by_def)
qed

end
