(* ===== verification/Follower.thy ===== *)
theory Follower
  imports Segment_Read "HOL-Library.Code_Target_Nat"
begin

text \<open>
  Properties of the readers of \<open>Segment_Read\<close>: what a verified read of a sealed
  segment returns, what a majority read of the active segment emits and when
  it returns, and that the readonly follower delivers the log record by
  record, without a gap or a repetition.
\<close>

section \<open>The log and the answers that agree with it\<close>

text \<open>A log assigns a record to every sequence number; a range of it occupies the bytes of its frames.\<close>

definition log_bytes :: "(nat \<Rightarrow> record_frame) \<Rightarrow> nat \<Rightarrow> nat \<Rightarrow> bytes" where
  "log_bytes log a b = concat (map (frame_bytes \<circ> log) [a..<b])"

definition log_range :: "(nat \<Rightarrow> record_frame) \<Rightarrow> nat \<Rightarrow> record_frame list \<Rightarrow> bool" where
  "log_range log a fs \<longleftrightarrow> fs = map log [a..<a + length fs]"

lemma log_range_nth: "log_range log a fs \<Longrightarrow> i < length fs \<Longrightarrow> fs ! i = log (a + i)"
  by (metis add_diff_cancel_left' add_less_cancel_left length_map length_upt log_range_def nth_map nth_upt)

definition encodable_log :: "(nat \<Rightarrow> record_frame) \<Rightarrow> bool" where
  "encodable_log log \<longleftrightarrow> (\<forall>i. length (payload (log i)) \<le> MAX_PAYLOAD_BYTES)"

lemma encode_log: "encodable_log log \<Longrightarrow> encode (log i) = Inr (frame_bytes (log i))"
  by (simp add: encode_Inr_iff encodable_log_def frame_bytes_def)

lemma encoded_len_log: "encodable_log log \<Longrightarrow> encoded_len (log i) = Inr (length (frame_bytes (log i)))"
  using length_frame_bytes [of "log i"]
  by (auto simp: encoded_len_def encodable_log_def checked_add_def MAX_PAYLOAD_BYTES_def HEADER_LEN_def u32_max_def
      u64_max_def and_then_Inr_iff require_def dest: spec [of _ i])

lemma encode_all_log: "encodable_log log \<Longrightarrow> encode_all (map log is) = Inr (concat (map (frame_bytes \<circ> log) is))"
  by (induction "is") (simp_all add: encode_log)

lemma decode_log_prefix:
  assumes "encodable_log log" "prefix p (log_bytes log a b)"
  shows "log_range log a (fst (decode_complete_prefix p))"
proof -
  obtain fs n where d: "decode_complete_prefix p = (fs, n)" by (rule prod.exhaust)
  have s: "n \<le> length p" "encode_all fs = Inr (take n p)"
    using decode_complete_prefix_sound [of n p] d by auto
  have "take n p = take n (log_bytes log a b)" "n \<le> length (log_bytes log a b)"
    using assms(2) s(1) by (auto simp: prefix_def)
  then have "prefix fs (fst (decode_complete_prefix (log_bytes log a b)))"
    using decode_complete_prefix_maximal [of fs n "log_bytes log a b"] s(2) by simp
  moreover have "decode_complete_prefix (log_bytes log a b) = (map log [a..<b], length (log_bytes log a b))"
    using decode_complete_prefix_append [OF encode_all_log [OF assms(1), of "[a..<b]"], of "[]"]
    by (simp add: log_bytes_def decode_complete_prefix.simps [of "[]"])
  ultimately have "fs = map log (take (length fs) [a..<b]) \<and> length fs \<le> b - a"
    by (metis append_eq_conv_conj fst_conv length_map length_upt prefix_def prefix_length_le take_map)
  then show ?thesis
    by (cases "a \<le> b") (auto simp: d log_range_def)
qed

text \<open>An answer for byte offset \<open>o\<close> agrees with the log of a segment that starts at \<open>base\<close> when its bytes
  are the log's bytes from there on, as far as they go.\<close>

definition agrees :: "(nat \<Rightarrow> record_frame) \<Rightarrow> nat \<Rightarrow> active_read_result \<Rightarrow> bool" where
  "agrees log base a \<longleftrightarrow> (\<forall>j rd. rd_byte_offset a = int (length (log_bytes log base (base + j))) \<longrightarrow> rd_read a = Inr rd
     \<longrightarrow> (\<exists>k. prefix (rr_bytes rd) (log_bytes log (base + j) (base + j + k))))"

lemma agrees_answers_by:
  assumes "encodable_log log" "\<And>a. a \<in> set answers \<Longrightarrow> rd_replica_index a \<in> C \<Longrightarrow> agrees log base a"
  shows "answers_by C (log_range log (base + j)) (int (length (log_bytes log base (base + j)))) answers"
  unfolding answers_by_def
proof (intro ballI allI impI)
  fix a rd
  assume a: "a \<in> set answers" "rd_replica_index a \<in> C"
    "rd_byte_offset a = int (length (log_bytes log base (base + j)))" "rd_read a = Inr rd"
  then obtain k where "prefix (rr_bytes rd) (log_bytes log (base + j) (base + j + k))"
    using assms(2) [OF a(1,2)] by (auto simp: agrees_def)
  then show "log_range log (base + j) (fst (decode_complete_prefix (rr_bytes rd)))"
    by (rule decode_log_prefix [OF assms(1)])
qed

text \<open>A follower position: the active state stands after \<open>j\<close> records of the segment.\<close>

definition at_record :: "(nat \<Rightarrow> record_frame) \<Rightarrow> nat \<Rightarrow> active_read_state \<Rightarrow> bool" where
  "at_record log j st \<longleftrightarrow> ar_byte_offset st = int (length (log_bytes log (ar_base st) (ar_base st + j)))"

lemma log_bytes_Suc: "log_bytes log a (Suc (a + j)) = log_bytes log a (a + j) @ frame_bytes (log (a + j))"
  by (simp add: log_bytes_def)

definition wal_of :: "(nat \<Rightarrow> record_frame) \<Rightarrow> nat \<Rightarrow> wal_record" where
  "wal_of log i = \<lparr>wr_seqno = WalSeqNo i, wr_payload = payload (log i)\<rparr>"

definition log_run :: "(nat \<Rightarrow> record_frame) \<Rightarrow> nat \<Rightarrow> wal_record list \<Rightarrow> bool" where
  "log_run log n out \<longleftrightarrow> out = map (wal_of log) [n..<n + length out]"

lemma log_run_Nil [simp]: "log_run log n []"
  by (simp add: log_run_def)

lemma log_run_Cons: "log_run log n (r # out) \<longleftrightarrow> r = wal_of log n \<and> log_run log (Suc n) out"
  by (auto simp: log_run_def upt_conv_Cons simp del: upt_Suc)

lemma log_run_append: "log_run log n (xs @ ys) \<longleftrightarrow> log_run log n xs \<and> log_run log (n + length xs) ys"
  by (induction xs arbitrary: n) (auto simp: log_run_Cons)


section \<open>One read of the active segment\<close>

lemma read_active_frames:
  assumes "read_active_quorum False answers st = (Some (Inr frames), st')"
    and "answers_by C P (ar_byte_offset st) answers"
    and "C \<subseteq> {..<ar_replicas st}" "ar_replicas st < majority (ar_replicas st) + card C" "i < length frames"
  shows "\<exists>fs. P fs \<and> i < length fs \<and> fs ! i = frames ! i"
proof -
  let ?n = "ar_replicas st"
  from assms(1) have "poll_answers False (ar_byte_offset st) (majority ?n) answers
      (replicate ?n Read_Pending) (ensure_active_reads st) = (Some (Inr frames), st')"
    by (simp add: read_active_quorum_def split: if_splits)
  moreover have "observed_by C P (replicate ?n Read_Pending)" by (simp add: observed_by_def)
  ultimately obtain obs where obs: "length obs = ?n" "observed_by C P obs"
      "active_read_decision obs (majority ?n) = Inr (Decision_Frames frames)"
    using poll_answers_frames [OF _ assms(2)] by fastforce
  then have "majority ?n \<le> length (filter (holds_at i (frames ! i)) obs)"
    using decide_from_frames [of "observed_records obs" "pending_reads obs" "majority ?n" "[]" frames i] assms(5)
    by (simp add: active_read_decision_def votes_for_zones)
  from quorum_meets [OF this _ _ obs(2)] assms(3,4) obs(1) show ?thesis by simp
qed

lemma read_active_log:
  assumes "read_active_quorum False answers st = (Some (Inr frames), st')"
    and "encodable_log log" "at_record log j st"
    and "\<And>a. a \<in> set answers \<Longrightarrow> rd_replica_index a \<in> C \<Longrightarrow> agrees log (ar_base st) a"
    and "C \<subseteq> {..<ar_replicas st}" "ar_replicas st < majority (ar_replicas st) + card C"
  shows "log_range log (ar_base st + j) frames"
proof -
  have "answers_by C (log_range log (ar_base st + j)) (ar_byte_offset st) answers"
    using agrees_answers_by [OF assms(2,4)] assms(3) by (simp add: at_record_def)
  from read_active_frames [OF assms(1) this assms(5,6)]
  have "frames ! i = log (ar_base st + j + i)" if "i < length frames" for i
    using that log_range_nth by metis
  then show ?thesis unfolding log_range_def by (intro nth_equalityI) auto
qed

lemma read_active_fields:
  "read_active_quorum snapshot answers st = (r, st') \<Longrightarrow>
     ar_byte_offset st' = ar_byte_offset st \<and> ar_skip_records st' = ar_skip_records st \<and> ar_base st' = ar_base st \<and> ar_replicas st' = ar_replicas st"
  using poll_answers_fields ensure_active_reads_fields
  by (fastforce simp: read_active_quorum_def split: if_splits)


lemma log_range_Cons: "log_range log a (f # fs) \<longleftrightarrow> f = log a \<and> log_range log (Suc a) fs"
  by (auto simp: log_range_def upt_conv_Cons simp del: upt_Suc)

definition in_step :: "(nat \<Rightarrow> record_frame) \<Rightarrow> wal_seq_no \<Rightarrow> active_read_state \<Rightarrow> bool" where
  "in_step log nx st \<longleftrightarrow> (\<exists>j. at_record log j st \<and> get_seq nx = ar_base st + j + ar_skip_records st)"

lemma emit_active_log:
  assumes "emit_active frames nx st = (out, nx', st', e)" "encodable_log log"
    and "log_range log (ar_base st + j) frames" "at_record log j st"
    and "get_seq nx = ar_base st + j + ar_skip_records st"
  shows "log_run log (get_seq nx) out \<and> get_seq nx' = get_seq nx + length out
    \<and> ar_base st' = ar_base st \<and> ar_replicas st' = ar_replicas st \<and> in_step log nx' st'"
  using assms(1,3-)
proof (induction frames arbitrary: nx st out j)
  case Nil
  then show ?case by (auto simp: in_step_def)
next
  case (Cons f rest)
  have f: "f = log (ar_base st + j)" and rest: "log_range log (Suc (ar_base st + j)) rest"
    using Cons.prems(2) by (simp_all add: log_range_Cons)
  have len: "encoded_len f = Inr (length (frame_bytes f))"
    using encoded_len_log [OF assms(2)] by (simp add: f)
  let ?off = "ar_byte_offset st + int (length (frame_bytes f))"
  let ?st = "st\<lparr>ar_byte_offset := ?off\<rparr>"
  have pos: "at_record log (Suc j) ?st" "at_record log (Suc j) (?st\<lparr>ar_skip_records := s\<rparr>)" for s
    using Cons.prems(3) by (simp_all add: at_record_def f log_bytes_Suc)
  consider (overflow) "2 ^ 63 \<le> ?off" | (skip) "\<not> 2 ^ 63 \<le> ?off" "0 < ar_skip_records st"
    | (emit) "\<not> 2 ^ 63 \<le> ?off" "ar_skip_records st = 0" by blast
  then show ?case
  proof cases
    case overflow
    then show ?thesis using Cons.prems len by (auto simp: in_step_def)
  next
    case skip
    have "emit_active rest nx (?st\<lparr>ar_skip_records := ar_skip_records st - 1\<rparr>) = (out, nx', st', e)"
      using Cons.prems(1) len skip by (simp add: Let_def)
    from Cons.IH [OF this, of "Suc j"] show ?thesis using rest pos Cons.prems(4) skip by simp
  next
    case emit
    obtain out' where out: "out = wal_of log (get_seq nx) # out'"
        "emit_active rest (WalSeqNo (Suc (get_seq nx))) ?st = (out', nx', st', e)"
      using Cons.prems(1,4) len emit f
      by (cases nx) (auto simp: Let_def wal_of_def next_seqno_def split: prod.splits)
    from Cons.IH [OF out(2), of "Suc j"] show ?thesis using rest pos(1) Cons.prems(4) emit
      by (simp add: out(1) log_run_Cons)
  qed
qed



section \<open>The sealed segments\<close>

text \<open>Descriptors that cover the sequence numbers from \<open>a\<close> up to \<open>b\<close> without a gap.\<close>

fun segment_chain :: "segment_descriptor list \<Rightarrow> nat \<Rightarrow> nat \<Rightarrow> bool" where
  "segment_chain [] a b \<longleftrightarrow> a = b"
| "segment_chain (s # ss) a b \<longleftrightarrow> sd_base s = a \<and> a \<le> sd_end s \<and> segment_chain ss (sd_end s + 1) b"

lemma segment_chain_le: "segment_chain ss a b \<Longrightarrow> a \<le> b"
  by (induction ss arbitrary: a) fastforce+

lemma segment_chain_append:
  "segment_chain (xs @ ys) a b \<longleftrightarrow> (\<exists>m. segment_chain xs a m \<and> segment_chain ys m b)"
  by (induction xs arbitrary: a) auto

lemma readonly_segments_chain:
  "readonly_segments_from r es = Inr segs \<Longrightarrow> es \<noteq> [] \<Longrightarrow> segment_chain segs (de_base (hd es)) (mr_tail_base r)"
proof (induction es arbitrary: segs)
  case (Cons e es)
  define b where "b = (case es of [] \<Rightarrow> mr_tail_base r | e' # _ \<Rightarrow> de_base e')"
  obtain last rest where seg: "checked_sub b 1 = Some last" "\<not> last < de_base e"
      "readonly_segments_from r es = Inr rest"
      "segs = \<lparr>sd_id = de_id e, sd_base = de_base e, sd_end = last, sd_crc32c = de_crc32c e, sd_copies = 0,
         sd_finalized_copies = 0, sd_seal_pending = (mr_seal_id r = Some (de_id e))\<rparr> # rest"
    using Cons.prems(1) by (auto simp: b_def Let_def and_then_Inr_iff split: option.splits if_splits)
  have "Suc last = b" using seg(1) by (auto simp: checked_sub_def split: if_splits)
  then show ?case using seg Cons.IH [OF seg(3)] by (cases es) (auto simp: b_def)
qed simp

lemma segment_chain_member: "segment_chain ss a b \<Longrightarrow> s \<in> set ss \<Longrightarrow> a \<le> sd_base s \<and> sd_end s < b"
proof (induction ss arbitrary: a)
  case (Cons t ss)
  then show ?case using segment_chain_le [of ss "sd_end t + 1" b] by fastforce
qed simp

lemma readonly_segments_bases: "readonly_segments_from r es = Inr segs \<Longrightarrow> map sd_base segs = map de_base es"
  by (induction r es arbitrary: segs rule: readonly_segments_from.induct)
    (auto simp: Let_def and_then_Inr_iff split: option.splits if_splits)

text \<open>Under the register invariants, the catalog reaches from a retained position to the tail base.\<close>

lemma readonly_segments_cover:
  assumes "readonly_segments r = Inr segs" "history_covered r" "mr_trunc r \<le> n"
  shows "\<exists>a. segment_chain segs a (mr_tail_base r) \<and> (a \<le> n \<or> mr_tail_base r \<le> n)"
proof (cases "mr_segments r")
  case Nil
  then have "segs = []" using assms(1) by (simp add: readonly_segments_def)
  moreover have "segment_of r i = None" for i using Nil by (simp add: segment_of_None)
  ultimately show ?thesis using assms(2,3) by (auto simp: history_covered_def not_le)
next
  case (Cons e es)
  then have chain: "segment_chain segs (de_base e) (mr_tail_base r)"
    using readonly_segments_chain [of r "mr_segments r" segs] assms(1) by (simp add: readonly_segments_def)
  have "de_base e \<le> n" if n: "n < mr_tail_base r"
  proof -
    from assms(2,3) n obtain e' where e': "e' \<in> set (mr_segments r)" "de_base e' \<le> n"
      unfolding history_covered_def segment_of_None by (meson leD not_le)
    then have "de_base e' \<in> set (map sd_base segs)"
      using readonly_segments_bases assms(1) by (fastforce simp: readonly_segments_def)
    then show ?thesis using segment_chain_member [OF chain] e'(2) by fastforce
  qed
  then show ?thesis using chain not_le by blast
qed

section \<open>Copies of sealed segments\<close>

text \<open>
  What a zone may hold as its copy of a sealed segment: the log's bytes of the
  segment, cut short or with more bytes behind them (a copy that missed the
  end, or one that was not trimmed to it), or damaged bytes, as long as the
  committed checksum exposes the damage.
\<close>

definition log_copy :: "(nat \<Rightarrow> record_frame) \<Rightarrow> (bytes \<Rightarrow> nat) \<Rightarrow> segment_descriptor \<Rightarrow> bytes \<Rightarrow> bool" where
  "log_copy log crc seg data \<longleftrightarrow>
     prefix data (log_bytes log (sd_base seg) (sd_end seg + 1))
   \<or> prefix (log_bytes log (sd_base seg) (sd_end seg + 1)) data
   \<or> (\<forall>p. prefix p data \<longrightarrow> crc p \<noteq> sd_crc32c seg)"

lemma log_copy_content:
  assumes "encodable_log log" "log_copy log crc seg data" "prefix p data" "sealed_content crc seg p records"
  shows "log_range log (sd_base seg) records"
proof -
  let ?b = "sd_base seg" and ?e = "sd_end seg + 1"
  have p: "encode_all records = Inr p" "crc p = sd_crc32c seg" "?b + length records = ?e"
    using assms(4) by (simp_all add: sealed_content_def)
  have d: "fst (decode_complete_prefix p) = records"
    using decode_complete_prefix_append [OF p(1), of "[]"] by (simp add: decode_complete_prefix.simps [of "[]"])
  from assms(2,3) p(2) consider "prefix p (log_bytes log ?b ?e)" | "prefix (log_bytes log ?b ?e) p"
    unfolding log_copy_def by (meson prefix_order.trans prefix_same_cases)
  then show ?thesis
  proof cases
    case 1
    from decode_log_prefix [OF assms(1) this] show ?thesis by (simp add: d)
  next
    case 2
    then obtain rest where "p = log_bytes log ?b ?e @ rest" by (auto simp: prefix_def)
    then have "prefix (map log [?b..<?e]) records"
      using decode_complete_prefix_append [OF encode_all_log [OF assms(1), of "[?b..<?e]"], of rest] d
      by (auto simp: log_bytes_def split: prod.splits)
    moreover have "length (map log [?b..<?e]) = length records" using p(3) by (simp del: upt_Suc)
    ultimately have "records = map log [?b..<?e]" by (metis append_Nil2 append_eq_append_conv prefix_def)
    then show ?thesis using p(3) by (simp add: log_range_def del: upt_Suc)
  qed
qed

text \<open>What a sealed read returns is the prefix of a copy some zone showed.\<close>

lemma scan_sealed_copies_shown:
  assumes "\<forall>w z x w'. held w \<longrightarrow> run_state (op_snapshot ops z) w = (x, w') \<longrightarrow> held w' \<and> (\<forall>s. x = Inr s \<longrightarrow> shown s)"
    and "run_state (scan_sealed_copies ops ok zs snaps permanent) w = (scan, w')" "held w" "\<forall>s \<in> set snaps. shown s"
  shows "held w' \<and> (case scan of Scan_Verified data \<Rightarrow> \<exists>s. shown s \<and> data = rs_bytes s | Scan_Collected ss _ \<Rightarrow> \<forall>s \<in> set ss. shown s)"
  using assms(2-4)
proof (induction zs arbitrary: snaps permanent w)
  case (Cons z zs)
  obtain x w1 where x: "run_state (op_snapshot ops z) w = (x, w1)" by (rule prod.exhaust)
  have sh: "held w1 \<and> (\<forall>s. x = Inr s \<longrightarrow> shown s)" using assms(1) Cons.prems(2) x by blast
  show ?case
  proof (cases x)
    case (Inl e)
    then show ?thesis using Cons.prems x sh
      by (intro Cons.IH [of snaps "if permanent_read_code (te_code e) then permanent @ [(z, e)] else permanent" w1]) auto
  next
    case (Inr t)
    then show ?thesis using Cons.prems x sh Cons.IH [of "snaps @ [t]" permanent w1] by (cases "ok t") auto
  qed
qed auto

lemma canonical_prefix_bytes_shown:
  assumes "0 < q" "canonical_prefix_bytes snaps q = Inr b"
  shows "\<exists>s \<in> set snaps. prefix b (rs_bytes s)"
proof -
  obtain sel where sel: "select_canonical_quorum snaps q = Inr sel"
      and b: "b = take (last_or_zero (cs_record_ends sel)) (rs_bytes (snaps ! cs_witness sel))"
    using assms(2) by (auto simp: canonical_prefix_bytes_def and_then_Inr_iff)
  from select_canonical_Inr [OF assms(1) sel] obtain xs
    where "(cs_witness sel, xs) \<in> set (canonical_candidates (map witness_from_snapshot snaps) q)" by blast
  from candidate_agreeing [OF assms(1) this] have "cs_witness sel < length snaps" by (auto simp: agreeing_quorum_def)
  then show ?thesis using b take_is_prefix nth_mem by metis
qed

text \<open>
  The contract of the zones for a set of sealed segments: whatever a zone shows
  of one of their objects is such a copy.  Objects may be missing or
  unreadable, zones may differ, and other clients may change the objects
  between two reads, as long as they leave copies behind.
\<close>

locale sealed_copies =
  fixes fac :: "'w factories" and crc :: "bytes \<Rightarrow> nat" and pre :: string
    and log :: "nat \<Rightarrow> record_frame" and S :: "segment_descriptor set" and held :: "'w \<Rightarrow> bool"
  assumes shows_copies: "held w \<Longrightarrow> seg \<in> S
      \<Longrightarrow> run_state (op_snapshot (fa_replicas fac (segment_object pre (sd_id seg))) z) w = (x, w')
      \<Longrightarrow> held w' \<and> (\<forall>s. x = Inr s \<longrightarrow> log_copy log crc seg (rs_bytes s))"
begin

lemma read_sealed_segment_bytes_log:
  assumes "run_state (read_sealed_segment_bytes fac crc (segment_object pre (sd_id seg)) seg accept) w = (r, w')"
    and "encodable_log log" "held w" "seg \<in> S"
  shows "held w' \<and> (\<forall>data records. r = Inr (data, records) \<longrightarrow> log_range log (sd_base seg) records)"
proof (cases "expected_record_count (sd_base seg) (sd_end seg) = None \<or> fa_count fac = 0")
  case True
  then show ?thesis using assms(1,3) by (auto simp: read_sealed_segment_bytes_def split: option.splits if_splits)
next
  case False
  then obtain k where k: "expected_record_count (sd_base seg) (sd_end seg) = Some k" "fa_count fac \<noteq> 0" by auto
  obtain scan where scan: "run_state (scan_sealed_copies (fa_replicas fac (segment_object pre (sd_id seg)))
      (verified_copy crc accept k (sd_crc32c seg)) [0..<fa_count fac] [] []) w = (scan, w')"
    and r: "r = (case scan of
        Scan_Verified data \<Rightarrow>
          (case decode_all_bytes data of Inl e \<Rightarrow> Inl (error_of_record e) | Inr records \<Rightarrow> Inr (data, records))
      | Scan_Collected ss permanent \<Rightarrow> sealed_from_quorum crc (fa_count fac) seg k ss permanent)"
    using assms(1) k by (auto simp: read_sealed_segment_bytes_def split: prod.splits)
  have sh: "\<forall>w z x w'. held w \<longrightarrow> run_state (op_snapshot (fa_replicas fac (segment_object pre (sd_id seg))) z) w = (x, w')
      \<longrightarrow> held w' \<and> (\<forall>s. x = Inr s \<longrightarrow> log_copy log crc seg (rs_bytes s))" using shows_copies [OF _ assms(4)] by blast
  have shown: "held w' \<and> (case scan of
      Scan_Verified data \<Rightarrow> \<exists>s :: replica_snapshot. log_copy log crc seg (rs_bytes s) \<and> data = rs_bytes s
    | Scan_Collected ss _ \<Rightarrow> \<forall>s \<in> set ss. log_copy log crc seg (rs_bytes s))"
    by (rule scan_sealed_copies_shown [OF sh scan assms(3)]) simp
  have "log_range log (sd_base seg) records" if i: "r = Inr (data, records)" for data records
  proof -
    have c: "sealed_content crc seg data records"
      by (rule read_sealed_segment_bytes_content [OF assms(1) [unfolded i]])
    have "\<exists>d. log_copy log crc seg d \<and> prefix data d"
    proof (cases scan)
      case (Scan_Verified b)
      then show ?thesis using shown r i by (auto split: sum.splits)
    next
      case (Scan_Collected ss permanent)
      then obtain usable where u: "set usable \<subseteq> set ss" "canonical_prefix_bytes usable (majority (fa_count fac)) = Inr data"
        using r i by (auto simp: sealed_from_quorum_def Let_def split: if_splits sum.splits intro!: that [of "filter _ ss"])
      have "0 < majority (fa_count fac)" using majority_bounds k(2) by simp
      from canonical_prefix_bytes_shown [OF this u(2)] obtain s where s: "s \<in> set usable" "prefix data (rs_bytes s)" ..
      then have "log_copy log crc seg (rs_bytes s)" using shown Scan_Collected u(1) by auto
      then show ?thesis using s(2) by blast
    qed
    then show ?thesis using log_copy_content [OF assms(2) _ _ c] by blast
  qed
  then show ?thesis using shown by blast
qed

lemma read_sealed_segment_log:
  assumes "run_state (read_sealed_segment fac crc (segment_object pre (sd_id seg)) seg accept) w = (r, w')"
    and "encodable_log log" "held w" "seg \<in> S"
  shows "held w' \<and> (\<forall>records. r = Inr records \<longrightarrow>
     log_range log (sd_base seg) records \<and> sd_base seg \<le> sd_end seg \<and> sd_base seg + length records = sd_end seg + 1)"
proof -
  obtain x where x: "run_state (read_sealed_segment_bytes fac crc (segment_object pre (sd_id seg)) seg accept) w = (x, w')"
      "r = and_then x (\<lambda>(_, records). Inr records)"
    using assms(1) by (auto simp: read_sealed_segment_def split: prod.splits)
  note l = read_sealed_segment_bytes_log [OF x(1) assms(2-4)]
  have "sealed_content crc seg data records" if "x = Inr (data, records)" for data records
    by (rule read_sealed_segment_bytes_content [OF x(1) [unfolded that]])
  then show ?thesis using l x(2) by (fastforce simp: and_then_Inr_iff sealed_content_def)
qed

end

text \<open>Local objects that are copies stay copies while they are read.\<close>

definition local_copies ::
  "(nat \<Rightarrow> record_frame) \<Rightarrow> (bytes \<Rightarrow> nat) \<Rightarrow> string \<Rightarrow> segment_descriptor set \<Rightarrow> local_world \<Rightarrow> bool" where
  "local_copies log crc pre S w \<longleftrightarrow>
     (\<forall>seg \<in> S. \<forall>d. fs_data w (segment_object pre (sd_id seg)) = Some d \<longrightarrow> log_copy log crc seg d)"

interpretation local_sealed: sealed_copies "local_factories crc names modified" crc pre log S "local_copies log crc pre S"
  for crc names modified pre log S
proof (unfold_locales, goal_cases)
  case (1 w seg z x w')
  then show ?case
    by (auto simp: local_factories_def local_ops_def local_read_snapshot_def read_data_def local_snapshot_def local_copies_def
        and_then_Inr_iff ok_or_def split: option.splits)
qed

lemma replay_records_log:
  assumes "log_range log (sd_base seg) records" "sd_base seg + length records = sd_end seg + 1"
    and "sd_base seg \<le> n" "n \<le> sd_end seg" "sd_end seg < e"
  shows "replay_records seg records (WalSeqNo n) (WalSeqNo e) = map (wal_of log) [n..<sd_end seg + 1]"
proof -
  let ?b = "sd_base seg" and ?m = "sd_end seg + 1"
  have len: "?b + length records = ?m" by (rule assms(2))
  have records: "records = map log [?b..<?m]"
    using assms(1) unfolding log_range_def len .
  have "replay_records seg records (WalSeqNo n) (WalSeqNo e)
      = map (wal_of log) (filter (\<lambda>i. \<not> (i < n \<or> e \<le> i)) [?b..<?m])"
    unfolding replay_records_def len
    by (simp add: records zip_map2 zip_same_conv_map filter_map o_def wal_of_def del: upt_Suc)
  also have "filter (\<lambda>i. \<not> (i < n \<or> e \<le> i)) [?b..<?m] = [n..<?m]"
  proof -
    have "[?b..<?m] = [?b..<n] @ [n..<?m]"
      using assms(3,4) upt_add_eq_append [of ?b n "?m - n"] by simp
    moreover have "filter (\<lambda>i. \<not> (i < n \<or> e \<le> i)) [?b..<n] = []" by (auto simp: filter_empty_conv)
    moreover have "filter (\<lambda>i. \<not> (i < n \<or> e \<le> i)) [n..<?m] = [n..<?m]"
      using assms(5) by (intro filter_True) auto
    ultimately show ?thesis by (simp only: filter_append append_Nil)
  qed
  finally show ?thesis .
qed

context sealed_copies
begin

lemma follow_sealed_log:
  assumes "run_state (follow_sealed fac crc pre (WalSeqNo e) segs nx) w = ((out, nx', status), w')"
    and "segment_chain segs a e" "a \<le> get_seq nx \<or> e \<le> get_seq nx"
    and "set segs \<subseteq> S" "encodable_log log" "held w"
  shows "held w' \<and> log_run log (get_seq nx) out \<and> get_seq nx' = get_seq nx + length out
    \<and> (e \<le> get_seq nx \<longrightarrow> out = [] \<and> nx' = nx)"
  using assms(1-4,6)
proof (induction segs arbitrary: nx a out w)
  case (Cons seg rest)
  have chain: "sd_base seg = a" "a \<le> sd_end seg" "segment_chain rest (sd_end seg + 1) e"
    using Cons.prems(2) by simp_all
  have e: "sd_end seg < e" using segment_chain_le [OF chain(3)] by simp
  show ?case
  proof (cases "sd_end seg < get_seq nx")
    case True
    then have "run_state (follow_sealed fac crc pre (WalSeqNo e) rest nx) w = ((out, nx', status), w')"
      using Cons.prems(1) by simp
    from Cons.IH [OF this chain(3)] True Cons.prems(4,5) show ?thesis by simp
  next
    case False
    then have n: "a \<le> get_seq nx" "get_seq nx \<le> sd_end seg" "\<not> e \<le> get_seq nx" using Cons.prems(3) e by auto
    obtain r w1 where r: "run_state (read_sealed_segment fac crc (segment_object pre (sd_id seg)) seg
        (sd_seal_pending seg)) w = (r, w1)" by (rule prod.exhaust)
    have read: "held w1 \<and> (\<forall>records. r = Inr records \<longrightarrow> log_range log (sd_base seg) records
        \<and> sd_base seg \<le> sd_end seg \<and> sd_base seg + length records = sd_end seg + 1)"
      using read_sealed_segment_log [OF r assms(5) Cons.prems(5)] Cons.prems(4) by simp
    show ?thesis
    proof (cases r)
      case (Inl err)
      then show ?thesis using Cons.prems(1) read r False e chain n by (auto split: if_splits)
    next
      case (Inr frames)
      have recs: "replay_records seg frames nx (WalSeqNo e) = map (wal_of log) [get_seq nx..<sd_end seg + 1]"
        using replay_records_log [of log seg frames "get_seq nx" e] read Inr n e chain by (cases nx) simp
      have nn: "[get_seq nx..<sd_end seg + 1] \<noteq> []" "last [get_seq nx..<sd_end seg + 1] = sd_end seg"
        using n by auto
      obtain out' where out: "out = map (wal_of log) [get_seq nx..<sd_end seg + 1] @ out'"
          "run_state (follow_sealed fac crc pre (WalSeqNo e) rest (WalSeqNo (sd_end seg + 1))) w1 = ((out', nx', status), w')"
        using Cons.prems(1) r Inr False e chain n nn recs
        by (auto simp: Let_def last_map next_seqno_def wal_of_def simp del: upt_Suc split: prod.splits)
      have "log_run log (get_seq nx) (map (wal_of log) [get_seq nx..<sd_end seg + 1])"
        using n by (simp add: log_run_def del: upt_Suc)
      with Cons.IH [OF out(2) chain(3)] Cons.prems(4) read n show ?thesis
        by (simp add: out(1) log_run_append del: upt_Suc)
    qed
  qed
qed simp

end


section \<open>Rounds\<close>

text \<open>What one round is given: a register state that covers its retained history and catalogues segments of \<open>S\<close>,
  and answers of which fewer than a quorum of zones may deviate from the log.\<close>

definition faithful_round ::
  "(nat \<Rightarrow> record_frame) \<Rightarrow> segment_descriptor set \<Rightarrow> nat set \<Rightarrow> manifest_record \<Rightarrow> active_read_result list \<Rightarrow> bool" where
  "faithful_round log S C r answers \<longleftrightarrow>
     history_covered r
   \<and> (\<forall>segs. readonly_segments r = Inr segs \<longrightarrow> set segs \<subseteq> S)
   \<and> (\<forall>a \<in> set answers. rd_replica_index a \<in> C \<longrightarrow> agrees log (mr_tail_base r) a)"

text \<open>The follower after rounds whose tail bases reached \<open>m\<close>.\<close>

definition follows :: "(nat \<Rightarrow> record_frame) \<Rightarrow> nat \<Rightarrow> nat \<Rightarrow> follower \<Rightarrow> bool" where
  "follows log n m fo \<longleftrightarrow>
     (\<forall>st. fo_active fo = Some st \<longrightarrow>
        ar_base st \<le> m \<and> ar_replicas st = n \<and> (ar_base st = m \<longrightarrow> in_step log (fo_next fo) st))"

lemma active_for_in_step:
  assumes "follows log n m \<lparr>fo_next = nx, fo_active = active\<rparr>" "m \<le> mr_tail_base r" "mr_tail_base r \<le> get_seq nx"
  shows "in_step log nx (active_for r tail_id n nx active) \<and> ar_replicas (active_for r tail_id n nx active) = n
    \<and> ar_base (active_for r tail_id n nx active) = mr_tail_base r"
proof -
  have "in_step log nx (new_active_state r tail_id n nx)"
    unfolding in_step_def using assms(3)
    by (intro exI [of _ 0]) (simp add: at_record_def new_active_state_def log_bytes_def)
  moreover have "in_step log nx st" if "active = Some st" "ar_base st = mr_tail_base r" for st
    using assms(1,2) that by (auto simp: follows_def)
  ultimately show ?thesis using assms(1)
    by (auto simp: active_for_def new_active_state_def follows_def split: option.splits)
qed

lemma follow_active_log:
  assumes "follow_active fac r answers nx active = (out, result)" "encodable_log log"
    and "follows log (fa_count fac) m \<lparr>fo_next = nx, fo_active = active\<rparr>" "m \<le> mr_tail_base r"
    and "\<And>a. a \<in> set answers \<Longrightarrow> rd_replica_index a \<in> C \<Longrightarrow> agrees log (mr_tail_base r) a"
    and "C \<subseteq> {..<fa_count fac}" "fa_count fac < majority (fa_count fac) + card C"
  shows "log_run log (get_seq nx) out \<and> (\<forall>fo'. result = Round_Next fo' \<longrightarrow>
     get_seq (fo_next fo') = get_seq nx + length out \<and> follows log (fa_count fac) (mr_tail_base r) fo')"
proof (cases "mr_tail_base r \<le> get_seq nx \<and> mr_tail_id r \<noteq> None")
  case False
  then show ?thesis using assms(1) by (auto simp: follow_active_def split: option.splits if_splits)
next
  case True
  then obtain tail_id where tail: "mr_tail_base r \<le> get_seq nx" "mr_tail_id r = Some tail_id" by blast
  define st where "st = active_for r tail_id (fa_count fac) nx active"
  have st: "in_step log nx st" "ar_replicas st = fa_count fac" "ar_base st = mr_tail_base r"
    using active_for_in_step [OF assms(3,4) tail(1)] by (simp_all add: st_def)
  obtain res st1 where res: "read_active_quorum False answers st = (res, st1)" by (rule prod.exhaust)
  note fields = read_active_fields [OF res]
  have kept: "in_step log nx st1"
    using st(1) fields by (auto simp: in_step_def at_record_def)
  have out: "(out, result) = (case res of
      None \<Rightarrow> ([], Round_Waiting)
    | Some (Inl e) \<Rightarrow> ([], if e = Err_NoReadQuorum then Round_Next \<lparr>fo_next = nx, fo_active = Some st1\<rparr> else Round_Failed e)
    | Some (Inr frames) \<Rightarrow>
        (case emit_active frames nx st1 of
           (out, nx', st', None) \<Rightarrow> (out, Round_Next \<lparr>fo_next = nx', fo_active = Some st'\<rparr>)
         | (out, nx', st', Some e) \<Rightarrow> (out, Round_Failed e)))"
    using assms(1) tail res by (simp add: follow_active_def st_def split: option.splits sum.splits)
  show ?thesis
  proof (cases "\<exists>frames. res = Some (Inr frames)")
    case False
    then show ?thesis using out kept fields st
      by (auto simp: follows_def split: option.splits sum.splits if_splits)
  next
    case True
    then obtain frames where frames: "res = Some (Inr frames)" by blast
    from st(1) obtain j where j: "at_record log j st" "get_seq nx = ar_base st + j + ar_skip_records st"
      by (auto simp: in_step_def)
    have range: "log_range log (ar_base st + j) frames"
      using read_active_log [OF res [unfolded frames] assms(2) j(1), of C] assms(5-7) st(2,3) by simp
    obtain out1 nx1 st2 e where em: "emit_active frames nx st1 = (out1, nx1, st2, e)" by (metis prod.collapse)
    from emit_active_log [OF em assms(2)] range j fields
    have "log_run log (get_seq nx) out1 \<and> get_seq nx1 = get_seq nx + length out1
      \<and> ar_base st2 = mr_tail_base r \<and> ar_replicas st2 = fa_count fac \<and> in_step log nx1 st2"
      by (simp add: at_record_def st)
    then show ?thesis using out frames em by (auto simp: follows_def split: option.splits)
  qed
qed

text \<open>The updates of the poller: their tail bases do not go back, and every round is faithful.\<close>

fun faithful_updates ::
  "(nat \<Rightarrow> record_frame) \<Rightarrow> segment_descriptor set \<Rightarrow> nat set \<Rightarrow> nat
     \<Rightarrow> ((error + manifest_record) \<times> active_read_result list) list \<Rightarrow> bool" where
  "faithful_updates log S C m [] \<longleftrightarrow> True"
| "faithful_updates log S C m ((Inl e, answers) # rest) \<longleftrightarrow> True"
| "faithful_updates log S C m ((Inr r, answers) # rest) \<longleftrightarrow>
     m \<le> mr_tail_base r \<and> faithful_round log S C r answers \<and> faithful_updates log S C (mr_tail_base r) rest"

context sealed_copies
begin

lemma follow_round_log:
  assumes "run_state (follow_round fac crc pre r answers fo) w = ((out, result), w')" "encodable_log log"
    and "follows log (fa_count fac) m fo" "m \<le> mr_tail_base r" "faithful_round log S C r answers"
    and "C \<subseteq> {..<fa_count fac}" "fa_count fac < majority (fa_count fac) + card C" "held w"
  shows "held w' \<and> log_run log (get_seq (fo_next fo)) out \<and> (\<forall>fo'. result = Round_Next fo' \<longrightarrow>
     get_seq (fo_next fo') = get_seq (fo_next fo) + length out \<and> follows log (fa_count fac) (mr_tail_base r) fo')"
proof (cases "and_then (check_readonly_floor r (fo_next fo)) (\<lambda>_. readonly_segments r)")
  case (Inl e)
  then show ?thesis using assms(1,8) by (auto simp: follow_round_def)
next
  case (Inr segs)
  then have segs: "readonly_segments r = Inr segs" "mr_trunc r \<le> get_seq (fo_next fo)"
    by (auto simp: and_then_Inr_iff check_readonly_floor_def split: if_splits)
  obtain a where a: "segment_chain segs a (mr_tail_base r)" "a \<le> get_seq (fo_next fo) \<or> mr_tail_base r \<le> get_seq (fo_next fo)"
    using readonly_segments_cover [OF segs(1) _ segs(2)] assms(5) by (auto simp: faithful_round_def)
  obtain out1 nx status w1 where sealed: "run_state (follow_sealed fac crc pre (WalSeqNo (mr_tail_base r)) segs (fo_next fo)) w
      = ((out1, nx, status), w1)" by (metis prod.collapse)
  have "set segs \<subseteq> S" using assms(5) segs(1) by (simp add: faithful_round_def)
  note run = follow_sealed_log [OF sealed a this assms(2,8)]
  have fo: "follows log (fa_count fac) (mr_tail_base r) \<lparr>fo_next = nx, fo_active = fo_active fo\<rparr>"
    unfolding follows_def
  proof (intro allI impI)
    fix st
    assume st: "fo_active \<lparr>fo_next = nx, fo_active = fo_active fo\<rparr> = Some st"
    have "in_step log nx st" if "ar_base st = mr_tail_base r"
    proof -
      have step: "in_step log (fo_next fo) st" using assms(3,4) st that by (simp add: follows_def)
      then have "mr_tail_base r \<le> get_seq (fo_next fo)" using that by (auto simp: in_step_def)
      then show ?thesis using run step by simp
    qed
    then show "ar_base st \<le> mr_tail_base r \<and> ar_replicas st = fa_count fac \<and>
        (ar_base st = mr_tail_base r \<longrightarrow> in_step log (fo_next \<lparr>fo_next = nx, fo_active = fo_active fo\<rparr>) st)"
      using assms(3,4) st by (auto simp: follows_def)
  qed
  obtain later res where act: "follow_active fac r answers nx (fo_active fo) = (later, res)" by (rule prod.exhaust)
  have "log_run log (get_seq nx) later \<and> (\<forall>fo'. res = Round_Next fo' \<longrightarrow>
     get_seq (fo_next fo') = get_seq nx + length later \<and> follows log (fa_count fac) (mr_tail_base r) fo')"
    using follow_active_log [OF act assms(2) fo order_refl, of C] assms(5-7) by (simp add: faithful_round_def)
  moreover have "(out, result) = (case status of Inl e \<Rightarrow> (out1, Round_Failed e)
      | Inr True \<Rightarrow> (out1 @ later, res) | Inr False \<Rightarrow> (out1, Round_Next (fo\<lparr>fo_next := nx\<rparr>))) \<and> w' = w1"
    using assms(1) Inr sealed act by (auto simp: follow_round_def split: sum.splits bool.splits)
  moreover have "follows log (fa_count fac) (mr_tail_base r) (fo\<lparr>fo_next := nx\<rparr>)"
    using fo by (simp add: follows_def)
  ultimately show ?thesis using run
    by (cases status) (auto simp: log_run_append simp del: follower.simps split: bool.splits)
qed

lemma follow_readonly_log:
  assumes "run_state (follow_readonly fac crc pre polls fo) w = ((out, result), w')" "encodable_log log"
    and "follows log (fa_count fac) m fo" "faithful_updates log S C m polls"
    and "C \<subseteq> {..<fa_count fac}" "fa_count fac < majority (fa_count fac) + card C" "held w"
  shows "log_run log (get_seq (fo_next fo)) out"
  using assms(1,3,4,7)
proof (induction polls arbitrary: fo m w out)
  case (Cons u rest)
  obtain poll answers where u: "u = (poll, answers)" by (rule prod.exhaust)
  show ?case
  proof (cases poll)
    case (Inl e)
    then show ?thesis using Cons.prems(1) u by simp
  next
    case (Inr r)
    obtain out1 res w1 where round: "run_state (follow_round fac crc pre r answers fo) w = ((out1, res), w1)"
      by (metis prod.collapse)
    have m: "m \<le> mr_tail_base r" "faithful_round log S C r answers"
        "faithful_updates log S C (mr_tail_base r) rest"
      using Cons.prems(3) u Inr by simp_all
    note one = follow_round_log [OF round assms(2) Cons.prems(2) m(1,2) assms(5,6) Cons.prems(4)]
    show ?thesis
    proof (cases res)
      case (Round_Next fo')
      obtain out2 where rec: "run_state (follow_readonly fac crc pre rest fo') w1 = ((out2, result), w')"
          "out = out1 @ out2"
        using Cons.prems(1) u Inr round Round_Next by (auto split: prod.splits)
      have "follows log (fa_count fac) (mr_tail_base r) fo'" using one Round_Next by blast
      from Cons.IH [OF rec(1) this m(3)] show ?thesis using one Round_Next rec(2) by (simp add: log_run_append)
    qed (use Cons.prems(1) u Inr round one in auto)
  qed
qed simp

end


section \<open>A concrete log\<close>

text \<open>A log of empty records, its first record sealed in a local object, the second one active.\<close>

definition demo_log :: "nat \<Rightarrow> record_frame" where
  "demo_log i = \<lparr>payload = []\<rparr>"

definition demo_crc :: "bytes \<Rightarrow> nat" where
  "demo_crc b = (if b = [0, 0, 0, 4] then 7 else 0)"

definition demo_follow_record :: manifest_record where
  "demo_follow_record = \<lparr>mr_epoch = 1, mr_owner = ''o'', mr_tail_base = 1, mr_tail_id = Some ''t'',
     mr_pending_id = None, mr_seal_base = Some 0, mr_seal_id = Some ''s'', mr_seal_digest = Some ''d'',
     mr_trunc = 0, mr_segments = [\<lparr>de_id = ''s'', de_base = 0, de_crc32c = 7\<rparr>], mr_buckets = [''b'']\<rparr>"

definition demo_segment :: segment_descriptor where
  "demo_segment = \<lparr>sd_id = ''s'', sd_base = 0, sd_end = 0, sd_crc32c = 7, sd_copies = 0,
     sd_finalized_copies = 0, sd_seal_pending = True\<rparr>"

definition demo_files :: local_world where
  "demo_files = \<lparr>fs_meta = [''p/segments/s'' \<mapsto> \<lparr>om_generation = 1, om_metageneration = 1, om_finalized = True,
       om_session = 1, om_metadata = protocol_metadata\<rparr>],
     fs_data = [''p/segments/s'' \<mapsto> [0, 0, 0, 4]], fs_next = 2, lw_session = Map.empty\<rparr>"

definition demo_storage :: "local_world factories" where
  "demo_storage = local_factories demo_crc [''p/segments/s''] (\<lambda>_. None)"

definition demo_answer :: active_read_result where
  "demo_answer = \<lparr>rd_replica_index = 0, rd_byte_offset = 0,
     rd_read = Inr \<lparr>rr_zone = 0, rr_generation = 1, rr_bytes = [0, 0, 0, 4]\<rparr>\<rparr>"

lemma demo_frame_bytes: "frame_bytes (demo_log i) = [0, 0, 0, 4]"
proof -
  have "frame_bytes \<lparr>payload = []\<rparr> = [0, 0, 0, 4]" by code_simp
  then show ?thesis by (simp add: demo_log_def)
qed

lemma demo_log_encodable: "encodable_log demo_log"
  by (simp add: encodable_log_def demo_log_def)

lemma demo_copies: "local_copies demo_log demo_crc ''p'' {demo_segment} demo_files"
  by (auto simp: local_copies_def log_copy_def demo_segment_def demo_files_def segment_object_def log_bytes_def demo_frame_bytes)

lemma demo_agrees: "agrees demo_log 1 demo_answer"
proof -
  have "length (log_bytes demo_log 1 (1 + j)) = 4 * j" for j
    by (simp add: log_bytes_def demo_frame_bytes o_def length_concat sum_list_triv)
  then show ?thesis unfolding agrees_def
    by (auto simp: demo_answer_def intro!: exI [of _ 1]) (simp add: log_bytes_def demo_frame_bytes)
qed

lemma demo_faithful: "faithful_updates demo_log {demo_segment} {0} 0 [(Inr demo_follow_record, [demo_answer])]"
proof -
  have "readonly_segments demo_follow_record = Inr [demo_segment]"
    by (simp add: readonly_segments_def demo_follow_record_def checked_sub_def demo_segment_def)
  moreover have "history_covered demo_follow_record"
    by (auto simp: history_covered_def segment_of_None demo_follow_record_def)
  moreover have "mr_tail_base demo_follow_record = 1" by (simp add: demo_follow_record_def)
  ultimately show ?thesis using demo_agrees by (simp add: faithful_round_def)
qed


section \<open>Properties\<close>

text \<open>
  C15. A successful read of a sealed segment returns bytes with the checksum
  committed in the manifest, and the records they decode to, one for each
  sequence number of the segment, whatever the zones answered.
\<close>

theorem sealed_read_is_verified:
  assumes "run_state (read_sealed_segment_bytes fac crc object seg accept) w = (Inr (data, records), w')"
  shows "crc data = sd_crc32c seg \<and> encode_all records = Inr data
    \<and> sd_base seg \<le> sd_end seg \<and> sd_base seg + length records = sd_end seg + 1"
  using read_sealed_segment_bytes_content [OF assms] by (simp add: sealed_content_def)

theorem sealed_read_is_verified_witness:
  "\<exists>data records w'. run_state (read_sealed_segment_bytes demo_storage demo_crc ''p/segments/s'' demo_segment False) demo_files
       = (Inr (data, records), w') \<and> demo_crc data = 7 \<and> length records = 1"
proof -
  have "case run_state (read_sealed_segment_bytes demo_storage demo_crc ''p/segments/s'' demo_segment False) demo_files of
      (Inl e, w') \<Rightarrow> False | (Inr (data, records), w') \<Rightarrow> True"
    by code_simp
  then obtain data records w' where
    r: "run_state (read_sealed_segment_bytes demo_storage demo_crc ''p/segments/s'' demo_segment False) demo_files
       = (Inr (data, records), w')"
    by (auto split: prod.splits sum.splits)
  from sealed_read_is_verified [OF r] r show ?thesis by (auto simp: demo_segment_def)
qed


text \<open>
  C16. A majority read of the active segment emits at every index a record that
  a quorum of the zones showed, and a non-empty prefix that a quorum of zones
  holds is emitted in full.
\<close>

theorem active_read_emits_quorum_prefix:
  assumes "0 < q" "length obs < 2 * q"
    and "\<forall>fs. Read_Records fs \<in> set obs \<longrightarrow> list_all (\<lambda>f. is_ok (encode f)) fs"
  shows "(\<forall>fs i. active_read_decision obs q = Inr (Decision_Frames fs) \<longrightarrow> i < length fs \<longrightarrow>
      q \<le> length (filter (holds_at i (fs ! i)) obs))
    \<and> (cs \<noteq> [] \<longrightarrow> q \<le> length (filter (\<lambda>x. \<exists>fs. x = Read_Records fs \<and> prefix cs fs) obs) \<longrightarrow>
      (\<exists>fs. active_read_decision obs q = Inr (Decision_Frames fs) \<and> prefix cs fs))"
proof (intro conjI allI impI)
  show "q \<le> length (filter (holds_at i (fs ! i)) obs)"
    if "active_read_decision obs q = Inr (Decision_Frames fs)" "i < length fs" for fs i
    using decide_from_frames [of "observed_records obs" "pending_reads obs" q "[]" fs i] that
    by (simp add: active_read_decision_def votes_for_zones)
next
  assume cs: "cs \<noteq> []" and held: "q \<le> length (filter (\<lambda>x. \<exists>fs. x = Read_Records fs \<and> prefix cs fs) obs)"
  have "q \<le> votes_for i (observed_records obs) (cs ! i)" if "i < length cs" for i
  proof -
    have imp: "holds_at i (cs ! i) x" if "\<exists>fs. x = Read_Records fs \<and> prefix cs fs" for x
      using that \<open>i < length cs\<close> by (auto simp: holds_at_def prefix_def nth_append)
    have "length (filter (\<lambda>x. \<exists>fs. x = Read_Records fs \<and> prefix cs fs) obs) \<le> length (filter (holds_at i (cs ! i)) obs)"
      using imp by (induction obs) auto
    with held show ?thesis by (simp add: votes_for_zones)
  qed
  moreover have "length (observed_records obs) < 2 * q"
    using assms(2) length_observed_records [of obs] by simp
  moreover have "\<forall>fs \<in> set (observed_records obs). \<forall>f \<in> set fs. is_ok (encode f)"
    using assms(3) by (auto simp: observed_records_mem list_all_iff)
  ultimately show "\<exists>fs. active_read_decision obs q = Inr (Decision_Frames fs) \<and> prefix cs fs"
    using decide_from_reaches [OF assms(1), of "observed_records obs" cs "[]" "pending_reads obs"] cs
    by (simp add: active_read_decision_def)
qed

theorem active_read_emits_quorum_prefix_witness:
  "\<exists>fs. active_read_decision [Read_Records [demo_log 0], Read_Pending, Read_Records [demo_log 0, demo_log 1]] 2
      = Inr (Decision_Frames fs) \<and> prefix [demo_log 0] fs"
proof -
  have "is_ok (encode (demo_log i))" for i by (simp add: encode_log [OF demo_log_encodable])
  then have "\<forall>fs. Read_Records fs \<in> set [Read_Records [demo_log 0], Read_Pending, Read_Records [demo_log 0, demo_log 1]]
      \<longrightarrow> list_all (\<lambda>f. is_ok (encode f)) fs" by auto
  from active_read_emits_quorum_prefix [of 2, OF _ _ this, of "[demo_log 0]"] show ?thesis by simp
qed


text \<open>
  C33. A poll of the active segment returns once every replica has answered at
  the polled offset, in whatever order the answers complete and however many
  answers to earlier polls arrive in between.
\<close>

theorem active_read_returns:
  assumes "\<And>z. z < ar_replicas st \<Longrightarrow>
    \<exists>a \<in> set answers. rd_replica_index a = z \<and> rd_byte_offset a = ar_byte_offset st"
  shows "\<exists>r. fst (read_active_quorum snapshot answers st) = Some r"
proof (cases "ar_replicas st")
  case 0
  then show ?thesis by (simp add: read_active_quorum_def)
next
  case (Suc n)
  then show ?thesis
    using poll_answers_return [of 0 "replicate (ar_replicas st) Read_Pending" answers "ar_byte_offset st"] assms
    by (simp add: read_active_quorum_def)
qed

theorem active_read_returns_witness:
  "\<exists>r. fst (read_active_quorum False [demo_answer] (new_active_state demo_follow_record ''t'' 1 (WalSeqNo 1))) = Some r"
  by (rule active_read_returns) (simp add: new_active_state_def demo_answer_def)


text \<open>
  C6. The readonly follower emits the log from its checkpoint on, each sequence
  number once and in order with the payload the log has there, as long as the
  register covers its retained history, the zones show copies of the sealed
  segments (complete, short, overlong, missing, or damaged in a way the
  committed checksum exposes) and fewer than a quorum of zones show an active
  segment that deviates from the log.
\<close>

theorem follower_delivers_log:
  assumes "encodable_log log" "sealed_copies fac crc pre log S held" "held w" "faithful_updates log S C 0 polls"
    and "C \<subseteq> {..<fa_count fac}" "fa_count fac < majority (fa_count fac) + card C"
    and "run_state (follow_readonly fac crc pre polls \<lparr>fo_next = WalSeqNo checkpoint, fo_active = None\<rparr>) w
      = ((out, result), w')"
  shows "out = map (\<lambda>i. \<lparr>wr_seqno = WalSeqNo i, wr_payload = payload (log i)\<rparr>)
    [checkpoint..<checkpoint + length out]"
  using sealed_copies.follow_readonly_log [OF assms(2,7,1) _ assms(4-6,3)]
  by (simp add: follows_def log_run_def wal_of_def [abs_def])

theorem follower_delivers_log_witness:
  "\<exists>result w'. run_state (follow_readonly demo_storage demo_crc ''p'' [(Inr demo_follow_record, [demo_answer])]
       \<lparr>fo_next = WalSeqNo 0, fo_active = None\<rparr>) demo_files
     = (([\<lparr>wr_seqno = WalSeqNo 0, wr_payload = []\<rparr>, \<lparr>wr_seqno = WalSeqNo 1, wr_payload = []\<rparr>], result), w')"
proof -
  let ?run = "run_state (follow_readonly demo_storage demo_crc ''p'' [(Inr demo_follow_record, [demo_answer])]
       \<lparr>fo_next = WalSeqNo 0, fo_active = None\<rparr>) demo_files"
  obtain out result w' where r: "?run = ((out, result), w')" by (metis prod.collapse)
  have "length (fst (fst ?run)) = 2" by code_simp
  then have "length out = 2" by (simp only: r fst_conv)
  moreover have "out = map (\<lambda>i. \<lparr>wr_seqno = WalSeqNo i, wr_payload = payload (demo_log i)\<rparr>) [0..<0 + length out]"
    by (rule follower_delivers_log [OF demo_log_encodable local_sealed.sealed_copies_axioms demo_copies demo_faithful _ _
          r [unfolded demo_storage_def]])
      (simp_all add: demo_storage_def local_factories_def majority_def)
  ultimately show ?thesis using r by (simp add: demo_log_def upt_rec)
qed

end
