(* ===== verification/Segment_Recovery.thy ===== *)
theory Segment_Recovery
  imports Segment_Read
begin

text \<open>
  Startup recovery of a whole WAL, the module \<open>recovery\<close> of \<open>segment.rs\<close>: the
  manifest directory is adopted as the sealed chain, the seal that may still
  be in flight is enforced, the tail and the pending segment are taken over in
  manifest order, and the register is advanced to an empty frontier.  A writer
  is the list of append tokens it is built from; CRC32C and the SHA-256 digest
  are the parameters \<open>crc\<close> and \<open>sha\<close>.
\<close>

section \<open>Results with effects\<close>

text \<open>The \<open>?\<close> operator on an effectful call.\<close>

definition try_then ::
  "('w, 'e + 'a) state \<Rightarrow> ('a \<Rightarrow> ('w, 'e + 'b) state) \<Rightarrow> ('w, 'e + 'b) state" where
  "try_then m f = do {
     r \<leftarrow> m;
     case r of Inl e \<Rightarrow> State_Monad.return (Inl e) | Inr x \<Rightarrow> f x
   }"

definition fail_with :: "'e \<Rightarrow> ('w, 'e + 'a) state" where
  "fail_with e = State_Monad.return (Inl e)"

definition succeed :: "'a \<Rightarrow> ('w, 'e + 'a) state" where
  "succeed x = State_Monad.return (Inr x)"

text \<open>A protocol call inside an operation that returns the public error.\<close>

definition lift_protocol :: "('w, protocol_error + 'a) state \<Rightarrow> ('w, error + 'a) state" where
  "lift_protocol m = do {
     r \<leftarrow> m;
     State_Monad.return (case r of Inl e \<Rightarrow> Inl (error_of_protocol e) | Inr x \<Rightarrow> Inr x)
   }"

text \<open>A manifest mutator; after an error the operation returns and drops the handle.\<close>

definition mutate :: "('w, (protocol_error + unit) \<times> manifest) state \<Rightarrow> ('w, error + manifest) state" where
  "mutate m = do {
     (r, mf) \<leftarrow> m;
     State_Monad.return (case r of Inl e \<Rightarrow> Inl (error_of_protocol e) | Inr _ \<Rightarrow> Inr mf)
   }"


section \<open>State\<close>

record 'w segmented_volume =
  sv_factories :: "'w factories"
  sv_store :: "'w manifest_store"
  sv_bucket_names :: "string list"
  sv_prefix :: string
  sv_config :: client_config

definition build_volume ::
  "'w factories \<Rightarrow> 'w manifest_store \<Rightarrow> string list \<Rightarrow> string \<Rightarrow> client_config \<Rightarrow> error + 'w segmented_volume" where
  "build_volume fac store bucket_names pre cfg =
     (if fa_count fac \<notin> set SUPPORTED_REPLICA_COUNTS then Inl (error_of_protocol PE_ReplicaCount)
      else Inr \<lparr>sv_factories = fac, sv_store = store, sv_bucket_names = bucket_names, sv_prefix = pre, sv_config = cfg\<rparr>)"

definition sv_quorum :: "'w segmented_volume \<Rightarrow> nat" where
  "sv_quorum sv = majority (fa_count (sv_factories sv))"

definition sv_replicas :: "'w segmented_volume \<Rightarrow> string \<Rightarrow> 'w replica_ops" where
  "sv_replicas sv i = fa_replicas (sv_factories sv) (segment_object (sv_prefix sv) i)"

record 'wr pending_swap =
  ps_id :: string
  ps_base :: nat
  ps_end :: nat
  ps_digest :: string
  ps_crc32c :: nat
  ps_successor_id :: string
  ps_writer :: "'wr option"

record dead_segment_sweep =
  ds_keep :: "string set"
  ds_claimed_epoch :: nat

record recovered_writer_state =
  rw_sealed_segments :: "segment_descriptor list"
  rw_base :: nat
  rw_checkpoint_floor :: nat
  rw_active_id :: string
  rw_active_writer :: "append_token list option"
  rw_spare :: "(string \<times> append_token list) option"
  rw_pending_fold :: "append_token list pending_swap option"
  rw_next_segment_seq :: nat
  rw_dead_segment_sweep :: dead_segment_sweep

record recovered_predecessor =
  rp_id :: string
  rp_base :: nat
  rp_end :: nat
  rp_digest :: string
  rp_crc32c :: nat
  rp_had_proven_gap :: bool
  rp_deferred_seal :: "recovered_tail option"

datatype recovered_manifest_candidate =
    RC_Absent
  | RC_Empty "append_token list option"
  | RC_NonEmpty recovered_predecessor

definition predecessor_descriptor :: "nat \<Rightarrow> recovered_predecessor \<Rightarrow> segment_descriptor" where
  "predecessor_descriptor q p = \<lparr>sd_id = rp_id p, sd_base = rp_base p, sd_end = rp_end p,
     sd_crc32c = rp_crc32c p, sd_copies = q, sd_finalized_copies = q, sd_seal_pending = False\<rparr>"

definition into_pending_fold :: "recovered_predecessor \<Rightarrow> string \<Rightarrow> append_token list pending_swap" where
  "into_pending_fold p successor = \<lparr>ps_id = rp_id p, ps_base = rp_base p, ps_end = rp_end p,
     ps_digest = rp_digest p, ps_crc32c = rp_crc32c p, ps_successor_id = successor, ps_writer = None\<rparr>"

definition fold_of :: "recovered_predecessor \<Rightarrow> string \<Rightarrow> string \<Rightarrow> string \<Rightarrow> pending_fold" where
  "fold_of p consumed successor refill =
     \<lparr>pf_old_tail_id = rp_id p, pf_old_tail_base = rp_base p, pf_old_tail_end = rp_end p,
      pf_old_tail_digest = rp_digest p, pf_old_tail_crc32c = rp_crc32c p,
      pf_consumed_pending_id = consumed, pf_successor_tail_id = successor, pf_refill_pending_id = refill\<rparr>"


section \<open>Objects\<close>

definition volume_for :: "'w segmented_volume \<Rightarrow> error + quorum_volume" where
  "volume_for sv =
     (case with_metadata (fa_count (sv_factories sv)) (sv_config sv) protocol_metadata of
        Inl e \<Rightarrow> Inl (error_of_protocol e)
      | Inr vol \<Rightarrow> Inr vol)"

definition provision_segment ::
  "'w segmented_volume \<Rightarrow> string \<Rightarrow> ('w, error + append_token list) state" where
  "provision_segment sv i =
     (case volume_for sv of
        Inl e \<Rightarrow> fail_with e
      | Inr vol \<Rightarrow> lift_protocol (create_writer (sv_replicas sv i) vol))"

text \<open>Both objects of a frontier; the source issues the creates together.\<close>

definition provision_frontier ::
  "'w segmented_volume \<Rightarrow> string \<Rightarrow> string \<Rightarrow> ('w, error + append_token list \<times> append_token list) state" where
  "provision_frontier sv active_id pending_id =
     try_then (provision_segment sv active_id) (\<lambda>active.
     try_then (provision_segment sv pending_id) (\<lambda>pending. succeed (active, pending)))"

definition manifest_candidate ::
  "(bytes \<Rightarrow> string) \<Rightarrow> string \<Rightarrow> nat \<Rightarrow> recovery_candidate \<Rightarrow> error + recovered_manifest_candidate" where
  "manifest_candidate sha i base_index c =
     (case c of
        Candidate_Absent \<Rightarrow> Inr RC_Absent
      | Candidate_Empty reusable \<Rightarrow> Inr (RC_Empty reusable)
      | Candidate_NonEmpty tail \<Rightarrow>
          and_then (ok_or (checked_sub (length (cp_record_ends (rt_canonical tail))) 1)
              (Err_InvalidCatalog ''non-empty recovery candidate contains no complete records'')) (\<lambda>last_offset.
          and_then (ok_or (checked_add u64_max base_index last_offset)
              (Err_InvalidCatalog ''segment end overflowed u64'')) (\<lambda>end_index.
          Inr (RC_NonEmpty \<lparr>rp_id = i, rp_base = base_index, rp_end = end_index,
            rp_digest = sha (cp_bytes (rt_canonical tail)), rp_crc32c = rt_crc32c tail,
            rp_had_proven_gap = rt_had_discarded_suffix tail, rp_deferred_seal = Some tail\<rparr>))))"

definition recover_manifest_candidate ::
  "'w segmented_volume \<Rightarrow> (bytes \<Rightarrow> nat) \<Rightarrow> (bytes \<Rightarrow> string) \<Rightarrow> string \<Rightarrow> nat
     \<Rightarrow> ('w, error + recovered_manifest_candidate) state" where
  "recover_manifest_candidate sv crc sha i base_index =
     (case volume_for sv of
        Inl e \<Rightarrow> fail_with e
      | Inr vol \<Rightarrow>
          try_then (lift_protocol (recover_candidate (sv_replicas sv i) crc vol None)) (\<lambda>c.
          State_Monad.return (manifest_candidate sha i base_index c)))"

text \<open>\<open>RecoveredPredecessor::enforce_seal\<close>: the deferred seal is taken and enforced once.\<close>

definition enforce_predecessor ::
  "'w segmented_volume \<Rightarrow> recovered_predecessor \<Rightarrow> ('w, error + recovered_predecessor) state" where
  "enforce_predecessor sv p =
     (case rp_deferred_seal p of
        None \<Rightarrow> succeed p
      | Some tail \<Rightarrow>
          (case volume_for sv of
             Inl e \<Rightarrow> fail_with e
           | Inr vol \<Rightarrow> try_then (lift_protocol (enforce_seal (sv_replicas sv (rp_id p)) vol tail)) (\<lambda>_.
               succeed (p\<lparr>rp_deferred_seal := None\<rparr>))))"


section \<open>Sealed segments\<close>

definition digest_differs :: "(bytes \<Rightarrow> string) \<Rightarrow> string option \<Rightarrow> bytes \<Rightarrow> bool" where
  "digest_differs sha expected data = (case expected of None \<Rightarrow> False | Some d \<Rightarrow> sha data \<noteq> d)"

definition enforce_committed_seal ::
  "'w segmented_volume \<Rightarrow> (bytes \<Rightarrow> nat) \<Rightarrow> (bytes \<Rightarrow> string) \<Rightarrow> string \<Rightarrow> nat \<Rightarrow> nat \<Rightarrow> string option \<Rightarrow> nat
     \<Rightarrow> ('w, error + segment_descriptor) state" where
  "enforce_committed_seal sv crc sha i base_index end_index expected_digest expected_crc32c =
     (case expected_record_count base_index end_index of
        None \<Rightarrow> fail_with (Err_InvalidCatalog (''segment '' @ show_dec base_index @ '' has invalid committed end ''
                  @ show_dec end_index))
      | Some expected_records \<Rightarrow>
          (case volume_for sv of
             Inl e \<Rightarrow> fail_with e
           | Inr vol \<Rightarrow>
               try_then (lift_protocol (recover_for_seal (sv_replicas sv i) crc vol (Some expected_records))) (\<lambda>tail.
                 let data = cp_bytes (rt_canonical tail);
                     found = length (cp_record_ends (rt_canonical tail))
                 in if found \<noteq> expected_records
                    then fail_with (Err_InvalidCatalog (''segment '' @ show_dec base_index @ '' recovered ''
                           @ show_dec found @ '' records, expected '' @ show_dec expected_records))
                    else if digest_differs sha expected_digest data
                    then fail_with (Err_InvalidCatalog (''segment '' @ show_dec base_index @ '' recovered seal digest ''
                           @ sha data @ '', expected '' @ unwrap_or expected_digest []))
                    else if rt_crc32c tail \<noteq> expected_crc32c
                    then fail_with (Err_InvalidCatalog (''segment '' @ show_dec base_index @ '' recovered CRC32C ''
                           @ hex8 (rt_crc32c tail) @ '', expected '' @ hex8 expected_crc32c))
                    else try_then (lift_protocol (enforce_seal (sv_replicas sv i) vol tail)) (\<lambda>_.
                      succeed \<lparr>sd_id = i, sd_base = base_index, sd_end = end_index, sd_crc32c = expected_crc32c,
                        sd_copies = sv_quorum sv, sd_finalized_copies = sv_quorum sv, sd_seal_pending = False\<rparr>))))"

fun group_copies :: "bytes list \<Rightarrow> (bytes \<times> nat) list \<Rightarrow> (bytes \<times> nat) list" where
  "group_copies [] groups = groups"
| "group_copies (b # bs) groups =
     group_copies bs
       (if b \<in> fst ` set groups then map (\<lambda>(c, k). if c = b then (c, k + 1) else (c, k)) groups
        else groups @ [(b, 1)])"

text \<open>\<open>max_by\<close> with length first and the bytes as a tie break; the last maximum wins.\<close>

fun longest_copy :: "(bytes \<times> nat \<times> nat) list \<Rightarrow> (bytes \<times> nat \<times> nat) option" where
  "longest_copy [] = None"
| "longest_copy (x # xs) =
     (case longest_copy xs of
        None \<Rightarrow> Some x
      | Some y \<Rightarrow>
          if length (fst y) < length (fst x) \<or> (length (fst y) = length (fst x) \<and> fst y < fst x)
          then Some x else Some y)"

definition committed_copies ::
  "'w segmented_volume \<Rightarrow> nat option \<Rightarrow> replica_snapshot list \<Rightarrow> (bytes \<times> nat \<times> nat) option" where
  "committed_copies sv expected_records finalized =
     longest_copy (filter (\<lambda>(b, record_count, copies).
         sv_quorum sv \<le> copies \<and> (expected_records = None \<or> expected_records = Some record_count))
       (List.map_filter (\<lambda>(b, copies). case validate_all b of
           Inl _ \<Rightarrow> None | Inr record_count \<Rightarrow> Some (b, record_count, copies))
         (group_copies (map rs_bytes finalized) [])))"

definition descriptor_of ::
  "string \<Rightarrow> nat \<Rightarrow> nat \<Rightarrow> nat \<Rightarrow> nat \<Rightarrow> error + segment_descriptor option" where
  "descriptor_of i base_index last_offset crc32c copies =
     (case checked_add u64_max base_index last_offset of
        None \<Rightarrow> Inl (Err_InvalidCatalog ''segment end overflowed u64'')
      | Some end_index \<Rightarrow> Inr (Some \<lparr>sd_id = i, sd_base = base_index, sd_end = end_index, sd_crc32c = crc32c,
          sd_copies = copies, sd_finalized_copies = copies, sd_seal_pending = False\<rparr>))"

definition finalized_from_bytes ::
  "'w segmented_volume \<Rightarrow> (bytes \<Rightarrow> nat) \<Rightarrow> (bytes \<Rightarrow> string) \<Rightarrow> string \<Rightarrow> nat \<Rightarrow> nat option \<Rightarrow> string option \<Rightarrow> nat
     \<Rightarrow> replica_snapshot list \<Rightarrow> error + segment_descriptor option" where
  "finalized_from_bytes sv crc sha i base_index expected_records expected_digest expected_crc32c finalized =
     (if length finalized < sv_quorum sv then Inr None
      else case committed_copies sv expected_records finalized of
        None \<Rightarrow> Inr None
      | Some (data, record_count, copies) \<Rightarrow>
          (case checked_sub record_count 1 of
             None \<Rightarrow> Inl (Err_InvalidCatalog (''finalized segment '' @ show_dec base_index @ '' is empty''))
           | Some last_offset \<Rightarrow>
               if digest_differs sha expected_digest data
               then Inl (Err_InvalidCatalog (''finalized segment '' @ show_dec base_index
                      @ '' does not match the committed seal digest''))
               else if crc data \<noteq> expected_crc32c
               then Inl (Err_InvalidCatalog (''finalized segment '' @ show_dec base_index @ '' has CRC32C ''
                      @ hex8 (crc data) @ '', expected '' @ hex8 expected_crc32c))
               else descriptor_of i base_index last_offset expected_crc32c copies))"

definition finalized_segment_descriptor ::
  "'w segmented_volume \<Rightarrow> (bytes \<Rightarrow> nat) \<Rightarrow> (bytes \<Rightarrow> string) \<Rightarrow> string \<Rightarrow> nat \<Rightarrow> nat option \<Rightarrow> string option \<Rightarrow> nat
     \<Rightarrow> ('w, error + segment_descriptor option) state" where
  "finalized_segment_descriptor sv crc sha i base_index expected_records expected_digest expected_crc32c =
     (let ops = sv_replicas sv i;
          zones = [0..<fa_count (sv_factories sv)];
          read = do {
            reads \<leftarrow> join_all (op_snapshot ops) zones;
            State_Monad.return (finalized_from_bytes sv crc sha i base_index expected_records expected_digest
              expected_crc32c (filter (\<lambda>s. rs_finalized s \<and> valid_format (rs_metadata s)) (oks reads)))
          }
      in case expected_records of
           None \<Rightarrow> read
         | Some expected \<Rightarrow> do {
             stats \<leftarrow> join_all (op_stat ops) zones;
             let matching = length (filter (\<lambda>s. rs_finalized s \<and> valid_format (rs_metadata s)
                   \<and> rs_crc32c s = Some expected_crc32c) (oks stats));
             if sv_quorum sv \<le> matching
             then State_Monad.return (case checked_sub expected 1 of
                 None \<Rightarrow> Inl (Err_InvalidCatalog ''committed seal has zero records'')
               | Some last_offset \<Rightarrow> descriptor_of i base_index last_offset expected_crc32c matching)
             else read
           })"

definition recover_and_seal_segment ::
  "'w segmented_volume \<Rightarrow> (bytes \<Rightarrow> nat) \<Rightarrow> (bytes \<Rightarrow> string) \<Rightarrow> string \<Rightarrow> nat \<Rightarrow> nat \<Rightarrow> nat option \<Rightarrow> string option \<Rightarrow> nat
     \<Rightarrow> ('w, error + segment_descriptor) state" where
  "recover_and_seal_segment sv crc sha i base_index end_index known_records expected_digest expected_crc32c =
     try_then (finalized_segment_descriptor sv crc sha i base_index known_records expected_digest expected_crc32c)
       (\<lambda>completed.
         case completed of
           Some d \<Rightarrow>
             if sd_end d \<noteq> end_index
             then fail_with (Err_InvalidCatalog (''segment '' @ show_dec base_index @ '' seals at '' @ show_dec (sd_end d)
                    @ '', following segment requires '' @ show_dec end_index))
             else succeed d
         | None \<Rightarrow> enforce_committed_seal sv crc sha i base_index end_index expected_digest expected_crc32c)"



section \<open>Adopting the directory\<close>

record chain_entry =
  ce_id :: string
  ce_base :: nat
  ce_end :: nat
  ce_crc32c :: nat

text \<open>The loop over the directory: ends follow from the next base, entries below the floor are left out.\<close>

fun adopted_chain ::
  "manifest_record \<Rightarrow> directory_entry list \<Rightarrow> error + chain_entry list" where
  "adopted_chain r [] = Inr []"
| "adopted_chain r (e # rest) =
     (let following = (case rest of [] \<Rightarrow> mr_tail_base r | e' # _ \<Rightarrow> de_base e')
      in case checked_sub following 1 of
           None \<Rightarrow> Inl (Err_InvalidCatalog ''segment bases must be positive and increasing'')
         | Some end_index \<Rightarrow>
             if end_index < de_base e
             then Inl (Err_InvalidCatalog (''directory entry '' @ de_id e @ '' at base '' @ show_dec (de_base e)
                    @ '' extends past the following base '' @ show_dec following))
             else and_then (adopted_chain r rest) (\<lambda>chain.
               Inr (if end_index < mr_trunc r then chain
                    else \<lparr>ce_id = de_id e, ce_base = de_base e, ce_end = end_index, ce_crc32c = de_crc32c e\<rparr> # chain)))"

text \<open>The checks of \<open>prepare_recovery\<close> before any object is touched.\<close>

definition plan_recovery :: "nat \<Rightarrow> manifest_record \<Rightarrow> error + chain_entry list" where
  "plan_recovery checkpoint r =
     (if checkpoint < mr_trunc r
      then Inl (Err_InvalidCatalog (''checkpoint '' @ show_dec checkpoint @ '' lies below the committed truncation floor ''
             @ show_dec (mr_trunc r) @ '': those records were deleted after the database checkpointed them''))
      else and_then (adopted_chain r (mr_segments r)) (\<lambda>chain.
        case chain of
          [] \<Rightarrow> Inr []
        | e # _ \<Rightarrow>
            if checkpoint < ce_base e \<and> mr_trunc r < ce_base e
            then Inl (Err_InvalidCatalog (''oldest segment starts at '' @ show_dec (ce_base e)
                   @ '', after checkpoint boundary '' @ show_dec checkpoint))
            else Inr chain))"

definition sweep_authority :: "manifest_record \<Rightarrow> dead_segment_sweep" where
  "sweep_authority r =
     \<lparr>ds_keep = set (map de_id (mr_segments r)) \<union> set_option (mr_tail_id r) \<union> set_option (mr_pending_id r),
      ds_claimed_epoch = mr_epoch r\<rparr>"

text \<open>Old entries are adopted as they are; the most recent seal is enforced.\<close>

fun adopt_chain ::
  "'w segmented_volume \<Rightarrow> (bytes \<Rightarrow> nat) \<Rightarrow> (bytes \<Rightarrow> string) \<Rightarrow> manifest_record \<Rightarrow> chain_entry list
     \<Rightarrow> ('w, error + segment_descriptor list) state" where
  "adopt_chain sv crc sha r [] = succeed []"
| "adopt_chain sv crc sha r (e # rest) =
     try_then
       (if mr_seal_id r = Some (ce_id e)
        then recover_and_seal_segment sv crc sha (ce_id e) (ce_base e) (ce_end e) (Some (ce_end e - ce_base e + 1))
               (if mr_seal_base r = Some (ce_base e) then mr_seal_digest r else None) (ce_crc32c e)
        else succeed \<lparr>sd_id = ce_id e, sd_base = ce_base e, sd_end = ce_end e, sd_crc32c = ce_crc32c e,
               sd_copies = 0, sd_finalized_copies = 0, sd_seal_pending = False\<rparr>)
       (\<lambda>d. try_then (adopt_chain sv crc sha r rest) (\<lambda>ds. succeed (d # ds)))"


section \<open>The frontier\<close>

text \<open>The variables of the walk over the tail and the pending segment.\<close>

record recovery_walk =
  wk_manifest :: manifest
  wk_seq :: nat
  wk_sealed :: "segment_descriptor list"
  wk_next :: nat
  wk_predecessor :: "recovered_predecessor option"
  wk_active :: "(string \<times> append_token list option) option"
  wk_spare :: "(string \<times> append_token list) option"
  wk_pending_fold :: "append_token list pending_swap option"

text \<open>\<open>fresh_id\<close>: the id for the current counter, and the walk with the counter advanced.\<close>

definition fresh_id :: "nat \<Rightarrow> recovery_walk \<Rightarrow> string \<times> recovery_walk" where
  "fresh_id epoch wk = (segment_id epoch (wk_seq wk), wk\<lparr>wk_seq := wk_seq wk + 1\<rparr>)"

text \<open>A frontier no writer can reuse is retired: two fresh objects replace the tail and the pending id.\<close>

definition retire_frontier ::
  "'w segmented_volume \<Rightarrow> manifest_record \<Rightarrow> string \<Rightarrow> string option \<Rightarrow> recovery_walk
     \<Rightarrow> ('w, error + recovery_walk) state" where
  "retire_frontier sv adopted tail_id expected_pending wk =
     (let (active_id, wk) = fresh_id (mr_epoch adopted) wk;
          (pending_id, wk) = fresh_id (mr_epoch adopted) wk
      in try_then (provision_frontier sv active_id pending_id) (\<lambda>(active, pending).
         try_then (mutate (replace_empty_frontier (sv_store sv) (wk_manifest wk) (Some tail_id) expected_pending
             (mr_tail_base adopted) active_id pending_id)) (\<lambda>mf.
         succeed (wk\<lparr>wk_manifest := mf, wk_active := Some (active_id, Some active), wk_spare := Some (pending_id, pending)\<rparr>))))"

definition walk_tail ::
  "'w segmented_volume \<Rightarrow> (bytes \<Rightarrow> nat) \<Rightarrow> (bytes \<Rightarrow> string) \<Rightarrow> manifest_record \<Rightarrow> string \<Rightarrow> recovery_walk
     \<Rightarrow> ('w, error + recovery_walk) state" where
  "walk_tail sv crc sha adopted tail_id wk =
     (if tail_id = segment_id (mr_epoch adopted) 0 \<and> mr_pending_id adopted = None
      then succeed (wk\<lparr>wk_active := Some (tail_id, None)\<rparr>)
      else try_then (recover_manifest_candidate sv crc sha tail_id (wk_next wk)) (\<lambda>c.
        case c of
          RC_Empty (Some writer) \<Rightarrow> succeed (wk\<lparr>wk_active := Some (tail_id, Some writer)\<rparr>)
        | RC_Empty None \<Rightarrow> retire_frontier sv adopted tail_id (mr_pending_id adopted) wk
        | RC_NonEmpty p \<Rightarrow>
            succeed (wk\<lparr>wk_next := rp_end p + 1,
              wk_sealed := wk_sealed wk @ [predecessor_descriptor (sv_quorum sv) p],
              wk_predecessor := Some p\<rparr>)
        | RC_Absent \<Rightarrow> retire_frontier sv adopted tail_id (mr_pending_id adopted) wk))"

text \<open>A single fresh pending segment is provisioned and registered.\<close>

definition register_fresh_pending ::
  "'w segmented_volume \<Rightarrow> manifest_record \<Rightarrow> recovery_walk
     \<Rightarrow> ('w, error + (string \<times> append_token list) \<times> recovery_walk) state" where
  "register_fresh_pending sv adopted wk =
     (let (pending_id, wk) = fresh_id (mr_epoch adopted) wk
      in try_then (provision_segment sv pending_id) (\<lambda>writer.
         try_then (mutate (register_pending (sv_store sv) (wk_manifest wk) pending_id)) (\<lambda>mf.
         succeed ((pending_id, writer), wk\<lparr>wk_manifest := mf\<rparr>))))"

text \<open>The pending segment after an empty tail.\<close>

definition walk_spare ::
  "'w segmented_volume \<Rightarrow> (bytes \<Rightarrow> nat) \<Rightarrow> (bytes \<Rightarrow> string) \<Rightarrow> manifest_record \<Rightarrow> string \<Rightarrow> recovery_walk
     \<Rightarrow> ('w, error + recovery_walk) state" where
  "walk_spare sv crc sha adopted tail_id wk =
     (case mr_pending_id adopted of
        Some pending_id \<Rightarrow>
          try_then (recover_manifest_candidate sv crc sha pending_id (wk_next wk)) (\<lambda>c.
            case c of
              RC_Empty (Some writer) \<Rightarrow> succeed (wk\<lparr>wk_spare := Some (pending_id, writer)\<rparr>)
            | RC_Empty None \<Rightarrow> retire_frontier sv adopted tail_id (Some pending_id) wk
            | RC_Absent \<Rightarrow> retire_frontier sv adopted tail_id (Some pending_id) wk
            | RC_NonEmpty _ \<Rightarrow>
                fail_with (Err_InvalidCatalog ''pending segment is non-empty after an empty tail frontier''))
      | None \<Rightarrow> try_then (register_fresh_pending sv adopted wk) (\<lambda>(spare, wk). succeed (wk\<lparr>wk_spare := Some spare\<rparr>)))"


text \<open>A non-empty tail is folded onto a fresh frontier that consumes the pending id.\<close>

definition fold_to_fresh ::
  "'w segmented_volume \<Rightarrow> manifest_record \<Rightarrow> recovered_predecessor \<Rightarrow> string \<Rightarrow> recovery_walk
     \<Rightarrow> ('w, error + recovery_walk) state" where
  "fold_to_fresh sv adopted p pending_id wk =
     (let (active_id, wk) = fresh_id (mr_epoch adopted) wk;
          (replacement_id, wk) = fresh_id (mr_epoch adopted) wk
      in try_then (provision_frontier sv active_id replacement_id) (\<lambda>(active, replacement).
         try_then (mutate (fold_pending (sv_store sv) (wk_manifest wk) (fold_of p pending_id active_id replacement_id))) (\<lambda>mf.
         succeed (wk\<lparr>wk_manifest := mf, wk_active := Some (active_id, Some active),
           wk_spare := Some (replacement_id, replacement)\<rparr>))))"

text \<open>Tail and pending segment both hold records: two folds, one after the other.\<close>

definition fold_both ::
  "'w segmented_volume \<Rightarrow> manifest_record \<Rightarrow> recovered_predecessor \<Rightarrow> recovered_predecessor \<Rightarrow> string \<Rightarrow> recovery_walk
     \<Rightarrow> ('w, error + recovery_walk) state" where
  "fold_both sv adopted p1 p2 pending_id wk =
     (let wk = wk\<lparr>wk_next := rp_end p2 + 1, wk_sealed := wk_sealed wk @ [predecessor_descriptor (sv_quorum sv) p2]\<rparr>
      in try_then (enforce_predecessor sv p2) (\<lambda>p2.
         let (refill_id, wk) = fresh_id (mr_epoch adopted) wk
         in try_then (provision_segment sv refill_id) (\<lambda>refill.
            try_then (enforce_predecessor sv p1) (\<lambda>p1.
            try_then (mutate (fold_pending (sv_store sv) (wk_manifest wk) (fold_of p1 pending_id pending_id refill_id))) (\<lambda>mf1.
            try_then (enforce_predecessor sv p2) (\<lambda>p2.
            let (replacement_id, wk) = fresh_id (mr_epoch adopted) wk
            in try_then (provision_segment sv replacement_id) (\<lambda>replacement.
               try_then (mutate (fold_pending (sv_store sv) mf1 (fold_of p2 refill_id refill_id replacement_id))) (\<lambda>mf2.
               succeed (wk\<lparr>wk_manifest := mf2, wk_active := Some (refill_id, Some refill),
                 wk_spare := Some (replacement_id, replacement)\<rparr>)))))))))"

definition walk_pending ::
  "'w segmented_volume \<Rightarrow> (bytes \<Rightarrow> nat) \<Rightarrow> (bytes \<Rightarrow> string) \<Rightarrow> manifest_record \<Rightarrow> recovered_predecessor \<Rightarrow> recovery_walk
     \<Rightarrow> ('w, error + recovery_walk) state" where
  "walk_pending sv crc sha adopted p wk =
     (case mr_pending_id adopted of
        Some pending_id \<Rightarrow>
          try_then (recover_manifest_candidate sv crc sha pending_id (wk_next wk)) (\<lambda>c.
            case c of
              RC_Empty (Some writer) \<Rightarrow>
                try_then (enforce_predecessor sv p) (\<lambda>p.
                succeed (wk\<lparr>wk_pending_fold := Some (into_pending_fold p pending_id),
                  wk_active := Some (pending_id, Some writer)\<rparr>))
            | RC_Empty None \<Rightarrow>
                try_then (enforce_predecessor sv p) (\<lambda>p. fold_to_fresh sv adopted p pending_id wk)
            | RC_NonEmpty p2 \<Rightarrow>
                if rp_had_proven_gap p
                then try_then (fold_to_fresh sv adopted p pending_id wk) (\<lambda>wk.
                     try_then (enforce_predecessor sv p) (\<lambda>_. succeed wk))
                else fold_both sv adopted p p2 pending_id wk
            | RC_Absent \<Rightarrow> fail_with (Err_InvalidCatalog ''manifest pending segment is absent on a quorum''))
      | None \<Rightarrow>
          try_then (register_fresh_pending sv adopted wk) (\<lambda>((pending_id, writer), wk).
          try_then (enforce_predecessor sv p) (\<lambda>p.
          succeed (wk\<lparr>wk_pending_fold := Some (into_pending_fold p pending_id),
            wk_active := Some (pending_id, Some writer)\<rparr>))))"

definition walk_frontier ::
  "'w segmented_volume \<Rightarrow> (bytes \<Rightarrow> nat) \<Rightarrow> (bytes \<Rightarrow> string) \<Rightarrow> manifest_record \<Rightarrow> string \<Rightarrow> recovery_walk
     \<Rightarrow> ('w, error + recovery_walk) state" where
  "walk_frontier sv crc sha adopted tail_id wk =
     try_then (walk_tail sv crc sha adopted tail_id wk) (\<lambda>wk.
       case (wk_active wk, wk_predecessor wk) of
         (Some (_, writer), _) \<Rightarrow>
           if wk_spare wk = None \<and> writer \<noteq> None then walk_spare sv crc sha adopted tail_id wk else succeed wk
       | (None, Some p) \<Rightarrow> walk_pending sv crc sha adopted p wk
       | (None, None) \<Rightarrow> fail_with (Err_Internal ''non-empty tail produced one predecessor''))"

definition start_walk :: "manifest \<Rightarrow> string \<Rightarrow> segment_descriptor list \<Rightarrow> recovery_walk" where
  "start_walk mf tail_id sealed =
     \<lparr>wk_manifest = mf, wk_seq = (if tail_id = segment_id (mr_epoch (mf_record mf)) 0 then 1 else 0),
      wk_sealed = sealed, wk_next = mr_tail_base (mf_record mf), wk_predecessor = None, wk_active = None,
      wk_spare = None, wk_pending_fold = None\<rparr>"

definition finish_recovery ::
  "wal_seq_no \<Rightarrow> manifest_record \<Rightarrow> recovery_walk \<Rightarrow> error + recovered_writer_state \<times> manifest" where
  "finish_recovery checkpoint adopted wk =
     (case wk_active wk of
        None \<Rightarrow> Inl (Err_Internal ''recovery always establishes an empty frontier'')
      | Some (active_id, active_writer) \<Rightarrow>
          if wk_next wk < get_seq checkpoint
          then Inl (Err_InvalidCatalog (''checkpoint '' @ show_dec (get_seq checkpoint)
                 @ '' lies past the committed end '' @ show_dec (wk_next wk)))
          else Inr (\<lparr>rw_sealed_segments = wk_sealed wk, rw_base = wk_next wk,
            rw_checkpoint_floor = mr_trunc adopted, rw_active_id = active_id,
            rw_active_writer = active_writer, rw_spare = wk_spare wk,
            rw_pending_fold = wk_pending_fold wk, rw_next_segment_seq = wk_seq wk,
            rw_dead_segment_sweep = sweep_authority adopted\<rparr>, wk_manifest wk))"

definition prepare_recovery ::
  "'w segmented_volume \<Rightarrow> (bytes \<Rightarrow> nat) \<Rightarrow> (bytes \<Rightarrow> string) \<Rightarrow> wal_seq_no \<Rightarrow> manifest
     \<Rightarrow> ('w, error + recovered_writer_state \<times> manifest) state" where
  "prepare_recovery sv crc sha checkpoint mf =
     (case plan_recovery (get_seq checkpoint) (mf_record mf) of
        Inl e \<Rightarrow> fail_with e
      | Inr chain \<Rightarrow>
          try_then (adopt_chain sv crc sha (mf_record mf) chain) (\<lambda>sealed.
            case mr_tail_id (mf_record mf) of
              None \<Rightarrow> fail_with (Err_InvalidCatalog ''claimed manifest has no tail id'')
            | Some tail_id \<Rightarrow>
                try_then (walk_frontier sv crc sha (mf_record mf) tail_id (start_walk mf tail_id sealed)) (\<lambda>wk.
                State_Monad.return (finish_recovery checkpoint (mf_record mf) wk))))"


section \<open>Replay and startup\<close>

text \<open>\<open>scan_sealed_range\<close>: the records of the fixed range, up to the first error.\<close>

fun scan_sealed_range ::
  "'w factories \<Rightarrow> (bytes \<Rightarrow> nat) \<Rightarrow> string \<Rightarrow> segment_descriptor list \<Rightarrow> wal_seq_no \<Rightarrow> wal_seq_no
     \<Rightarrow> ('w, wal_record list \<times> error option) state" where
  "scan_sealed_range fac crc pre [] from end = State_Monad.return ([], None)"
| "scan_sealed_range fac crc pre (seg # rest) from end =
     (if sd_end seg < get_seq from \<or> get_seq end \<le> sd_base seg
      then scan_sealed_range fac crc pre rest from end
      else do {
        r \<leftarrow> read_sealed_segment fac crc (segment_object pre (sd_id seg)) seg False;
        case r of
          Inl e \<Rightarrow> State_Monad.return ([], Some e)
        | Inr frames \<Rightarrow> do {
            (later, status) \<leftarrow> scan_sealed_range fac crc pre rest from end;
            State_Monad.return (replay_records seg frames from end @ later, status)
          }
      })"

record recovery =
  rec_from :: wal_seq_no
  rec_end :: wal_seq_no
  rec_manifest :: manifest
  rec_writer_state :: recovered_writer_state

definition recover_with_manifest ::
  "'w segmented_volume \<Rightarrow> (bytes \<Rightarrow> nat) \<Rightarrow> (bytes \<Rightarrow> string) \<Rightarrow> wal_seq_no \<Rightarrow> manifest
     \<Rightarrow> ('w, error + recovery) state" where
  "recover_with_manifest sv crc sha checkpoint mf =
     try_then (prepare_recovery sv crc sha checkpoint mf) (\<lambda>(state, mf').
     succeed \<lparr>rec_from = checkpoint, rec_end = WalSeqNo (rw_base state), rec_manifest = mf', rec_writer_state = state\<rparr>)"

text \<open>Opening the register and claiming an epoch; the owner string is a fresh random id in the source.\<close>

definition open_and_claim ::
  "'w segmented_volume \<Rightarrow> string \<Rightarrow> ('w, error + manifest) state" where
  "open_and_claim sv owner =
     try_then (lift_protocol (open_manifest (sv_store sv) (sv_config sv) owner (fa_count (sv_factories sv))
       (sv_bucket_names sv))) (\<lambda>mf. mutate (claim (sv_store sv) mf))"

definition recover ::
  "'w segmented_volume \<Rightarrow> (bytes \<Rightarrow> nat) \<Rightarrow> (bytes \<Rightarrow> string) \<Rightarrow> string \<Rightarrow> wal_seq_no \<Rightarrow> ('w, error + recovery) state" where
  "recover sv crc sha owner checkpoint =
     try_then (open_and_claim sv owner) (\<lambda>mf. recover_with_manifest sv crc sha checkpoint mf)"

definition recover_from_committed_floor ::
  "'w segmented_volume \<Rightarrow> (bytes \<Rightarrow> nat) \<Rightarrow> (bytes \<Rightarrow> string) \<Rightarrow> string \<Rightarrow> ('w, error + recovery) state" where
  "recover_from_committed_floor sv crc sha owner =
     try_then (open_and_claim sv owner) (\<lambda>mf.
     recover_with_manifest sv crc sha (WalSeqNo (mr_trunc (mf_record mf))) mf)"

definition open_existing_manifest ::
  "'w segmented_volume \<Rightarrow> string \<Rightarrow> ('w, error + manifest option) state" where
  "open_existing_manifest sv owner =
     lift_protocol (open_existing (sv_store sv) (sv_config sv) owner (fa_count (sv_factories sv)) (sv_bucket_names sv))"

definition open_readonly_with_config ::
  "'w segmented_volume \<Rightarrow> string \<Rightarrow> wal_seq_no \<Rightarrow> read_only_config \<Rightarrow> ('w, error + follower \<times> manifest) state" where
  "open_readonly_with_config sv owner checkpoint cfg =
     (case validate_read_only cfg of
        Inl e \<Rightarrow> fail_with e
      | Inr _ \<Rightarrow>
          try_then (open_existing_manifest sv owner) (\<lambda>found.
            case found of
              None \<Rightarrow> fail_with Err_Uninitialized
            | Some mf \<Rightarrow>
                if mr_tail_id (mf_record mf) = None then fail_with Err_Uninitialized
                else case check_readonly_floor (mf_record mf) checkpoint of
                  Inl e \<Rightarrow> fail_with e
                | Inr _ \<Rightarrow> succeed (\<lparr>fo_next = checkpoint, fo_active = None\<rparr>, mf)))"

end
