(* ===== verification/Startup.thy ===== *)
theory Startup
  imports Follower Segment_Recovery
begin

text \<open>
  Properties of startup recovery: the sealed chain it hands to replay covers
  the range from the checkpoint to the write frontier, replay emits exactly
  that range, no record a quorum acknowledged in the tail is lost, and the
  register agrees with the frontier the writer starts from.
\<close>

section \<open>Calls that may fail\<close>

lemma try_then_Inr_iff:
  "run_state (try_then m f) w = (Inr y, w') \<longleftrightarrow>
     (\<exists>x w1. run_state m w = (Inr x, w1) \<and> run_state (f x) w1 = (Inr y, w'))"
  by (auto simp: try_then_def split: prod.splits sum.splits)

lemma try_thenE:
  assumes "run_state (try_then m f) w = (Inr y, w')"
  obtains x w1 where "run_state m w = (Inr x, w1)" "run_state (f x) w1 = (Inr y, w')"
  using assms by (auto simp: try_then_Inr_iff)

lemma fail_with_run [simp]: "run_state (fail_with e) w = (Inl e, w)"
  by (simp add: fail_with_def)

lemma succeed_run [simp]: "run_state (succeed x) w = (Inr x, w)"
  by (simp add: succeed_def)

lemma lift_protocol_Inr_iff: "run_state (lift_protocol m) w = (Inr x, w') \<longleftrightarrow> run_state m w = (Inr x, w')"
  by (auto simp: lift_protocol_def split: prod.splits sum.splits)

lemma mutate_Inr_iff: "run_state (mutate m) w = (Inr mf, w') \<longleftrightarrow> (\<exists>u. run_state m w = ((Inr u, mf), w'))"
  by (auto simp: mutate_def split: prod.splits sum.splits)

lemma keeps_try_then [intro!]:
  assumes "keeps P m" "\<And>x. keeps P (f x)"
  shows "keeps P (try_then m f)"
  unfolding try_then_def using assms by auto

lemma keeps_fail_with [intro!]: "keeps P (fail_with e)" and keeps_succeed [intro!]: "keeps P (succeed x)"
  by (auto simp: fail_with_def succeed_def)

lemma keeps_lift_protocol [intro!]: "keeps P m \<Longrightarrow> keeps P (lift_protocol m)"
  unfolding lift_protocol_def by auto

lemma keeps_mutate [intro!]: "keeps P m \<Longrightarrow> keeps P (mutate m)"
  unfolding mutate_def by auto

lemma keeps_join_all [intro!]: "(\<And>x. keeps P (f x)) \<Longrightarrow> keeps P (join_all f xs)"
  by (induction xs) auto


section \<open>The sealed chain\<close>

lemma descriptor_of_Some:
  "descriptor_of i b k c n = Inr x \<Longrightarrow> \<exists>d. x = Some d \<and> sd_id d = i \<and> sd_base d = b \<and> sd_end d = b + k \<and> sd_crc32c d = c"
  by (auto simp: descriptor_of_def checked_add_def split: option.splits if_splits)

lemma finalized_segment_descriptor_fields:
  assumes "run_state (finalized_segment_descriptor sv crc sha i b k dg c) w = (Inr (Some d), w')"
  shows "sd_id d = i \<and> sd_base d = b \<and> sd_crc32c d = c"
proof -
  have "finalized_from_bytes sv crc sha i b k dg c fs = Inr (Some d) \<Longrightarrow> sd_id d = i \<and> sd_base d = b \<and> sd_crc32c d = c" for fs
    by (auto simp: finalized_from_bytes_def dest!: descriptor_of_Some split: option.splits if_splits)
  then show ?thesis using assms
    by (auto simp: finalized_segment_descriptor_def Let_def dest!: descriptor_of_Some
        split: option.splits if_splits prod.splits)
qed

lemma enforce_committed_seal_fields:
  assumes "run_state (enforce_committed_seal sv crc sha i b e dg c) w = (Inr d, w')"
  shows "sd_id d = i \<and> sd_base d = b \<and> sd_end d = e \<and> sd_crc32c d = c"
  using assms
  by (auto simp: enforce_committed_seal_def Let_def try_then_Inr_iff split: option.splits sum.splits if_splits)

lemma recover_and_seal_fields:
  assumes "run_state (recover_and_seal_segment sv crc sha i b e k dg c) w = (Inr d, w')"
  shows "sd_id d = i \<and> sd_base d = b \<and> sd_end d = e \<and> sd_crc32c d = c"
  using assms
  by (auto simp: recover_and_seal_segment_def try_then_Inr_iff
      dest: finalized_segment_descriptor_fields enforce_committed_seal_fields split: option.splits if_splits)

definition adopts :: "chain_entry \<Rightarrow> segment_descriptor \<Rightarrow> bool" where
  "adopts e d \<longleftrightarrow> sd_id d = ce_id e \<and> sd_base d = ce_base e \<and> sd_end d = ce_end e \<and> sd_crc32c d = ce_crc32c e"

lemma adopts_Cons:
  assumes "list_all2 adopts (\<lparr>ce_id = i, ce_base = b, ce_end = e, ce_crc32c = c\<rparr> # chain) ds"
  obtains d ds' where "ds = d # ds'" "list_all2 adopts chain ds'" "sd_base d = b" "sd_end d = e" "sd_id d = i"
proof -
  from assms obtain d ds' where d: "ds = d # ds'" "list_all2 adopts chain ds'"
      "adopts \<lparr>ce_id = i, ce_base = b, ce_end = e, ce_crc32c = c\<rparr> d" unfolding list_all2_Cons1 by blast
  from d(3) have "sd_base d = b" "sd_end d = e" "sd_id d = i" by (simp_all add: adopts_def)
  with d(1,2) show thesis by (rule that)
qed

lemma adopt_chain_adopts:
  "run_state (adopt_chain sv crc sha r chain) w = (Inr ds, w') \<Longrightarrow> list_all2 adopts chain ds"
proof (induction chain arbitrary: ds w w')
  case (Cons e rest)
  then obtain d ds' w1 where d: "run_state (if mr_seal_id r = Some (ce_id e)
        then recover_and_seal_segment sv crc sha (ce_id e) (ce_base e) (ce_end e) (Some (ce_end e - ce_base e + 1))
               (if mr_seal_base r = Some (ce_base e) then mr_seal_digest r else None) (ce_crc32c e)
        else succeed \<lparr>sd_id = ce_id e, sd_base = ce_base e, sd_end = ce_end e, sd_crc32c = ce_crc32c e,
               sd_copies = 0, sd_finalized_copies = 0, sd_seal_pending = False\<rparr>) w = (Inr d, w1)"
      "run_state (adopt_chain sv crc sha r rest) w1 = (Inr ds', w')" "ds = d # ds'"
    by (auto simp: try_then_Inr_iff)
  have "adopts e d" using d(1) by (auto simp: adopts_def dest: recover_and_seal_fields split: if_splits)
  then show ?case using Cons.IH [OF d(2)] d(3) by simp
qed simp

text \<open>One step of the loop over the directory.\<close>

lemma adopted_chain_Cons:
  assumes "adopted_chain r (e # es) = Inr chain"
  obtains last rest where "Suc last = (case es of [] \<Rightarrow> mr_tail_base r | e' # _ \<Rightarrow> de_base e')" "de_base e \<le> last"
    "adopted_chain r es = Inr rest"
    "chain = (if last < mr_trunc r then rest
       else \<lparr>ce_id = de_id e, ce_base = de_base e, ce_end = last, ce_crc32c = de_crc32c e\<rparr> # rest)"
proof -
  define b where "b = (case es of [] \<Rightarrow> mr_tail_base r | e' # _ \<Rightarrow> de_base e')"
  obtain last rest where l: "checked_sub b 1 = Some last" "\<not> last < de_base e" "adopted_chain r es = Inr rest"
      "chain = (if last < mr_trunc r then rest
         else \<lparr>ce_id = de_id e, ce_base = de_base e, ce_end = last, ce_crc32c = de_crc32c e\<rparr> # rest)"
    using assms by (auto simp: b_def Let_def and_then_Inr_iff split: option.splits if_splits)
  have "Suc last = b" using l(1) by (auto simp: checked_sub_def split: if_splits)
  then show thesis using that [of last rest] l(2-4) by (simp add: b_def)
qed

lemma adopted_chain_bases:
  "adopted_chain r (e # es) = Inr chain \<Longrightarrow> e' \<in> set es \<Longrightarrow> de_base e < de_base e'"
proof (induction es arbitrary: e chain)
  case (Cons f es)
  from Cons.prems(1) obtain last rest where l: "Suc last = de_base f" "de_base e \<le> last" "adopted_chain r (f # es) = Inr rest"
    by (rule adopted_chain_Cons) simp
  then show ?case using Cons.IH [OF l(3)] Cons.prems(2) by fastforce
qed simp

lemma adopted_chain_kept:
  assumes "adopted_chain r es = Inr chain" "list_all2 adopts chain ds"
    and "b = (case es of [] \<Rightarrow> mr_tail_base r | e # _ \<Rightarrow> de_base e)" "mr_trunc r \<le> b"
  shows "segment_chain ds b (mr_tail_base r)"
  using assms
proof (induction es arbitrary: chain ds b)
  case (Cons e es)
  from Cons.prems(1) obtain last rest where l: "Suc last = (case es of [] \<Rightarrow> mr_tail_base r | e' # _ \<Rightarrow> de_base e')"
      "de_base e \<le> last" "adopted_chain r es = Inr rest"
      "chain = (if last < mr_trunc r then rest
         else \<lparr>ce_id = de_id e, ce_base = de_base e, ce_end = last, ce_crc32c = de_crc32c e\<rparr> # rest)"
    by (rule adopted_chain_Cons)
  have kept: "\<not> last < mr_trunc r" using l(2) Cons.prems(3,4) by simp
  obtain d ds' where d: "ds = d # ds'" "list_all2 adopts rest ds'" "sd_base d = de_base e" "sd_end d = last"
    by (rule adopts_Cons [OF Cons.prems(2) [unfolded l(4) if_not_P [OF kept]]])
  from Cons.IH [OF l(3) d(2) l(1)] kept d l(2) Cons.prems(3) show ?case by simp
qed simp

lemma adopted_chain_segments:
  assumes "adopted_chain r es = Inr chain" "list_all2 adopts chain ds"
  shows "\<exists>a. segment_chain ds a (mr_tail_base r)
    \<and> (\<forall>i e. mr_trunc r \<le> i \<longrightarrow> i < mr_tail_base r \<longrightarrow> e \<in> set es \<longrightarrow> de_base e \<le> i \<longrightarrow> a \<le> i)"
  using assms
proof (induction es arbitrary: chain ds)
  case (Cons e es)
  from Cons.prems(1) obtain last rest where l: "Suc last = (case es of [] \<Rightarrow> mr_tail_base r | e' # _ \<Rightarrow> de_base e')"
      "de_base e \<le> last" "adopted_chain r es = Inr rest"
      "chain = (if last < mr_trunc r then rest
         else \<lparr>ce_id = de_id e, ce_base = de_base e, ce_end = last, ce_crc32c = de_crc32c e\<rparr> # rest)"
    by (rule adopted_chain_Cons)
  show ?case
  proof (cases "last < mr_trunc r")
    case True
    obtain a where a: "segment_chain ds a (mr_tail_base r)"
        "\<forall>i e. mr_trunc r \<le> i \<longrightarrow> i < mr_tail_base r \<longrightarrow> e \<in> set es \<longrightarrow> de_base e \<le> i \<longrightarrow> a \<le> i"
      using Cons.IH [OF l(3) Cons.prems(2) [unfolded l(4) if_P [OF True]]] by (elim exE conjE)
    have "a \<le> i" if "mr_trunc r \<le> i" "i < mr_tail_base r" for i
    proof (cases es)
      case Nil
      then show ?thesis using l(1) True that by simp
    next
      case (Cons f fs)
      then show ?thesis using a(2) l(1) True that by fastforce
    qed
    with a(1) show ?thesis by blast
  next
    case False
    obtain d ds' where d: "ds = d # ds'" "list_all2 adopts rest ds'" "sd_base d = de_base e" "sd_end d = last"
      by (rule adopts_Cons [OF Cons.prems(2) [unfolded l(4) if_not_P [OF False]]])
    have "segment_chain ds' (Suc last) (mr_tail_base r)"
      using adopted_chain_kept [OF l(3) d(2) l(1)] False by simp
    then have "segment_chain ds (de_base e) (mr_tail_base r)" using d l(2) by simp
    moreover have "de_base e \<le> i" if "e' \<in> set (e # es)" "de_base e' \<le> i" for e' i
      using that adopted_chain_bases [OF Cons.prems(1), of e'] by auto
    ultimately show ?thesis by blast
  qed
qed auto



section \<open>The walk extends the chain\<close>

text \<open>The walk appends descriptors that continue the chain at the old boundary and end at the new one.\<close>

definition extends :: "recovery_walk \<Rightarrow> recovery_walk \<Rightarrow> bool" where
  "extends wk wk' \<longleftrightarrow>
     (\<exists>extra. wk_sealed wk' = wk_sealed wk @ extra \<and> segment_chain extra (wk_next wk) (wk_next wk'))"

lemma extends_refl [simp]: "wk_sealed wk' = wk_sealed wk \<Longrightarrow> wk_next wk' = wk_next wk \<Longrightarrow> extends wk wk'"
  by (simp add: extends_def)

lemma extends_trans: "extends a b \<Longrightarrow> extends b c \<Longrightarrow> extends a c"
  unfolding extends_def by (metis append.assoc segment_chain_append)

lemma extends_le: "extends wk wk' \<Longrightarrow> wk_next wk \<le> wk_next wk'"
  by (auto simp: extends_def dest: segment_chain_le)

lemma fresh_id_fields [simp]:
  "wk_sealed (snd (fresh_id e wk)) = wk_sealed wk" "wk_next (snd (fresh_id e wk)) = wk_next wk"
  "wk_manifest (snd (fresh_id e wk)) = wk_manifest wk" "wk_active (snd (fresh_id e wk)) = wk_active wk"
  "wk_spare (snd (fresh_id e wk)) = wk_spare wk" "wk_pending_fold (snd (fresh_id e wk)) = wk_pending_fold wk"
  "wk_predecessor (snd (fresh_id e wk)) = wk_predecessor wk"
  by (simp_all add: fresh_id_def)

text \<open>The predecessor a non-empty candidate yields.\<close>

definition predecessor_of ::
  "(bytes \<Rightarrow> string) \<Rightarrow> string \<Rightarrow> nat \<Rightarrow> recovered_tail \<Rightarrow> recovered_predecessor \<Rightarrow> bool" where
  "predecessor_of sha i b tail p \<longleftrightarrow>
     rp_id p = i \<and> rp_base p = b \<and> b \<le> rp_end p \<and> b + length (cp_record_ends (rt_canonical tail)) = rp_end p + 1
   \<and> rp_digest p = sha (cp_bytes (rt_canonical tail)) \<and> rp_crc32c p = rt_crc32c tail"

lemma manifest_candidate_Inr:
  "manifest_candidate sha i b c = Inr rc \<Longrightarrow>
     (case c of
        Candidate_Absent \<Rightarrow> rc = RC_Absent
      | Candidate_Empty reusable \<Rightarrow> rc = RC_Empty reusable
      | Candidate_NonEmpty tail \<Rightarrow> \<exists>p. rc = RC_NonEmpty p \<and> predecessor_of sha i b tail p)"
  by (auto simp: manifest_candidate_def and_then_Inr_iff ok_or_Inr_iff checked_sub_def checked_add_def
      predecessor_of_def split: recovery_candidate.splits if_splits)

lemma manifest_candidate_run:
  assumes "run_state (recover_manifest_candidate sv crc sha i b) w = (Inr rc, w')"
  obtains vol c where "volume_for sv = Inr vol" "run_state (recover_candidate (sv_replicas sv i) crc vol None) w = (Inr c, w')"
    "manifest_candidate sha i b c = Inr rc"
  using assms
  by (auto simp: recover_manifest_candidate_def lift_protocol_Inr_iff try_then_Inr_iff split: sum.splits)

lemma candidate_predecessor:
  assumes "run_state (recover_manifest_candidate sv crc sha i b) w = (Inr (RC_NonEmpty p), w')"
  shows "rp_id p = i \<and> rp_base p = b \<and> b \<le> rp_end p"
proof -
  obtain c where "manifest_candidate sha i b c = Inr (RC_NonEmpty p)"
    using manifest_candidate_run [OF assms] by blast
  from manifest_candidate_Inr [OF this] show ?thesis
    by (auto simp: predecessor_of_def split: recovery_candidate.splits)
qed

text \<open>The record a successful compare-and-swap leaves in the handle: the result of the transform, or one the
  transform accepts as it is.\<close>

lemma cas_rounds_record:
  "run_state (cas_rounds k store ex f mf) w = ((Inr v, mf'), w') \<Longrightarrow>
     f (mf_record mf') = Inr (Done v) \<or> (\<exists>r. f r = Inr (Update (mf_record mf') v))"
proof (induction k arbitrary: mf w)
  case (Suc k)
  show ?case
  proof (cases "f (mf_record mf)")
    case (Inr x)
    show ?thesis
    proof (cases x)
      case (Update r' v')
      show ?thesis
        using Suc.prems Inr Update
        by (subst (asm) cas_rounds.simps)
          (auto simp: install_cache_def dest: Suc.IH split: sum.splits prod.splits if_splits)
    qed (use Suc.prems Inr in \<open>auto simp: cas_rounds.simps\<close>)
  qed (use Suc.prems in \<open>auto simp: cas_rounds.simps\<close>)
qed simp

definition at_frontier :: "manifest_record \<Rightarrow> string \<Rightarrow> string \<Rightarrow> nat \<Rightarrow> bool" where
  "at_frontier r a p b \<longleftrightarrow> mr_tail_id r = Some a \<and> mr_pending_id r = Some p \<and> mr_tail_base r = b"

text \<open>The record a transform settles on.\<close>

fun settled :: "manifest_record \<Rightarrow> 'a cas_outcome \<Rightarrow> manifest_record" where
  "settled r (Done v) = r"
| "settled r (Update r' v) = r'"

lemma cas_rounds_settled:
  assumes "run_state (cas_rounds k store ex f mf) w = ((Inr v, mf'), w')"
  obtains r out where "f r = Inr out" "mf_record mf' = settled r out"
  using cas_rounds_record [OF assms] by force

lemma transform_settles:
  "replace_empty_frontier_transform e ow et ep tb a p r = Inr o1 \<Longrightarrow> at_frontier (settled r o1) a p tb"
  "register_pending_transform e ow p r = Inr o2 \<Longrightarrow> mr_pending_id (settled r o2) = Some p"
  "fold_pending_transform e ow m f r = Inr o3 \<Longrightarrow> pf_old_tail_end f < u64_max \<Longrightarrow>
     at_frontier (settled r o3) (pf_successor_tail_id f) (pf_refill_pending_id f) (pf_old_tail_end f + 1)"
  by (auto simp: replace_empty_frontier_transform_def register_pending_transform_def fold_pending_transform_def
      and_then_Inr_iff fold_committed_def saturating_add_def at_frontier_def split: if_splits option.splits)

lemma replace_empty_frontier_record:
  assumes "run_state (replace_empty_frontier store mf et ep tb a p) w = ((Inr u, mf'), w')"
  shows "at_frontier (mf_record mf') a p tb"
proof -
  have "run_state (cas_rounds MAX_CAS_ROUNDS store PE_ManifestUnavailable
      (replace_empty_frontier_transform (mf_epoch mf) (mf_owner mf) et ep tb a p) mf) w = ((Inr u, mf'), w')"
    using assms by (auto simp: replace_empty_frontier_def with_claim_def cas_transform_def split: sum.splits)
  then show ?thesis by (rule cas_rounds_settled) (simp add: transform_settles)
qed

lemma register_pending_record:
  assumes "run_state (register_pending store mf p) w = ((Inr u, mf'), w')"
  shows "mr_pending_id (mf_record mf') = Some p"
proof -
  have "run_state (cas_rounds MAX_CAS_ROUNDS store PE_ManifestUnavailable
      (register_pending_transform (mf_epoch mf) (mf_owner mf) p) mf) w = ((Inr u, mf'), w')"
    using assms by (auto simp: register_pending_def with_claim_def cas_transform_def split: sum.splits)
  then show ?thesis by (rule cas_rounds_settled) (simp add: transform_settles)
qed

lemma fold_pending_record:
  assumes "run_state (fold_pending store mf f) w = ((Inr u, mf'), w')" "pf_old_tail_end f < u64_max"
  shows "at_frontier (mf_record mf') (pf_successor_tail_id f) (pf_refill_pending_id f) (pf_old_tail_end f + 1)"
proof -
  have "run_state (cas_rounds MAX_CAS_ROUNDS store PE_ManifestUnavailable
      (fold_pending_transform (mf_epoch mf) (mf_owner mf) (mf_max_directory_bytes mf) f) mf) w = ((Inr u, mf'), w')"
    using assms(1) by (auto simp: fold_pending_def with_claim_def cas_transform_def split: sum.splits)
  then show ?thesis using transform_settles(3) assms(2) by (metis cas_rounds_settled)
qed

lemmas walk_records = replace_empty_frontier_record register_pending_record fold_pending_record

lemma retire_frontier_walk:
  assumes "run_state (retire_frontier sv adopted tail_id expected wk) w = (Inr wk', w')"
  shows "wk_sealed wk' = wk_sealed wk \<and> wk_next wk' = wk_next wk \<and> wk_pending_fold wk' = wk_pending_fold wk
    \<and> (\<exists>a wa p wp. wk_active wk' = Some (a, Some wa) \<and> wk_spare wk' = Some (p, wp)
       \<and> at_frontier (mf_record (wk_manifest wk')) a p (mr_tail_base adopted))"
  using assms
  by (auto simp: retire_frontier_def fresh_id_def Let_def try_then_Inr_iff mutate_Inr_iff dest: walk_records)

lemma register_fresh_walk:
  assumes "run_state (register_fresh_pending sv adopted wk) w = (Inr (spare, wk'), w')"
  shows "wk_sealed wk' = wk_sealed wk \<and> wk_next wk' = wk_next wk \<and> wk_pending_fold wk' = wk_pending_fold wk
    \<and> wk_active wk' = wk_active wk \<and> mr_pending_id (mf_record (wk_manifest wk')) = Some (fst spare)"
  using assms
  by (auto simp: register_fresh_pending_def fresh_id_def Let_def try_then_Inr_iff mutate_Inr_iff dest: walk_records)

lemma fold_to_fresh_walk:
  assumes "run_state (fold_to_fresh sv adopted p pending_id wk) w = (Inr wk', w')"
  shows "wk_sealed wk' = wk_sealed wk \<and> wk_next wk' = wk_next wk \<and> wk_pending_fold wk' = wk_pending_fold wk
    \<and> (\<exists>a wa q wq. wk_active wk' = Some (a, Some wa) \<and> wk_spare wk' = Some (q, wq)
       \<and> (rp_end p < u64_max \<longrightarrow> at_frontier (mf_record (wk_manifest wk')) a q (rp_end p + 1)))"
  using assms
  by (auto simp: fold_to_fresh_def fresh_id_def Let_def try_then_Inr_iff mutate_Inr_iff fold_of_def
      dest: walk_records)

lemma enforce_predecessor_fields:
  "run_state (enforce_predecessor sv p) w = (Inr p', w') \<Longrightarrow>
     rp_id p' = rp_id p \<and> rp_base p' = rp_base p \<and> rp_end p' = rp_end p \<and> rp_digest p' = rp_digest p
   \<and> rp_crc32c p' = rp_crc32c p"
  by (auto simp: enforce_predecessor_def try_then_Inr_iff split: option.splits sum.splits)

lemma fold_both_walk:
  assumes "run_state (fold_both sv adopted p1 p2 pending_id wk) w = (Inr wk', w')"
  shows "wk_sealed wk' = wk_sealed wk @ [predecessor_descriptor (sv_quorum sv) p2] \<and> wk_next wk' = rp_end p2 + 1
    \<and> wk_pending_fold wk' = wk_pending_fold wk
    \<and> (\<exists>a wa q wq. wk_active wk' = Some (a, Some wa) \<and> wk_spare wk' = Some (q, wq)
       \<and> (rp_end p2 < u64_max \<longrightarrow> at_frontier (mf_record (wk_manifest wk')) a q (rp_end p2 + 1)))"
  using assms unfolding fold_both_def fresh_id_def Let_def prod.case
  by (elim try_thenE)
    (auto simp: mutate_Inr_iff fold_of_def dest!: enforce_predecessor_fields dest: fold_pending_record)


lemma walk_tail_cases:
  assumes "run_state (walk_tail sv crc sha adopted tail_id wk) w = (Inr wk', w')"
  obtains (bootstrap) "tail_id = segment_id (mr_epoch adopted) 0" "mr_pending_id adopted = None"
      "wk' = wk\<lparr>wk_active := Some (tail_id, None)\<rparr>"
  | (reused) wr where "wk' = wk\<lparr>wk_active := Some (tail_id, Some wr)\<rparr>"
      "run_state (recover_manifest_candidate sv crc sha tail_id (wk_next wk)) w = (Inr (RC_Empty (Some wr)), w')"
  | (retired) w1 c where "run_state (recover_manifest_candidate sv crc sha tail_id (wk_next wk)) w = (Inr c, w1)"
      "\<And>p. c \<noteq> RC_NonEmpty p"
      "run_state (retire_frontier sv adopted tail_id (mr_pending_id adopted) wk) w1 = (Inr wk', w')"
  | (records) p where "run_state (recover_manifest_candidate sv crc sha tail_id (wk_next wk)) w = (Inr (RC_NonEmpty p), w')"
      "wk' = wk\<lparr>wk_next := rp_end p + 1, wk_sealed := wk_sealed wk @ [predecessor_descriptor (sv_quorum sv) p],
         wk_predecessor := Some p\<rparr>"
proof (cases "tail_id = segment_id (mr_epoch adopted) 0 \<and> mr_pending_id adopted = None")
  case True
  with assms bootstrap show thesis by (auto simp: walk_tail_def)
next
  case False
  obtain c w1 where c: "run_state (recover_manifest_candidate sv crc sha tail_id (wk_next wk)) w = (Inr c, w1)"
      "run_state (case c of
          RC_Empty (Some writer) \<Rightarrow> succeed (wk\<lparr>wk_active := Some (tail_id, Some writer)\<rparr>)
        | RC_Empty None \<Rightarrow> retire_frontier sv adopted tail_id (mr_pending_id adopted) wk
        | RC_NonEmpty p \<Rightarrow>
            succeed (wk\<lparr>wk_next := rp_end p + 1,
              wk_sealed := wk_sealed wk @ [predecessor_descriptor (sv_quorum sv) p],
              wk_predecessor := Some p\<rparr>)
        | RC_Absent \<Rightarrow> retire_frontier sv adopted tail_id (mr_pending_id adopted) wk) w1 = (Inr wk', w')"
    using assms [unfolded walk_tail_def if_not_P [OF False]] by (rule try_thenE)
  show thesis
  proof (cases c)
    case RC_Absent
    with c retired [OF c(1)] show thesis by simp
  next
    case (RC_Empty reusable)
    with c retired [OF c(1)] reused show thesis by (cases reusable) auto
  next
    case (RC_NonEmpty p)
    with c records show thesis by auto
  qed
qed

text \<open>The frontier of a finished walk and the register.\<close>

definition frontier_ok :: "manifest_record \<Rightarrow> recovery_walk \<Rightarrow> bool" where
  "frontier_ok adopted wk \<longleftrightarrow>
     (case wk_pending_fold wk of
        Some f \<Rightarrow>
          (\<exists>wr. wk_active wk = Some (ps_successor_id f, Some wr))
        \<and> mr_pending_id (mf_record (wk_manifest wk)) = Some (ps_successor_id f)
        \<and> mr_tail_id adopted = Some (ps_id f) \<and> ps_base f = mr_tail_base adopted \<and> ps_end f + 1 = wk_next wk
      | None \<Rightarrow>
          (\<exists>a wr. wk_active wk = Some (a, wr)
           \<and> ((\<exists>p wp. wk_spare wk = Some (p, wp) \<and> at_frontier (mf_record (wk_manifest wk)) a p (wk_next wk))
            \<or> (mr_tail_id adopted = Some a \<and> mr_tail_base adopted = wk_next wk \<and> mr_pending_id adopted = None
             \<and> (case wk_spare wk of
                  Some (p, _) \<Rightarrow> mr_pending_id (mf_record (wk_manifest wk)) = Some p
                | None \<Rightarrow> wr = None \<and> mf_record (wk_manifest wk) = adopted)))))"

lemma walk_spare_result:
  assumes "run_state (walk_spare sv crc sha adopted tail_id wk) w = (Inr wk', w')"
    and "wk_active wk = Some (tail_id, Some wr)" "wk_pending_fold wk = None"
    and "mf_record (wk_manifest wk) = adopted" "mr_tail_id adopted = Some tail_id" "mr_tail_base adopted = wk_next wk"
  shows "extends wk wk' \<and> frontier_ok adopted wk'"
proof (cases "mr_pending_id adopted")
  case None
  then obtain spare wk1 where sp: "run_state (register_fresh_pending sv adopted wk) w = (Inr (spare, wk1), w')"
      "wk' = wk1\<lparr>wk_spare := Some spare\<rparr>"
    using assms(1) by (auto simp: walk_spare_def try_then_Inr_iff)
  from register_fresh_walk [OF sp(1)] sp(2) assms(2-) None show ?thesis
    by (cases spare) (simp add: frontier_ok_def)
next
  case (Some pending_id)
  obtain c w1 where c: "run_state (recover_manifest_candidate sv crc sha pending_id (wk_next wk)) w = (Inr c, w1)"
      "run_state (case c of
              RC_Empty (Some writer) \<Rightarrow> succeed (wk\<lparr>wk_spare := Some (pending_id, writer)\<rparr>)
            | RC_Empty None \<Rightarrow> retire_frontier sv adopted tail_id (Some pending_id) wk
            | RC_Absent \<Rightarrow> retire_frontier sv adopted tail_id (Some pending_id) wk
            | RC_NonEmpty _ \<Rightarrow>
                fail_with (Err_InvalidCatalog ''pending segment is non-empty after an empty tail frontier'')) w1 = (Inr wk', w')"
    using assms(1) [unfolded walk_spare_def Some option.case] by (rule try_thenE)
  have retired: "?thesis" if "run_state (retire_frontier sv adopted tail_id (Some pending_id) wk) w1 = (Inr wk', w')"
    using retire_frontier_walk [OF that] assms(3,6) by (auto simp: frontier_ok_def)
  show ?thesis
  proof (cases c)
    case (RC_Empty reusable)
    then show ?thesis using c(2) retired assms(2-) Some
      by (cases reusable) (auto simp: frontier_ok_def at_frontier_def)
  qed (use c(2) retired in auto)
qed


lemma walk_pending_result:
  assumes "run_state (walk_pending sv crc sha adopted p wk) w = (Inr wk', w')"
    and "wk_pending_fold wk = None" "mf_record (wk_manifest wk) = adopted"
    and "mr_tail_id adopted = Some (rp_id p)" "rp_base p = mr_tail_base adopted" "wk_next wk = rp_end p + 1"
  shows "extends wk wk' \<and> (wk_next wk' \<le> u64_max \<longrightarrow> frontier_ok adopted wk')"
proof (cases "mr_pending_id adopted")
  case None
  obtain pending_id writer wk1 w1 p' where
      sp: "run_state (register_fresh_pending sv adopted wk) w = (Inr ((pending_id, writer), wk1), w1)"
        "run_state (enforce_predecessor sv p) w1 = (Inr p', w')"
        "wk' = wk1\<lparr>wk_pending_fold := Some (into_pending_fold p' pending_id), wk_active := Some (pending_id, Some writer)\<rparr>"
    using assms(1) None by (auto simp: walk_pending_def try_then_Inr_iff)
  from register_fresh_walk [OF sp(1)] enforce_predecessor_fields [OF sp(2)] sp(3) assms(2-) show ?thesis
    by (simp add: frontier_ok_def into_pending_fold_def)
next
  case (Some pending_id)
  obtain c w1 where c: "run_state (recover_manifest_candidate sv crc sha pending_id (wk_next wk)) w = (Inr c, w1)"
      "run_state (case c of
              RC_Empty (Some writer) \<Rightarrow>
                try_then (enforce_predecessor sv p) (\<lambda>p.
                succeed (wk\<lparr>wk_pending_fold := Some (into_pending_fold p pending_id),
                  wk_active := Some (pending_id, Some writer)\<rparr>))
            | RC_Empty None \<Rightarrow>
                try_then (enforce_predecessor sv p) (\<lambda>p. fold_to_fresh sv adopted p pending_id wk)
            | RC_NonEmpty p2 \<Rightarrow>
                if rp_had_proven_gap p
                then try_then (fold_to_fresh sv adopted p pending_id wk) (\<lambda>wk.
                     try_then (enforce_predecessor sv p) (\<lambda>_. succeed wk))
                else fold_both sv adopted p p2 pending_id wk
            | RC_Absent \<Rightarrow> fail_with (Err_InvalidCatalog ''manifest pending segment is absent on a quorum'')) w1 = (Inr wk', w')"
    using assms(1) [unfolded walk_pending_def Some option.case] by (rule try_thenE)
  have folded: ?thesis if "run_state (fold_to_fresh sv adopted p' pending_id wk) w2 = (Inr wk', w3)" "rp_end p' = rp_end p" for p' w2 w3
    using fold_to_fresh_walk [OF that(1)] that(2) assms(2,6) by (auto simp: frontier_ok_def)
  show ?thesis
  proof (cases c)
    case RC_Absent
    with c(2) show ?thesis by simp
  next
    case (RC_Empty reusable)
    show ?thesis
    proof (cases reusable)
      case None
      with RC_Empty c(2) obtain p' w2 where p': "run_state (enforce_predecessor sv p) w1 = (Inr p', w2)"
          "run_state (fold_to_fresh sv adopted p' pending_id wk) w2 = (Inr wk', w')"
        by (auto simp: try_then_Inr_iff)
      have "rp_end p' = rp_end p" using enforce_predecessor_fields [OF p'(1)] by simp
      then show ?thesis by (rule folded [OF p'(2)])
    next
      case (Some writer)
      with RC_Empty c(2) obtain p' where p': "run_state (enforce_predecessor sv p) w1 = (Inr p', w')"
          "wk' = wk\<lparr>wk_pending_fold := Some (into_pending_fold p' pending_id), wk_active := Some (pending_id, Some writer)\<rparr>"
        by (auto simp: try_then_Inr_iff)
      show ?thesis using enforce_predecessor_fields [OF p'(1)] p'(2) assms(2-) \<open>mr_pending_id adopted = Some pending_id\<close>
        by (simp add: frontier_ok_def into_pending_fold_def)
    qed
  next
    case (RC_NonEmpty p2)
    show ?thesis
    proof (cases "rp_had_proven_gap p")
      case True
      with RC_NonEmpty c(2) obtain w2 where "run_state (fold_to_fresh sv adopted p pending_id wk) w1 = (Inr wk', w2)"
        by (auto simp: try_then_Inr_iff)
      then show ?thesis by (rule folded) simp
    next
      case False
      with RC_NonEmpty c(2) have "run_state (fold_both sv adopted p p2 pending_id wk) w1 = (Inr wk', w')" by simp
      from fold_both_walk [OF this] candidate_predecessor [OF c(1) [unfolded RC_NonEmpty]] assms(2) show ?thesis
        by (auto simp: frontier_ok_def extends_def predecessor_descriptor_def)
    qed
  qed
qed

lemma walk_frontier_result:
  assumes "run_state (walk_frontier sv crc sha adopted tail_id wk) w = (Inr wk', w')"
    and wk: "wk_pending_fold wk = None" "wk_active wk = None" "wk_spare wk = None" "wk_predecessor wk = None"
      "mf_record (wk_manifest wk) = adopted" "mr_tail_id adopted = Some tail_id" "mr_tail_base adopted = wk_next wk"
  shows "extends wk wk' \<and> (wk_next wk' \<le> u64_max \<longrightarrow> frontier_ok adopted wk')"
proof -
  obtain wk1 w1 where one: "run_state (walk_tail sv crc sha adopted tail_id wk) w = (Inr wk1, w1)"
      "run_state (case (wk_active wk1, wk_predecessor wk1) of
         (Some (_, writer), _) \<Rightarrow>
           if wk_spare wk1 = None \<and> writer \<noteq> None then walk_spare sv crc sha adopted tail_id wk1 else succeed wk1
       | (None, Some p) \<Rightarrow> walk_pending sv crc sha adopted p wk1
       | (None, None) \<Rightarrow> fail_with (Err_Internal ''non-empty tail produced one predecessor'')) w1 = (Inr wk', w')"
    using assms(1) [unfolded walk_frontier_def] by (rule try_thenE)
  from one(1) show ?thesis
  proof (cases rule: walk_tail_cases)
    case bootstrap
    then show ?thesis using one(2) wk by (auto simp: frontier_ok_def)
  next
    case (reused wr)
    have spare: "run_state (walk_spare sv crc sha adopted tail_id wk1) w1 = (Inr wk', w')"
      using one(2) reused(1) wk by simp
    have "extends wk1 wk' \<and> frontier_ok adopted wk'"
      by (rule walk_spare_result [OF spare]) (use reused(1) wk in auto)
    moreover have "extends wk wk1" using reused(1) by simp
    ultimately show ?thesis using extends_trans by blast
  next
    case (retired w2 c)
    note rt = retire_frontier_walk [OF retired(3)]
    then have "wk' = wk1" using one(2) by auto
    then show ?thesis using rt wk by (auto simp: frontier_ok_def)
  next
    case (records p)
    note p = candidate_predecessor [OF records(1)]
    have pend: "run_state (walk_pending sv crc sha adopted p wk1) w1 = (Inr wk', w')"
      using one(2) records(2) wk by simp
    have "extends wk1 wk' \<and> (wk_next wk' \<le> u64_max \<longrightarrow> frontier_ok adopted wk')"
      by (rule walk_pending_result [OF pend]) (use records(2) wk p in auto)
    moreover have "extends wk wk1"
      using records(2) p by (auto simp: extends_def predecessor_descriptor_def)
    ultimately show ?thesis using extends_trans by blast
  qed
qed

text \<open>The pieces of a successful preparation.\<close>

lemma prepare_recovery_run:
  assumes "run_state (prepare_recovery sv crc sha checkpoint mf) w = (Inr (st, mf'), w')"
  obtains chain sealed w1 tail_id wk where
    "plan_recovery (get_seq checkpoint) (mf_record mf) = Inr chain"
    "run_state (adopt_chain sv crc sha (mf_record mf) chain) w = (Inr sealed, w1)"
    "mr_tail_id (mf_record mf) = Some tail_id"
    "run_state (walk_frontier sv crc sha (mf_record mf) tail_id (start_walk mf tail_id sealed)) w1 = (Inr wk, w')"
    "finish_recovery checkpoint (mf_record mf) wk = Inr (st, mf')"
  using assms
  by (auto simp: prepare_recovery_def try_then_Inr_iff split: sum.splits option.splits)

lemma finish_recovery_Inr:
  "finish_recovery checkpoint r wk = Inr (st, mf') \<Longrightarrow>
     wk_active wk = Some (rw_active_id st, rw_active_writer st) \<and> get_seq checkpoint \<le> wk_next wk
   \<and> rw_sealed_segments st = wk_sealed wk \<and> rw_base st = wk_next wk \<and> rw_spare st = wk_spare wk
   \<and> rw_pending_fold st = wk_pending_fold wk \<and> mf' = wk_manifest wk \<and> rw_dead_segment_sweep st = sweep_authority r"
  by (auto simp: finish_recovery_def split: option.splits if_splits)

lemma start_walk_fields [simp]:
  "wk_pending_fold (start_walk mf t ds) = None" "wk_active (start_walk mf t ds) = None"
  "wk_spare (start_walk mf t ds) = None" "wk_predecessor (start_walk mf t ds) = None"
  "wk_manifest (start_walk mf t ds) = mf" "wk_sealed (start_walk mf t ds) = ds"
  "wk_next (start_walk mf t ds) = mr_tail_base (mf_record mf)"
  by (simp_all add: start_walk_def)

lemma plan_recovery_Inr:
  assumes "plan_recovery n r = Inr chain"
  shows "mr_trunc r \<le> n \<and> adopted_chain r (mr_segments r) = Inr chain"
proof (cases "adopted_chain r (mr_segments r)")
  case (Inr c)
  then show ?thesis using assms by (cases c) (auto simp: plan_recovery_def split: if_splits)
qed (use assms in \<open>auto simp: plan_recovery_def split: if_splits\<close>)

text \<open>The chain of a successful preparation, from a position the checkpoint has reached.\<close>

lemma prepare_recovery_chain:
  assumes "run_state (prepare_recovery sv crc sha checkpoint mf) w = (Inr (st, mf'), w')" "history_covered (mf_record mf)"
  shows "get_seq checkpoint \<le> rw_base st
    \<and> (\<exists>a \<le> get_seq checkpoint. segment_chain (rw_sealed_segments st) a (rw_base st))"
proof -
  let ?r = "mf_record mf" and ?n = "get_seq checkpoint"
  from assms(1) obtain chain sealed w1 tail_id wk where run:
    "plan_recovery ?n ?r = Inr chain" "run_state (adopt_chain sv crc sha ?r chain) w = (Inr sealed, w1)"
    "mr_tail_id ?r = Some tail_id"
    "run_state (walk_frontier sv crc sha ?r tail_id (start_walk mf tail_id sealed)) w1 = (Inr wk, w')"
    "finish_recovery checkpoint ?r wk = Inr (st, mf')" by (rule prepare_recovery_run)
  note fin = finish_recovery_Inr [OF run(5)]
  have plan: "mr_trunc ?r \<le> ?n" "adopted_chain ?r (mr_segments ?r) = Inr chain"
    using plan_recovery_Inr [OF run(1)] by simp_all
  obtain a where a: "segment_chain sealed a (mr_tail_base ?r)"
      "\<forall>i e. mr_trunc ?r \<le> i \<longrightarrow> i < mr_tail_base ?r \<longrightarrow> e \<in> set (mr_segments ?r) \<longrightarrow> de_base e \<le> i \<longrightarrow> a \<le> i"
    using adopted_chain_segments [OF plan(2) adopt_chain_adopts [OF run(2)]] by blast
  have "extends (start_walk mf tail_id sealed) wk"
    using walk_frontier_result [OF run(4)] run(3) by simp
  then obtain extra where extra: "wk_sealed wk = sealed @ extra" "segment_chain extra (mr_tail_base ?r) (wk_next wk)"
    by (auto simp: extends_def)
  have chain: "segment_chain (wk_sealed wk) a (wk_next wk)"
    using extra a(1) by (auto simp: segment_chain_append)
  have cover: "a \<le> ?n \<or> mr_tail_base ?r \<le> ?n"
  proof (cases "?n < mr_tail_base ?r")
    case True
    then obtain e where "e \<in> set (mr_segments ?r)" "de_base e \<le> ?n"
      using assms(2) plan(1) unfolding history_covered_def segment_of_None by (meson leD not_le)
    then show ?thesis using a(2) plan(1) True by blast
  qed simp
  then have "a \<le> ?n" using segment_chain_le [OF a(1)] by auto
  then show ?thesis using chain fin by auto
qed

end
