(* ===== verification/Local_Volume.thy ===== *)
theory Local_Volume
  imports Startup
begin

text \<open>
  Startup recovery keeps what was committed: the contract of the storage behind
  a segmented volume, the single-directory deployment of
  \<open>SegmentedVolume::new_local\<close> that satisfies it, and the properties of a
  successful recovery.
\<close>

section \<open>Operations that leave a property of the world alone\<close>

definition leaves :: "('w \<Rightarrow> bool) \<Rightarrow> 'w replica_ops \<Rightarrow> bool" where
  "leaves P ops \<longleftrightarrow>
     (\<forall>z. keeps P (op_snapshot ops z)) \<and> (\<forall>z off. keeps P (op_read_range ops z off)) \<and> (\<forall>z. keeps P (op_stat ops z))
   \<and> (\<forall>z m. keeps P (op_create_append_session ops z m)) \<and> (\<forall>z t. keeps P (op_resume_tail ops z t))
   \<and> (\<forall>z s. keeps P (op_takeover ops z s)) \<and> (\<forall>z s d m. keeps P (op_replace_appendable ops z s d m))
   \<and> (\<forall>z off ms. keeps P (op_lane_send ops z off ms)) \<and> (\<forall>z g. keeps P (op_delete ops z g))
   \<and> (\<forall>z t off. keeps P (op_finalize ops z t off))"

lemma leaves_op [simp]:
  assumes "leaves P ops"
  shows "keeps P (op_snapshot ops z)" "keeps P (op_stat ops z)" "keeps P (op_takeover ops z s)"
    "keeps P (op_replace_appendable ops z so d m)" "keeps P (op_finalize ops z t off)"
    "keeps P (op_create_append_session ops z m)" "keeps P (op_delete ops z g)"
  using assms by (simp_all add: leaves_def)

lemma leaves_retry [simp]:
  assumes "leaves P ops"
  shows "keeps P (snapshot_with_retry ops cfg z)" "keeps P (stat_with_retry ops cfg z)"
    "keeps P (observe_with_retry ops cfg z)" "keeps P (takeover_current ops z)"
  using leaves_op [OF assms]
  by (auto simp: snapshot_with_retry_def stat_with_retry_def observe_with_retry_def takeover_current_def)

lemma leaves_finalize_with_retry [simp]:
  "leaves P ops \<Longrightarrow> keeps P (finalize_with_retry ops cfg z k t off)"
proof (induction k arbitrary: t)
  case 0
  then show ?case by (subst finalize_with_retry.simps) (auto simp: Let_def)
next
  case (Suc k)
  then show ?case by (subst finalize_with_retry.simps) (auto simp: Let_def)
qed

lemma leaves_replace_with_retry [simp]:
  "leaves P ops \<Longrightarrow> keeps P (replace_with_retry ops cfg z k s d m)"
proof (induction k arbitrary: s)
  case 0
  then show ?case by (subst replace_with_retry.simps) (auto simp: Let_def)
next
  case (Suc k)
  then show ?case by (subst replace_with_retry.simps) (auto simp: Let_def)
qed

lemma leaves_create_session [simp]: "leaves P ops \<Longrightarrow> keeps P (create_session_with_retry ops cfg m z)"
  by (auto simp: create_session_with_retry_def)

lemma leaves_create_writer [simp]: "leaves P ops \<Longrightarrow> keeps P (create_writer ops vol)"
  by (auto simp: create_writer_def Let_def)

lemma leaves_observe_zone [simp]: "leaves P ops \<Longrightarrow> keeps P (observe_zone ops vol z)"
  by (auto simp: observe_zone_def)

lemma leaves_recover_empty [simp]: "leaves P ops \<Longrightarrow> keeps P (recover_empty ops vol obs)"
  unfolding recover_empty_def Let_def by (intro keeps_bind keeps_return keeps_cases keeps_join_all) simp_all

lemma leaves_recover_nonempty [simp]: "leaves P ops \<Longrightarrow> keeps P (recover_nonempty ops crc vol k c m obs)"
  unfolding recover_nonempty_def Let_def by (intro keeps_bind keeps_return keeps_cases keeps_join_all) simp_all

lemma leaves_recover_candidate [simp]: "leaves P ops \<Longrightarrow> keeps P (recover_candidate ops crc vol k)"
  unfolding recover_candidate_def Let_def by (intro keeps_bind keeps_return keeps_cases keeps_join_all) simp_all

lemma leaves_recover_for_seal [simp]: "leaves P ops \<Longrightarrow> keeps P (recover_for_seal ops crc vol k)"
  unfolding recover_for_seal_def by (intro keeps_bind keeps_return) simp

lemma leaves_enforce_witness [simp]: "leaves P ops \<Longrightarrow> keeps P (enforce_witness k ops vol z observed data)"
proof (induction k arbitrary: observed)
  case (Suc k)
  show ?case
    unfolding enforce_witness.simps(2) Let_def
    by (intro keeps_bind keeps_return keeps_cases keeps_with_retry) (use Suc in simp_all)
qed auto

lemma leaves_observe_seal [simp]: "leaves P ops \<Longrightarrow> keeps P (observe_seal ops vol tail z)"
  unfolding observe_seal_def Let_def by (intro keeps_bind keeps_return keeps_cases) simp_all

lemma leaves_plan_seal [simp]: "leaves P ops \<Longrightarrow> keeps P (plan_seal ops vol obs p)"
  by (induction ops vol obs p rule: plan_seal.induct) auto

lemma leaves_enforce_witnesses [simp]: "leaves P ops \<Longrightarrow> keeps P (enforce_witnesses ops vol data zs sealed)"
  by (induction ops vol data zs sealed rule: enforce_witnesses.induct) auto

lemma leaves_enforce_seal [simp]: "leaves P ops \<Longrightarrow> keeps P (enforce_seal ops vol tail)"
  unfolding enforce_seal_def Let_def by (intro keeps_bind keeps_return keeps_cases keeps_join_all) simp_all


section \<open>Adopting the chain\<close>

lemma leaves_recover_and_seal [simp]:
  assumes "leaves P (sv_replicas sv i)"
  shows "keeps P (recover_and_seal_segment sv crc sha i b e k dg c)"
proof -
  have "keeps P (finalized_segment_descriptor sv crc sha i b k dg c)"
    unfolding finalized_segment_descriptor_def Let_def
    by (intro keeps_bind keeps_return keeps_cases keeps_join_all) (use assms in simp_all)
  moreover have "keeps P (enforce_committed_seal sv crc sha i b e dg c)"
    unfolding enforce_committed_seal_def Let_def
    by (intro keeps_try_then keeps_fail_with keeps_succeed keeps_lift_protocol keeps_cases) (use assms in simp_all)
  ultimately show ?thesis
    unfolding recover_and_seal_segment_def by (intro keeps_try_then keeps_cases keeps_fail_with keeps_succeed) simp_all
qed

lemma adopt_chain_keeps:
  "(\<And>e. e \<in> set chain \<Longrightarrow> leaves P (sv_replicas sv (ce_id e))) \<Longrightarrow> keeps P (adopt_chain sv crc sha r chain)"
proof (induction chain)
  case (Cons e chain)
  then show ?case
    unfolding adopt_chain.simps
    by (intro keeps_try_then keeps_cases keeps_succeed) simp_all
qed (simp add: keeps_succeed)

lemma adopted_chain_ids: "adopted_chain r es = Inr chain \<Longrightarrow> ce_id ` set chain \<subseteq> de_id ` set es"
proof (induction es arbitrary: chain)
  case (Cons e es)
  then obtain last rest where "adopted_chain r es = Inr rest"
    "chain = (if last < mr_trunc r then rest
       else \<lparr>ce_id = de_id e, ce_base = de_base e, ce_end = last, ce_crc32c = de_crc32c e\<rparr> # rest)"
    by (meson adopted_chain_Cons)
  then show ?case using Cons.IH by (auto split: if_splits)
qed simp


section \<open>Contract of the storage\<close>

text \<open>
  What startup relies on beyond the contract for a single object: operations on
  one object do not take committed bytes away from another.
\<close>

locale committed_storage =
  committed_replicas "sv_replicas sv t" "fa_count (sv_factories sv)" c holds
  for sv :: "'w segmented_volume" and t c holds +
  assumes others: "i \<noteq> t \<Longrightarrow> leaves (\<lambda>w. holds w y) (sv_replicas sv i)"
begin

lemma tail_recovered:
  assumes run: "run_state (recover_manifest_candidate sv crc sha t b) w = (Inr rc, w')"
    and cs: "encode_all cs = Inr c" "cs \<noteq> []"
    and quorum: "majority (fa_count (sv_factories sv)) \<le> card {z. z < fa_count (sv_factories sv) \<and> holds w z}"
  obtains p fs data where "rc = RC_NonEmpty p" "prefix cs fs" "rp_id p = t" "rp_base p = b"
    "rp_end p + 1 = b + length fs" "encode_all fs = Inr data" "rp_crc32c p = crc data"
proof -
  obtain vol cand where cand: "volume_for sv = Inr vol"
      "run_state (recover_candidate (sv_replicas sv t) crc vol None) w = (Inr cand, w')"
      "manifest_candidate sha t b cand = Inr rc"
    using run by (rule manifest_candidate_run)
  have n: "qv_replicas vol = fa_count (sv_factories sv)" "0 < fa_count (sv_factories sv)"
    using cand(1) by (auto simp: volume_for_def with_metadata_def SUPPORTED_REPLICA_COUNTS_def split: if_splits)
  obtain tail fs where tail: "cand = Candidate_NonEmpty tail" "canonical_records (rt_canonical tail) fs" "prefix cs fs"
      "rt_crc32c tail = crc (cp_bytes (rt_canonical tail))"
    using recover_candidate_keeps [OF n cs _ quorum cand(2)] by auto
  obtain p where p: "rc = RC_NonEmpty p" "predecessor_of sha t b tail p"
    using manifest_candidate_Inr [OF cand(3)] tail(1) by auto
  show thesis
    by (rule that [OF p(1) tail(3)])
      (use p(2) tail(2,4) in \<open>auto simp: predecessor_of_def canonical_records_def\<close>)
qed

lemma startup_keeps_tail:
  assumes run: "run_state (prepare_recovery sv crc sha checkpoint mf) w = (Inr (st, mf'), w')"
    and mf: "valid_record (mf_record mf)" "mr_tail_id (mf_record mf) = Some t"
      "t \<noteq> segment_id (mr_epoch (mf_record mf)) 0 \<or> mr_pending_id (mf_record mf) \<noteq> None"
    and cs: "encode_all cs = Inr c" "cs \<noteq> []"
    and quorum: "majority (fa_count (sv_factories sv)) \<le> card {z. z < fa_count (sv_factories sv) \<and> holds w z}"
  shows "\<exists>seg \<in> set (rw_sealed_segments st). \<exists>fs data. sd_id seg = t \<and> sd_base seg = mr_tail_base (mf_record mf)
    \<and> prefix cs fs \<and> sd_end seg + 1 = sd_base seg + length fs \<and> encode_all fs = Inr data \<and> sd_crc32c seg = crc data
    \<and> sd_end seg < rw_base st"
proof -
  let ?r = "mf_record mf" and ?n = "fa_count (sv_factories sv)"
  from run obtain chain sealed w1 wk where parts:
    "plan_recovery (get_seq checkpoint) ?r = Inr chain" "run_state (adopt_chain sv crc sha ?r chain) w = (Inr sealed, w1)"
    "run_state (walk_frontier sv crc sha ?r t (start_walk mf t sealed)) w1 = (Inr wk, w')"
    "finish_recovery checkpoint ?r wk = Inr (st, mf')"
    using mf(2) by (auto elim: prepare_recovery_run)
  have "t \<notin> ce_id ` set chain"
    using adopted_chain_ids [of ?r "mr_segments ?r" chain] plan_recovery_Inr [OF parts(1)] mf(1,2)
    by (auto simp: valid_record_def)
  then have keep: "keeps (\<lambda>w. holds w y) (adopt_chain sv crc sha ?r chain)" for y
    by (intro adopt_chain_keeps others) auto
  have "{z. z < ?n \<and> holds w z} \<subseteq> {z. z < ?n \<and> holds w1 z}"
    using keepsD [OF keep parts(2)] by blast
  from card_mono [OF _ this] have quorum1: "majority ?n \<le> card {z. z < ?n \<and> holds w1 z}" using quorum by simp
  from parts(3) obtain wk1 w2 where tail: "run_state (walk_tail sv crc sha ?r t (start_walk mf t sealed)) w1 = (Inr wk1, w2)"
      "run_state (case (wk_active wk1, wk_predecessor wk1) of
         (Some (_, writer), _) \<Rightarrow>
           if wk_spare wk1 = None \<and> writer \<noteq> None then walk_spare sv crc sha ?r t wk1 else succeed wk1
       | (None, Some p) \<Rightarrow> walk_pending sv crc sha ?r p wk1
       | (None, None) \<Rightarrow> fail_with (Err_Internal ''non-empty tail produced one predecessor'')) w2 = (Inr wk, w')"
    unfolding walk_frontier_def by (rule try_thenE)
  from tail(1) show ?thesis
  proof (cases rule: walk_tail_cases)
    case bootstrap
    then show ?thesis using mf(3) by simp
  next
    case (reused wr)
    from reused(2) cs quorum1 show ?thesis by (rule tail_recovered) simp
  next
    case (retired w3 rc)
    from retired(1) cs quorum1 show ?thesis by (rule tail_recovered) (use retired(2) in blast)
  next
    case (records p)
    from records(1) cs quorum1 obtain fs data where fs: "prefix cs fs" "rp_id p = t" "rp_base p = mr_tail_base ?r"
        "rp_end p + 1 = mr_tail_base ?r + length fs" "encode_all fs = Inr data" "rp_crc32c p = crc data"
      by (rule tail_recovered) simp
    have "run_state (walk_pending sv crc sha ?r p wk1) w2 = (Inr wk, w')" using tail(2) records(2) by simp
    from walk_pending_result [OF this] have "extends wk1 wk" using records(2) fs(2,3) mf(2) by auto
    then have "predecessor_descriptor (sv_quorum sv) p \<in> set (wk_sealed wk)" "rp_end p < wk_next wk"
      using records(2) extends_le [of wk1 wk] by (auto simp: extends_def)
    then show ?thesis using fs finish_recovery_Inr [OF parts(4)]
      by (intro bexI [of _ "predecessor_descriptor (sv_quorum sv) p"] exI [of _ fs] exI [of _ data])
        (auto simp: predecessor_descriptor_def)
  qed
qed

end


section \<open>The local deployment\<close>

text \<open>Operations on one half of a world.\<close>

definition on_fst :: "('a, 'r) state \<Rightarrow> ('a \<times> 'b, 'r) state" where
  "on_fst m = State (\<lambda>(a, b). case run_state m a of (r, a') \<Rightarrow> (r, (a', b)))"

definition on_snd :: "('b, 'r) state \<Rightarrow> ('a \<times> 'b, 'r) state" where
  "on_snd m = State (\<lambda>(a, b). case run_state m b of (r, b') \<Rightarrow> (r, (a, b')))"

definition ops_on_fst :: "'a replica_ops \<Rightarrow> ('a \<times> 'b) replica_ops" where
  "ops_on_fst ops =
     \<lparr>op_snapshot = (\<lambda>z. on_fst (op_snapshot ops z)),
      op_read_range = (\<lambda>z off. on_fst (op_read_range ops z off)),
      op_stat = (\<lambda>z. on_fst (op_stat ops z)),
      op_create_append_session = (\<lambda>z m. on_fst (op_create_append_session ops z m)),
      op_resume_tail = (\<lambda>z t. on_fst (op_resume_tail ops z t)),
      op_takeover = (\<lambda>z s. on_fst (op_takeover ops z s)),
      op_replace_appendable = (\<lambda>z o1 d m. on_fst (op_replace_appendable ops z o1 d m)),
      op_lane_send = (\<lambda>z off ms. on_fst (op_lane_send ops z off ms)),
      op_delete = (\<lambda>z g. on_fst (op_delete ops z g)),
      op_finalize = (\<lambda>z t off. on_fst (op_finalize ops z t off))\<rparr>"

text \<open>\<open>new_local\<close>: the files of a directory and the register file beside them.\<close>

type_synonym local_deployment = "local_world \<times> stored_manifest option"

definition deployed_factories :: "local_world factories \<Rightarrow> local_deployment factories" where
  "deployed_factories fac = \<lparr>fa_count = fa_count fac, fa_replicas = (\<lambda>obj. ops_on_fst (fa_replicas fac obj)),
     fa_list = (\<lambda>z pre. on_fst (fa_list fac z pre))\<rparr>"

definition deployed_store :: "stored_manifest option manifest_store \<Rightarrow> local_deployment manifest_store" where
  "deployed_store store = \<lparr>ms_max_directory_bytes = ms_max_directory_bytes store, ms_read = on_snd (ms_read store),
     ms_create = (\<lambda>data. on_snd (ms_create store data)), ms_update = (\<lambda>v data. on_snd (ms_update store v data))\<rparr>"

definition trim_slashes :: "string \<Rightarrow> string" where
  "trim_slashes s = rev (dropWhile (\<lambda>c. c = CHR ''/'') (rev s))"

definition new_local ::
  "(bytes \<Rightarrow> nat) \<Rightarrow> string list \<Rightarrow> (string \<Rightarrow> nat option) \<Rightarrow> string \<Rightarrow> client_config
     \<Rightarrow> error + local_deployment segmented_volume" where
  "new_local crc names modified pre cfg =
     build_volume (deployed_factories (local_factories crc names modified)) (deployed_store local_manifest_store)
       [LOCAL_BUCKET] (trim_slashes pre) cfg"

lemma run_on_fst: "run_state (on_fst m) w = (r, w') \<longleftrightarrow> run_state m (fst w) = (r, fst w') \<and> snd w' = snd w"
  by (cases w; cases w') (auto simp: on_fst_def split: prod.splits)

lemma snd_on_fst: "snd (run_state (on_fst m) w) = (snd (run_state m (fst w)), snd w)"
  by (cases w) (simp add: on_fst_def split: prod.splits)

lemma keeps_on_fst: "keeps P m \<Longrightarrow> keeps (\<lambda>w. P (fst w)) (on_fst m)"
  by (simp add: keeps_def snd_on_fst)

lemma committed_on_fst:
  assumes "committed_replicas ops n c holds"
  shows "committed_replicas (ops_on_fst ops) n c (\<lambda>w. holds (fst w))"
proof (unfold_locales, goal_cases)
  case (1 w y z)
  then show ?case
    using committed_replicas.stat_keeps [OF assms] by (simp add: ops_on_fst_def snd_on_fst run_on_fst)
next
  case (2 w y z)
  then show ?case
    using committed_replicas.snapshot_keeps [OF assms] by (simp add: ops_on_fst_def snd_on_fst run_on_fst)
next
  case (3 w y z obs)
  then show ?case
    using committed_replicas.takeover_keeps [OF assms] by (simp add: ops_on_fst_def snd_on_fst run_on_fst)
next
  case (4 w y z t off)
  then show ?case
    using committed_replicas.finalize_keeps [OF assms] by (simp add: ops_on_fst_def snd_on_fst run_on_fst)
next
  case (5 w y z m)
  then show ?case
    using committed_replicas.create_keeps [OF assms] by (simp add: ops_on_fst_def snd_on_fst run_on_fst)
next
  case (6 z w s w')
  then show ?case
    using committed_replicas.snapshot_reads [OF assms, of z "fst w" s "fst w'"] by (simp add: ops_on_fst_def snd_on_fst run_on_fst)
next
  case (7 z w s w')
  then show ?case
    using committed_replicas.stat_zone [OF assms, of z "fst w" s "fst w'"] by (simp add: ops_on_fst_def snd_on_fst run_on_fst)
next
  case (8 z obs w t w')
  then show ?case
    using committed_replicas.takeover_tail [OF assms, of z obs "fst w" t "fst w'"] by (simp add: ops_on_fst_def snd_on_fst run_on_fst)
next
  case (9 z t off w s t' w')
  then show ?case
    using committed_replicas.finalize_zone [OF assms, of z t off "fst w" s t' "fst w'"] by (simp add: ops_on_fst_def snd_on_fst run_on_fst)
next
  case (10 z w e w')
  then show ?case
    using committed_replicas.absent_zone [OF assms, of z "fst w" e "fst w'"] by (simp add: ops_on_fst_def snd_on_fst run_on_fst)
qed

lemma leaves_on_fst: "leaves P ops \<Longrightarrow> leaves (\<lambda>w. P (fst w)) (ops_on_fst ops)"
  unfolding leaves_def ops_on_fst_def replica_ops.select_convs by (intro conjI allI keeps_on_fst [of P]) simp_all

text \<open>An operation on one object leaves the files of every other one alone.\<close>

definition same_files :: "string \<Rightarrow> local_world \<Rightarrow> local_world \<Rightarrow> bool" where
  "same_files obj w w' \<longleftrightarrow> fs_meta w' obj = fs_meta w obj \<and> fs_data w' obj = fs_data w obj"

lemma same_files_updates [simp]:
  "same_files obj w w" "same_files obj w (w1\<lparr>lw_session := s\<rparr>) = same_files obj w w1"
  "same_files obj w (w1\<lparr>fs_next := k\<rparr>) = same_files obj w w1"
  "obj' \<noteq> obj \<Longrightarrow> same_files obj w (store_meta obj' m w1) = same_files obj w w1"
  "obj' \<noteq> obj \<Longrightarrow> same_files obj w (write_data obj' b w1) = same_files obj w w1"
  by (simp_all add: same_files_def store_meta_def write_data_def)

lemma local_same_files:
  assumes "obj' \<noteq> obj"
  shows "same_files obj w (snd (local_create_append_session obj' md w))"
    "same_files obj w (snd (local_resume_tail obj' t w))"
    "same_files obj w (snd (local_takeover obj' s w))"
    "same_files obj w (snd (local_replace_appendable obj' so d md w))"
    "same_files obj w (snd (local_append obj' off ms w))"
    "same_files obj w (snd (local_finalize crc obj' t off w))"
  using assms
  by (simp_all add: local_create_append_session_def local_resume_tail_def local_takeover_def
      local_replace_appendable_def local_append_def local_finalize_def open_session_def Let_def
      split: option.split sum.split)

lemma local_delete_same_files: "obj' \<noteq> obj \<Longrightarrow> same_files obj w (snd (local_delete obj' g w))"
  by (auto simp: local_delete_def same_files_def Let_def split: option.split sum.split)

lemma local_leaves:
  assumes "obj' \<noteq> obj"
  shows "leaves (\<lambda>w. local_holds obj c w y) (local_ops crc obj')"
proof -
  have "local_holds obj c w' y" if "local_holds obj c w y" "same_files obj w w'" for w w'
    using that by (simp add: local_holds_def same_files_def)
  then show ?thesis
    using local_same_files [OF assms] local_delete_same_files [OF assms]
    by (simp add: leaves_def keeps_def local_ops_def local_read_snapshot_def local_read_range_def local_stat_def)
qed

definition local_volume ::
  "(bytes \<Rightarrow> nat) \<Rightarrow> string list \<Rightarrow> (string \<Rightarrow> nat option) \<Rightarrow> string \<Rightarrow> client_config \<Rightarrow> local_deployment segmented_volume" where
  "local_volume crc names modified pre cfg =
     \<lparr>sv_factories = deployed_factories (local_factories crc names modified), sv_store = deployed_store local_manifest_store,
      sv_bucket_names = [LOCAL_BUCKET], sv_prefix = trim_slashes pre, sv_config = cfg\<rparr>"

lemma new_local_volume: "new_local crc names modified pre cfg = Inr (local_volume crc names modified pre cfg)"
  by (simp add: new_local_def build_volume_def local_volume_def deployed_factories_def local_factories_def
      SUPPORTED_REPLICA_COUNTS_def)

lemma local_volume_replicas:
  "sv_replicas (local_volume crc names modified pre cfg) i = ops_on_fst (local_ops crc (segment_object (trim_slashes pre) i))"
  "fa_count (sv_factories (local_volume crc names modified pre cfg)) = 1"
  by (simp_all add: local_volume_def sv_replicas_def deployed_factories_def local_factories_def)

interpretation local_storage: committed_storage "local_volume crc names modified pre cfg" t c
  "\<lambda>w. local_holds (segment_object (trim_slashes pre) t) c (fst w)"
  for crc names modified pre cfg t c
proof (intro committed_storage.intro committed_storage_axioms.intro)
  show "committed_replicas (sv_replicas (local_volume crc names modified pre cfg) t)
      (fa_count (sv_factories (local_volume crc names modified pre cfg))) c
      (\<lambda>w. local_holds (segment_object (trim_slashes pre) t) c (fst w))"
    unfolding local_volume_replicas
    by (rule committed_on_fst) (rule local_committed.committed_replicas_axioms)
  show "leaves (\<lambda>w. local_holds (segment_object (trim_slashes pre) t) c (fst w) y)
      (sv_replicas (local_volume crc names modified pre cfg) i)" if "i \<noteq> t" for i y
    unfolding local_volume_replicas using that
    by (intro leaves_on_fst local_leaves) (simp add: segment_object_def)
qed


section \<open>Replay\<close>

lemma replay_records_from:
  assumes "log_range log (sd_base seg) records" "sd_base seg + length records = sd_end seg + 1" "sd_base seg \<le> sd_end seg"
    and "n \<le> sd_end seg" "sd_end seg < e"
  shows "replay_records seg records (WalSeqNo n) (WalSeqNo e) = map (wal_of log) [max (sd_base seg) n..<sd_end seg + 1]"
proof -
  have "replay_records seg records (WalSeqNo n) (WalSeqNo e)
      = replay_records seg records (WalSeqNo (max (sd_base seg) n)) (WalSeqNo e)"
    unfolding replay_records_def
    by (rule arg_cong [where f = "map _"], rule filter_cong) (auto dest!: set_zip_leftD)
  then show ?thesis
    using replay_records_log [OF assms(1,2), of "max (sd_base seg) n" e] assms(3-5) by simp
qed

context sealed_copies
begin

lemma scan_sealed_range_log:
  assumes "run_state (scan_sealed_range fac crc pre segs (WalSeqNo n) (WalSeqNo e)) w = ((out, None), w')"
    and "segment_chain segs a e" "n \<le> e"
    and "set segs \<subseteq> S" "encodable_log log" "held w"
  shows "out = map (wal_of log) [max a n..<e]"
  using assms(1-4,6)
proof (induction segs arbitrary: a out w)
  case (Cons seg rest)
  have chain: "sd_base seg = a" "a \<le> sd_end seg" "segment_chain rest (sd_end seg + 1) e"
    using Cons.prems(2) by simp_all
  have e: "sd_end seg < e" using segment_chain_le [OF chain(3)] by simp
  show ?case
  proof (cases "sd_end seg < n")
    case True
    then have "run_state (scan_sealed_range fac crc pre rest (WalSeqNo n) (WalSeqNo e)) w = ((out, None), w')"
      using Cons.prems(1) by simp
    from Cons.IH [OF this chain(3) Cons.prems(3)] Cons.prems(4,5) True chain(2) show ?thesis by (simp add: max_def)
  next
    case False
    obtain frames w1 later where r: "run_state (read_sealed_segment fac crc (segment_object pre (sd_id seg)) seg False) w
          = (Inr frames, w1)"
        "run_state (scan_sealed_range fac crc pre rest (WalSeqNo n) (WalSeqNo e)) w1 = ((later, None), w')"
        "out = replay_records seg frames (WalSeqNo n) (WalSeqNo e) @ later"
      using Cons.prems(1) False e chain(1,2) by (auto split: prod.splits sum.splits if_splits)
    have read: "held w1" "log_range log (sd_base seg) frames" "sd_base seg + length frames = sd_end seg + 1"
      using read_sealed_segment_log [OF r(1) assms(5) Cons.prems(5)] Cons.prems(4) by simp_all
    have "replay_records seg frames (WalSeqNo n) (WalSeqNo e) = map (wal_of log) [max a n..<sd_end seg + 1]"
      using replay_records_from [OF read(2,3)] chain(1,2) False e by simp
    moreover have "later = map (wal_of log) [sd_end seg + 1..<e]"
      using Cons.IH [OF r(2) chain(3) Cons.prems(3)] Cons.prems(4) read(1) False by (simp add: max_def)
    moreover have "[max a n..<e] = [max a n..<sd_end seg + 1] @ [sd_end seg + 1..<e]"
      using e False chain(2) upt_add_eq_append [of "max a n" "sd_end seg + 1" "e - (sd_end seg + 1)"] by simp
    ultimately show ?thesis using r(3) by simp
  qed
qed (auto simp: max_def)

end

interpretation deployed_sealed: sealed_copies "sv_factories (local_volume crc names modified pre cfg)" crc "trim_slashes pre" log S
  "\<lambda>w. local_copies log crc (trim_slashes pre) S (fst w)"
  for crc names modified pre cfg log S
proof (unfold_locales, goal_cases)
  case (1 w seg z x w')
  then show ?case
    using local_sealed.shows_copies [of log crc "trim_slashes pre" S "fst w" seg names modified z x "fst w'"]
    by (simp add: local_volume_def deployed_factories_def ops_on_fst_def run_on_fst)
qed


section \<open>A concrete startup\<close>

text \<open>The directory of the follower's log after a crash: the first record is sealed, the second one sits in
  an open tail object.\<close>

definition boot_files :: local_world where
  "boot_files = demo_files\<lparr>fs_meta := (fs_meta demo_files)(''p/segments/t'' \<mapsto> \<lparr>om_generation = 3, om_metageneration = 1,
       om_finalized = False, om_session = 3, om_metadata = protocol_metadata\<rparr>),
     fs_data := (fs_data demo_files)(''p/segments/t'' \<mapsto> [0, 0, 0, 4]), fs_next := 4\<rparr>"

definition boot_world :: local_deployment where
  "boot_world = (boot_files, Some \<lparr>sm_version = 4, sm_fields = encode_record demo_follow_record\<rparr>)"

definition boot_handle :: manifest where
  "boot_handle = \<lparr>mf_config = \<lparr>max_retries = 1, retry_base = 0\<rparr>, mf_owner = ''o'', mf_epoch = 1,
     mf_bucket_names = [''b''], mf_max_directory_bytes = 1000, mf_version = ManifestVersion 4,
     mf_record = demo_follow_record\<rparr>"

definition boot_volume :: "local_deployment segmented_volume" where
  "boot_volume = local_volume demo_crc [] (\<lambda>_. None) ''p'' \<lparr>max_retries = 1, retry_base = 0\<rparr>"

lemma boot_runs:
  "case run_state (recover_with_manifest boot_volume demo_crc (\<lambda>_. ''d'') (WalSeqNo 0) boot_handle) boot_world of
     (Inr r, w') \<Rightarrow> rw_base (rec_writer_state r) = 2 \<and> map sd_crc32c (rw_sealed_segments (rec_writer_state r)) = [7, 7]
       \<and> map (\<lambda>s. (sd_id s, sd_base s, sd_end s)) (rw_sealed_segments (rec_writer_state r)) = [(''s'', 0, 0), (''t'', 1, 1)]
       \<and> fs_data (fst w') ''p/segments/s'' = Some [0, 0, 0, 4] \<and> fs_data (fst w') ''p/segments/t'' = Some [0, 0, 0, 4]
       \<and> \<not> Option.is_none (rw_pending_fold (rec_writer_state r))
       \<and> (case run_state (scan_sealed_range (sv_factories boot_volume) demo_crc (sv_prefix boot_volume)
            (rw_sealed_segments (rec_writer_state r)) (rec_from r) (rec_end r)) w' of
           ((out, status), _) \<Rightarrow> status = None)
   | (Inl _, _) \<Rightarrow> False"
  by code_simp

lemma boot_copies:
  assumes "map (\<lambda>s. (sd_id s, sd_base s, sd_end s)) segs = [(''s'', 0, 0), (''t'', 1, 1)]"
    and "fs_data w ''p/segments/s'' = Some [0, 0, 0, 4]" "fs_data w ''p/segments/t'' = Some [0, 0, 0, 4]"
  shows "local_copies demo_log demo_crc ''p'' (set segs) w"
  unfolding local_copies_def
proof (intro ballI allI impI)
  fix seg d
  assume seg: "seg \<in> set segs" and d: "fs_data w (segment_object ''p'' (sd_id seg)) = Some d"
  have "(sd_id seg, sd_base seg, sd_end seg) \<in> set (map (\<lambda>s. (sd_id s, sd_base s, sd_end s)) segs)" using seg by simp
  then have "(sd_id seg, sd_base seg, sd_end seg) \<in> {(''s'', 0, 0), (''t'', 1, 1)}" unfolding assms(1) by simp
  then have "d = [0, 0, 0, 4]" "sd_end seg = sd_base seg" using d assms(2,3) by (auto simp: segment_object_def)
  then show "log_copy demo_log demo_crc seg d" by (simp add: log_copy_def log_bytes_def demo_frame_bytes)
qed

lemma boot_run:
  obtains r w' out w2 where
    "run_state (recover_with_manifest boot_volume demo_crc (\<lambda>_. ''d'') (WalSeqNo 0) boot_handle) boot_world = (Inr r, w')"
    "rw_base (rec_writer_state r) = 2" "rw_pending_fold (rec_writer_state r) \<noteq> None"
    "\<forall>seg \<in> set (rw_sealed_segments (rec_writer_state r)). sd_crc32c seg = 7"
    "run_state (scan_sealed_range (sv_factories boot_volume) demo_crc (sv_prefix boot_volume)
       (rw_sealed_segments (rec_writer_state r)) (rec_from r) (rec_end r)) w' = ((out, None), w2)"
    "local_copies demo_log demo_crc ''p'' (set (rw_sealed_segments (rec_writer_state r))) (fst w')"
proof -
  obtain x w' where x: "run_state (recover_with_manifest boot_volume demo_crc (\<lambda>_. ''d'') (WalSeqNo 0) boot_handle) boot_world
      = (x, w')" by (rule prod.exhaust)
  show thesis
  proof (cases x)
    case (Inr r)
    obtain out status w2 where scan: "run_state (scan_sealed_range (sv_factories boot_volume) demo_crc (sv_prefix boot_volume)
        (rw_sealed_segments (rec_writer_state r)) (rec_from r) (rec_end r)) w' = ((out, status), w2)"
      by (metis prod.collapse)
    have r: "rw_base (rec_writer_state r) = 2" "map sd_crc32c (rw_sealed_segments (rec_writer_state r)) = [7, 7]" "status = None"
        "rw_pending_fold (rec_writer_state r) \<noteq> None"
        "map (\<lambda>s. (sd_id s, sd_base s, sd_end s)) (rw_sealed_segments (rec_writer_state r)) = [(''s'', 0, 0), (''t'', 1, 1)]"
        "fs_data (fst w') ''p/segments/s'' = Some [0, 0, 0, 4]" "fs_data (fst w') ''p/segments/t'' = Some [0, 0, 0, 4]"
      using boot_runs x Inr scan by (simp_all add: Option.is_none_def)
    then have "sd_crc32c ` set (rw_sealed_segments (rec_writer_state r)) = {7}" by (metis insert_absorb2 list.set list.set_map)
    moreover have "local_copies demo_log demo_crc ''p'' (set (rw_sealed_segments (rec_writer_state r))) (fst w')"
      by (rule boot_copies [OF r(5-7)])
    ultimately show thesis using x Inr r scan by (intro that) auto
  qed (use boot_runs x in simp)
qed

lemma boot_record:
  "history_covered (mf_record boot_handle)" "valid_record (mf_record boot_handle)"
  "mr_tail_id (mf_record boot_handle) = Some ''t''" "mr_tail_base (mf_record boot_handle) = 1"
  by (auto simp: boot_handle_def demo_follow_record_def history_covered_def segment_of_None valid_record_simps)


section \<open>Properties\<close>

lemma recover_with_manifest_Inr:
  "run_state (recover_with_manifest sv crc sha checkpoint mf) w = (Inr r, w') \<longleftrightarrow>
     run_state (prepare_recovery sv crc sha checkpoint mf) w = (Inr (rec_writer_state r, rec_manifest r), w')
   \<and> rec_from r = checkpoint \<and> rec_end r = WalSeqNo (rw_base (rec_writer_state r))"
  by (cases r) (auto simp: recover_with_manifest_def try_then_Inr_iff)

text \<open>
  C12. Startup replays exactly the committed range.  Once recovery has succeeded
  under a register that covers its retained history, a replay that ends without
  an error yields every record from the checkpoint up to the recovered end,
  each once and in order, with the payload of the log, provided what the zones
  show of the sealed segments are copies of the log: complete, short, overlong
  or missing, or damaged in a way the committed checksum exposes.
\<close>

theorem recovery_replays_log:
  assumes "run_state (recover_with_manifest sv crc sha (WalSeqNo checkpoint) mf) w = (Inr r, w')"
    and "history_covered (mf_record mf)" "encodable_log log"
    and "sealed_copies (sv_factories sv) crc (sv_prefix sv) log (set (rw_sealed_segments (rec_writer_state r))) held" "held w1"
    and "run_state (scan_sealed_range (sv_factories sv) crc (sv_prefix sv) (rw_sealed_segments (rec_writer_state r))
       (rec_from r) (rec_end r)) w1 = ((out, None), w2)"
  shows "checkpoint \<le> get_seq (rec_end r)
    \<and> out = map (\<lambda>i. \<lparr>wr_seqno = WalSeqNo i, wr_payload = payload (log i)\<rparr>) [checkpoint..<get_seq (rec_end r)]"
proof -
  let ?st = "rec_writer_state r"
  have r: "run_state (prepare_recovery sv crc sha (WalSeqNo checkpoint) mf) w = (Inr (?st, rec_manifest r), w')"
      "rec_from r = WalSeqNo checkpoint" "rec_end r = WalSeqNo (rw_base ?st)"
    using assms(1) by (simp_all add: recover_with_manifest_Inr)
  obtain a where a: "checkpoint \<le> rw_base ?st" "a \<le> checkpoint" "segment_chain (rw_sealed_segments ?st) a (rw_base ?st)"
    using prepare_recovery_chain [OF r(1) assms(2)] by auto
  have "out = map (wal_of log) [max a checkpoint..<rw_base ?st]"
    by (rule sealed_copies.scan_sealed_range_log [OF assms(4,6) [unfolded r(2,3)] a(3,1) order_refl assms(3,5)])
  then show ?thesis using a r(3) by (simp add: max_absorb2 wal_of_def [abs_def])
qed

theorem recovery_replays_log_witness:
  "\<exists>r w' w2. run_state (recover_with_manifest boot_volume demo_crc (\<lambda>_. ''d'') (WalSeqNo 0) boot_handle) boot_world = (Inr r, w')
     \<and> run_state (scan_sealed_range (sv_factories boot_volume) demo_crc (sv_prefix boot_volume)
          (rw_sealed_segments (rec_writer_state r)) (rec_from r) (rec_end r)) w'
        = (([\<lparr>wr_seqno = WalSeqNo 0, wr_payload = []\<rparr>, \<lparr>wr_seqno = WalSeqNo 1, wr_payload = []\<rparr>], None), w2)"
proof -
  obtain r w' out w2 where run: "run_state (recover_with_manifest boot_volume demo_crc (\<lambda>_. ''d'') (WalSeqNo 0) boot_handle) boot_world
      = (Inr r, w')" "rw_base (rec_writer_state r) = 2" "rw_pending_fold (rec_writer_state r) \<noteq> None" "\<forall>seg \<in> set (rw_sealed_segments (rec_writer_state r)). sd_crc32c seg = 7"
      "run_state (scan_sealed_range (sv_factories boot_volume) demo_crc (sv_prefix boot_volume)
        (rw_sealed_segments (rec_writer_state r)) (rec_from r) (rec_end r)) w' = ((out, None), w2)"
      and copies: "local_copies demo_log demo_crc ''p'' (set (rw_sealed_segments (rec_writer_state r))) (fst w')" by (rule boot_run)
  have p: "trim_slashes ''p'' = ''p''" by code_simp
  have held: "local_copies demo_log demo_crc (trim_slashes ''p'') (set (rw_sealed_segments (rec_writer_state r))) (fst w')"
      "sealed_copies (sv_factories boot_volume) demo_crc (sv_prefix boot_volume) demo_log
         (set (rw_sealed_segments (rec_writer_state r)))
         (\<lambda>w. local_copies demo_log demo_crc (trim_slashes ''p'') (set (rw_sealed_segments (rec_writer_state r))) (fst w))"
    using copies deployed_sealed.sealed_copies_axioms [where pre = "''p''"]
    by (simp_all add: p boot_volume_def local_volume_def)
  have "get_seq (rec_end r) = 2" using run(1,2) by (simp add: recover_with_manifest_Inr)
  then have "out = [\<lparr>wr_seqno = WalSeqNo 0, wr_payload = []\<rparr>, \<lparr>wr_seqno = WalSeqNo 1, wr_payload = []\<rparr>]"
    using recovery_replays_log [OF run(1) boot_record(1) demo_log_encodable held(2,1) run(5)] by (simp add: demo_log_def upt_rec)
  then show ?thesis using run(1,5) by blast
qed


text \<open>
  C8. Records committed before a crash survive startup.  If a majority of the
  zones hold the encoding of some records in the tail object when recovery
  begins, a successful recovery publishes the tail as a sealed segment at the
  tail base whose records start with them and whose checksum is that of its
  bytes; the recovered end lies behind that segment.  This holds for every
  backend that satisfies the storage contract, whatever recovery has to repair
  in the objects of earlier segments first.
\<close>

theorem committed_tail_survives_startup:
  assumes "committed_storage sv t c holds"
    and "run_state (recover_with_manifest sv crc sha checkpoint mf) w = (Inr r, w')"
    and "valid_record (mf_record mf)" "mr_tail_id (mf_record mf) = Some t"
    and "t \<noteq> segment_id (mr_epoch (mf_record mf)) 0 \<or> mr_pending_id (mf_record mf) \<noteq> None"
    and "encode_all cs = Inr c" "cs \<noteq> []"
    and "majority (fa_count (sv_factories sv)) \<le> card {z. z < fa_count (sv_factories sv) \<and> holds w z}"
  shows "\<exists>seg \<in> set (rw_sealed_segments (rec_writer_state r)). \<exists>fs data.
      sd_id seg = t \<and> sd_base seg = mr_tail_base (mf_record mf) \<and> sd_end seg < get_seq (rec_end r)
    \<and> prefix cs fs \<and> sd_end seg + 1 = sd_base seg + length fs \<and> encode_all fs = Inr data \<and> sd_crc32c seg = crc data"
proof -
  have r: "run_state (prepare_recovery sv crc sha checkpoint mf) w = (Inr (rec_writer_state r, rec_manifest r), w')"
      "rec_end r = WalSeqNo (rw_base (rec_writer_state r))"
    using assms(2) by (simp_all add: recover_with_manifest_Inr)
  from committed_storage.startup_keeps_tail [OF assms(1) r(1) assms(3-8)] show ?thesis by (auto simp: r(2))
qed

theorem committed_tail_survives_startup_witness:
  "\<exists>r w'. run_state (recover_with_manifest boot_volume demo_crc (\<lambda>_. ''d'') (WalSeqNo 0) boot_handle) boot_world = (Inr r, w')
     \<and> (\<exists>seg \<in> set (rw_sealed_segments (rec_writer_state r)). sd_id seg = ''t'' \<and> sd_base seg = 1 \<and> sd_crc32c seg = 7)"
proof -
  obtain r w' where run: "run_state (recover_with_manifest boot_volume demo_crc (\<lambda>_. ''d'') (WalSeqNo 0) boot_handle) boot_world
      = (Inr r, w')" "\<forall>seg \<in> set (rw_sealed_segments (rec_writer_state r)). sd_crc32c seg = 7" by (rule boot_run)
  have enc: "encode_all [demo_log 0] = Inr [0, 0, 0, 4]"
    using encode_all_log [OF demo_log_encodable, of "[0]"] by (simp add: demo_frame_bytes)
  have obj: "segment_object (trim_slashes ''p'') ''t'' = ''p/segments/t''"
    by (simp add: trim_slashes_def segment_object_def)
  have n: "fa_count (sv_factories boot_volume) = 1"
    by (simp add: boot_volume_def local_volume_replicas)
  have "{z. z < 1 \<and> local_holds (segment_object (trim_slashes ''p'') ''t'') [0, 0, 0, 4] (fst boot_world) z} = {0}"
    unfolding obj by (auto simp: local_holds_def boot_world_def boot_files_def demo_files_def)
  then have q: "majority (fa_count (sv_factories boot_volume)) \<le> card {z. z < fa_count (sv_factories boot_volume)
      \<and> local_holds (segment_object (trim_slashes ''p'') ''t'') [0, 0, 0, 4] (fst boot_world) z}"
    unfolding n by (simp add: majority_def)
  have boot: "''t'' \<noteq> segment_id (mr_epoch (mf_record boot_handle)) 0 \<or> mr_pending_id (mf_record boot_handle) \<noteq> None"
    by code_simp
  have ne: "[demo_log 0] \<noteq> []" by simp
  have st: "committed_storage boot_volume ''t'' [0, 0, 0, 4]
      (\<lambda>w. local_holds (segment_object (trim_slashes ''p'') ''t'') [0, 0, 0, 4] (fst w))"
    unfolding boot_volume_def by (rule local_storage.committed_storage_axioms)
  from committed_tail_survives_startup [OF st run(1) boot_record(2,3) boot enc ne q] run
  show ?thesis by (auto simp: boot_record(4))
qed


text \<open>
  C23. The frontier recovery hands to the writer is the one the register names.
  Either the previous tail is still to be folded, and then the active segment
  is the pending id of the register, it has a writer, and the fold covers
  exactly the range between the old tail base and the recovered end; or the
  register names the active segment as its tail at the recovered end and the
  spare as its pending segment; or the tail was adopted empty as it was, with
  the spare registered as pending, or nothing written at all when the segment
  was minted by this very claim.
\<close>

theorem recovered_frontier_matches_register:
  assumes "run_state (recover_with_manifest sv crc sha checkpoint mf) w = (Inr r, w')"
    and "get_seq (rec_end r) \<le> u64_max"
  shows "case rw_pending_fold (rec_writer_state r) of
      Some f \<Rightarrow>
        ps_successor_id f = rw_active_id (rec_writer_state r) \<and> rw_active_writer (rec_writer_state r) \<noteq> None
      \<and> mr_pending_id (mf_record (rec_manifest r)) = Some (rw_active_id (rec_writer_state r))
      \<and> mr_tail_id (mf_record mf) = Some (ps_id f) \<and> ps_base f = mr_tail_base (mf_record mf)
      \<and> ps_end f + 1 = get_seq (rec_end r)
    | None \<Rightarrow>
        (\<exists>p wp. rw_spare (rec_writer_state r) = Some (p, wp)
           \<and> mr_tail_id (mf_record (rec_manifest r)) = Some (rw_active_id (rec_writer_state r))
           \<and> mr_pending_id (mf_record (rec_manifest r)) = Some p
           \<and> mr_tail_base (mf_record (rec_manifest r)) = get_seq (rec_end r))
      \<or> (mr_tail_id (mf_record mf) = Some (rw_active_id (rec_writer_state r))
         \<and> mr_tail_base (mf_record mf) = get_seq (rec_end r) \<and> mr_pending_id (mf_record mf) = None
         \<and> (case rw_spare (rec_writer_state r) of
              Some (p, _) \<Rightarrow> mr_pending_id (mf_record (rec_manifest r)) = Some p
            | None \<Rightarrow> rw_active_writer (rec_writer_state r) = None \<and> mf_record (rec_manifest r) = mf_record mf))"
proof -
  have r: "run_state (prepare_recovery sv crc sha checkpoint mf) w = (Inr (rec_writer_state r, rec_manifest r), w')"
      "get_seq (rec_end r) = rw_base (rec_writer_state r)"
    using assms(1) by (simp_all add: recover_with_manifest_Inr)
  from r(1) obtain sealed w1 t wk where run: "mr_tail_id (mf_record mf) = Some t"
      "run_state (walk_frontier sv crc sha (mf_record mf) t (start_walk mf t sealed)) w1 = (Inr wk, w')"
      "finish_recovery checkpoint (mf_record mf) wk = Inr (rec_writer_state r, rec_manifest r)"
    by (rule prepare_recovery_run) blast
  note fin = finish_recovery_Inr [OF run(3)]
  have "frontier_ok (mf_record mf) wk"
    using walk_frontier_result [OF run(2)] run(1) assms(2) fin r(2) by simp
  then show ?thesis using fin r(2)
    by (auto simp: frontier_ok_def at_frontier_def split: option.splits)
qed

theorem recovered_frontier_matches_register_witness:
  "\<exists>r w' f. run_state (recover_with_manifest boot_volume demo_crc (\<lambda>_. ''d'') (WalSeqNo 0) boot_handle) boot_world = (Inr r, w')
     \<and> rw_pending_fold (rec_writer_state r) = Some f \<and> ps_id f = ''t'' \<and> ps_base f = 1 \<and> ps_end f = 1
     \<and> mr_pending_id (mf_record (rec_manifest r)) = Some (rw_active_id (rec_writer_state r))"
proof -
  obtain r w' where run: "run_state (recover_with_manifest boot_volume demo_crc (\<lambda>_. ''d'') (WalSeqNo 0) boot_handle) boot_world
      = (Inr r, w')" "rw_base (rec_writer_state r) = 2" "rw_pending_fold (rec_writer_state r) \<noteq> None" by (rule boot_run)
  then have e: "get_seq (rec_end r) = 2" by (simp add: recover_with_manifest_Inr)
  then have "get_seq (rec_end r) \<le> u64_max" by (simp add: u64_max_def)
  from recovered_frontier_matches_register [OF run(1) this]
  show ?thesis using run(1,3) e by (auto simp: boot_record)
qed

end
