(* ===== verification/Segment_Maintenance.thy ===== *)
theory Segment_Maintenance
  imports Local_Volume
begin

text \<open>
  The background passes over segment objects, the module \<open>maintenance\<close> of
  \<open>segment.rs\<close>: repair of sealed copies, truncation below the committed floor
  and the sweep of objects left by dead writer incarnations.  The properties
  say what these passes may touch: a live object is never deleted, and a repair
  writes nothing but verified committed bytes.
\<close>

section \<open>Reports\<close>

record truncation_report =
  tr_deleted_objects :: nat
  tr_deleted_segments :: nat

record repair_report =
  rr_segments_examined :: nat
  rr_objects_repaired :: nat
  rr_objects_already_healthy :: nat
  rr_transient_failures :: nat
  rr_segments_without_source :: nat
  rr_objects_failed :: nat

definition default_repair_report :: repair_report where
  "default_repair_report = \<lparr>rr_segments_examined = 0, rr_objects_repaired = 0, rr_objects_already_healthy = 0,
     rr_transient_failures = 0, rr_segments_without_source = 0, rr_objects_failed = 0\<rparr>"

record dead_segment_sweep_report =
  dr_orphan_segments :: nat
  dr_deleted_objects :: nat
  dr_deferred_operations :: nat
  dr_failure :: "error option"

definition error_of_transport :: "transport_error \<Rightarrow> error" where
  "error_of_transport e = Err_Transport (te_zone e) (te_code e) (te_message e)"


section \<open>Repair\<close>

text \<open>\<open>SealedCopyIndex\<close>: one listing per zone, \<open>None\<close> where it failed.\<close>

type_synonym sealed_copy_index = "(string \<rightharpoonup> listed_object) option list"

definition build_index :: "'w factories \<Rightarrow> string \<Rightarrow> ('w, sealed_copy_index) state" where
  "build_index fac pre = do {
     listings \<leftarrow> join_all (\<lambda>z. fa_list fac z (segments_prefix pre)) [0..<fa_count fac];
     State_Monad.return (map (\<lambda>listing. case listing of
         Inl _ \<Rightarrow> None
       | Inr objects \<Rightarrow> Some (map_of (rev (map (\<lambda>o1. (lo_name o1, o1)) objects)))) listings)
   }"

datatype copy_health = Healthy | Damaged "listed_object option" | Unknown

definition health :: "sealed_copy_index \<Rightarrow> nat \<Rightarrow> string \<Rightarrow> nat \<Rightarrow> copy_health" where
  "health index z object expected_crc32c =
     (if z < length index then
        (case index ! z of
           None \<Rightarrow> Unknown
         | Some listed \<Rightarrow>
             (case listed object of
                Some found \<Rightarrow>
                  if lo_finalized found \<and> valid_format (lo_metadata found) \<and> lo_crc32c found = Some expected_crc32c
                  then Healthy else Damaged (Some found)
              | None \<Rightarrow> Damaged None))
      else Unknown)"

datatype repair_step = Step_Snapshot | Step_Stat | Step_Delete | Step_ReplaceAppendable | Step_Finalize

type_synonym repair_copy_failure = "repair_step \<times> transport_error"

definition at_step :: "repair_step \<Rightarrow> transport_error + 'a \<Rightarrow> repair_copy_failure + 'a" where
  "at_step step r = (case r of Inl e \<Rightarrow> Inl (step, e) | Inr x \<Rightarrow> Inr x)"

text \<open>The copy a repair starts from; a rotted one is deleted first.\<close>

definition repair_source_copy ::
  "'w replica_ops \<Rightarrow> nat \<Rightarrow> ('w, repair_copy_failure + replica_snapshot option) state" where
  "repair_source_copy ops z = do {
     r \<leftarrow> op_snapshot ops z;
     case r of
       Inr s \<Rightarrow> State_Monad.return (Inr (Some s))
     | Inl e \<Rightarrow>
         if te_code e = NotFound then State_Monad.return (Inr None)
         else if te_code e = DataLoss then do {
           st \<leftarrow> op_stat ops z;
           case at_step Step_Stat st of
             Inl f \<Rightarrow> State_Monad.return (Inl f)
           | Inr s \<Rightarrow> do {
               d \<leftarrow> op_delete ops z (rs_generation s);
               State_Monad.return (case d of
                 Inr _ \<Rightarrow> Inr None
               | Inl e2 \<Rightarrow> if te_code e2 = NotFound then Inr None else Inl (Step_Delete, e2))
             }
         }
         else State_Monad.return (Inl (Step_Snapshot, e))
   }"

definition repaired_already :: "bytes \<Rightarrow> (string \<times> string) list \<Rightarrow> nat \<Rightarrow> replica_snapshot option \<Rightarrow> bool" where
  "repaired_already data md expected_crc32c current =
     (case current of
        None \<Rightarrow> False
      | Some s \<Rightarrow> rs_finalized s \<and> rs_bytes s = data \<and> valid_format (rs_metadata s)
          \<and> rs_crc32c s = Some expected_crc32c \<and> list_all (\<lambda>(k, v). rs_metadata s k = Some v) md)"

definition repair_sealed_copy ::
  "'w replica_ops \<Rightarrow> nat \<Rightarrow> bytes \<Rightarrow> (string \<times> string) list \<Rightarrow> nat \<Rightarrow> ('w, repair_copy_failure + bool) state" where
  "repair_sealed_copy ops z data md expected_crc32c =
     try_then (repair_source_copy ops z) (\<lambda>current.
       if repaired_already data md expected_crc32c current then succeed False
       else do {
         t \<leftarrow> op_replace_appendable ops z current data (map_of md);
         case at_step Step_ReplaceAppendable t of
           Inl f \<Rightarrow> fail_with f
         | Inr token \<Rightarrow> do {
             (r, _) \<leftarrow> op_finalize ops z (token\<lparr>tk_persisted_size := int (length data)\<rparr>) (int (length data));
             case at_step Step_Finalize r of
               Inl f \<Rightarrow> fail_with f
             | Inr s \<Rightarrow>
                 if rs_crc32c s \<noteq> Some expected_crc32c
                 then fail_with (Step_Finalize, \<lparr>te_zone = rs_zone s, te_code = DataLoss,
                        te_message = ''repaired sealed object reported CRC32C ''
                          @ (case rs_crc32c s of Some c \<Rightarrow> hex8 c | None \<Rightarrow> ''missing'')
                          @ '', expected '' @ hex8 expected_crc32c\<rparr>)
                 else succeed True
           }
       })"

definition protocol_fields :: "(string \<times> string) list" where
  "protocol_fields = [(META_FORMAT, FORMAT_VERSION)]"

definition read_one_sealed_source ::
  "'w factories \<Rightarrow> (bytes \<Rightarrow> nat) \<Rightarrow> string \<Rightarrow> segment_descriptor \<Rightarrow> ('w, error + bytes) state" where
  "read_one_sealed_source fac crc object seg =
     try_then (read_sealed_segment_bytes fac crc object seg False) (\<lambda>(data, records). succeed data)"

text \<open>The first loop of a segment: healthy and unknown copies are counted, damaged ones become targets.\<close>

fun assess_copies ::
  "sealed_copy_index \<Rightarrow> string \<Rightarrow> nat \<Rightarrow> nat list \<Rightarrow> repair_report \<Rightarrow> nat list \<times> repair_report" where
  "assess_copies index object c [] rep = ([], rep)"
| "assess_copies index object c (z # zs) rep =
     (case health index z object c of
        Healthy \<Rightarrow>
          assess_copies index object c zs (rep\<lparr>rr_objects_already_healthy := rr_objects_already_healthy rep + 1\<rparr>)
      | Unknown \<Rightarrow> assess_copies index object c zs (rep\<lparr>rr_transient_failures := rr_transient_failures rep + 1\<rparr>)
      | Damaged _ \<Rightarrow> (case assess_copies index object c zs rep of (targets, rep') \<Rightarrow> (z # targets, rep')))"

definition count_repair :: "repair_copy_failure + bool \<Rightarrow> repair_report \<Rightarrow> repair_report" where
  "count_repair r rep =
     (case r of
        Inr True \<Rightarrow> rep\<lparr>rr_objects_repaired := rr_objects_repaired rep + 1\<rparr>
      | Inr False \<Rightarrow> rep\<lparr>rr_objects_already_healthy := rr_objects_already_healthy rep + 1\<rparr>
      | Inl (_, e) \<Rightarrow>
          if transient (te_code e) then rep\<lparr>rr_transient_failures := rr_transient_failures rep + 1\<rparr>
          else rep\<lparr>rr_objects_failed := rr_objects_failed rep + 1\<rparr>)"

fun repair_targets ::
  "'w replica_ops \<Rightarrow> bytes \<Rightarrow> nat \<Rightarrow> nat list \<Rightarrow> repair_report \<Rightarrow> ('w, repair_report) state" where
  "repair_targets ops data c [] rep = State_Monad.return rep"
| "repair_targets ops data c (z # zs) rep = do {
     r \<leftarrow> repair_sealed_copy ops z data protocol_fields c;
     repair_targets ops data c zs (count_repair r rep)
   }"

definition repair_segment ::
  "'w factories \<Rightarrow> (bytes \<Rightarrow> nat) \<Rightarrow> string \<Rightarrow> sealed_copy_index \<Rightarrow> segment_descriptor \<Rightarrow> repair_report
     \<Rightarrow> ('w, repair_report) state" where
  "repair_segment fac crc pre index seg rep =
     (let object = segment_object pre (sd_id seg);
          (targets, rep) = assess_copies index object (sd_crc32c seg) [0..<fa_count fac]
            (rep\<lparr>rr_segments_examined := rr_segments_examined rep + 1\<rparr>)
      in if targets = [] then State_Monad.return rep
         else do {
           src \<leftarrow> read_one_sealed_source fac crc object seg;
           case src of
             Inl _ \<Rightarrow> State_Monad.return (rep\<lparr>rr_segments_without_source := rr_segments_without_source rep + 1\<rparr>)
           | Inr data \<Rightarrow> repair_targets (fa_replicas fac object) data (sd_crc32c seg) targets rep
         })"

fun repair_segments ::
  "'w factories \<Rightarrow> (bytes \<Rightarrow> nat) \<Rightarrow> string \<Rightarrow> sealed_copy_index \<Rightarrow> nat \<Rightarrow> segment_descriptor list \<Rightarrow> repair_report
     \<Rightarrow> ('w, repair_report) state" where
  "repair_segments fac crc pre index floor [] rep = State_Monad.return rep"
| "repair_segments fac crc pre index floor (seg # rest) rep =
     (if sd_end seg < floor \<or> sd_seal_pending seg
      then repair_segments fac crc pre index floor rest rep
      else do {
        rep \<leftarrow> repair_segment fac crc pre index seg rep;
        repair_segments fac crc pre index floor rest rep
      })"

definition repair_sealed_pass ::
  "'w factories \<Rightarrow> (bytes \<Rightarrow> nat) \<Rightarrow> string \<Rightarrow> segment_descriptor list \<Rightarrow> nat \<Rightarrow> ('w, error + repair_report) state" where
  "repair_sealed_pass fac crc pre segs floor = do {
     index \<leftarrow> build_index fac pre;
     rep \<leftarrow> repair_segments fac crc pre index floor segs default_repair_report;
     State_Monad.return (Inr rep)
   }"


section \<open>Truncation\<close>

text \<open>One zone of one entry: a copy that is gone counts as absent.\<close>

definition delete_copy ::
  "'w replica_ops \<Rightarrow> nat \<Rightarrow> transport_error + replica_snapshot \<Rightarrow> ('w, error + nat \<times> nat) state" where
  "delete_copy ops z stat =
     (case stat of
        Inr s \<Rightarrow> do {
          d \<leftarrow> op_delete ops z (rs_generation s);
          State_Monad.return (case d of
            Inr _ \<Rightarrow> Inr (1, 1)
          | Inl e \<Rightarrow> if te_code e = NotFound then Inr (0, 1)
                     else if transient (te_code e) then Inr (0, 0) else Inl (error_of_transport e))
        }
      | Inl e \<Rightarrow> State_Monad.return
          (if te_code e = NotFound then Inr (0, 1)
           else if transient (te_code e) then Inr (0, 0) else Inl (error_of_transport e)))"

fun delete_copies ::
  "'w replica_ops \<Rightarrow> (nat \<times> (transport_error + replica_snapshot)) list \<Rightarrow> nat \<Rightarrow> nat
     \<Rightarrow> ('w, error + nat \<times> nat) state" where
  "delete_copies ops [] deleted absent = succeed (deleted, absent)"
| "delete_copies ops ((z, stat) # rest) deleted absent =
     try_then (delete_copy ops z stat) (\<lambda>(d, a). delete_copies ops rest (deleted + d) (absent + a))"

record deletion_progress =
  dp_deleted_objects :: nat
  dp_deleted_bases :: "nat list"
  dp_fully_deleted :: "string list"

fun delete_entries ::
  "'w factories \<Rightarrow> string \<Rightarrow> manifest_record \<Rightarrow> directory_entry list \<Rightarrow> deletion_progress
     \<Rightarrow> ('w, error + deletion_progress) state" where
  "delete_entries fac pre r [] dp = succeed dp"
| "delete_entries fac pre r (e # rest) dp =
     (let next_base = (case rest of [] \<Rightarrow> mr_tail_base r | e' # _ \<Rightarrow> de_base e')
      in case checked_sub next_base 1 of
           None \<Rightarrow> delete_entries fac pre r rest dp
         | Some end_index \<Rightarrow>
             if mr_trunc r \<le> end_index then delete_entries fac pre r rest dp
             else let ops = fa_replicas fac (segment_object pre (de_id e));
                      n = fa_count fac
                  in do {
                    stats \<leftarrow> join_all (op_stat ops) [0..<n];
                    try_then (delete_copies ops (zip [0..<n] stats) (dp_deleted_objects dp) 0) (\<lambda>(deleted, absent).
                      delete_entries fac pre r rest
                        \<lparr>dp_deleted_objects = deleted,
                         dp_deleted_bases = (if majority n \<le> absent then de_base e # dp_deleted_bases dp
                           else dp_deleted_bases dp),
                         dp_fully_deleted = (if absent = n then de_id e # dp_fully_deleted dp
                           else dp_fully_deleted dp)\<rparr>)
                  })"

text \<open>The chain in memory loses its deleted segments even when the register update then fails.\<close>

definition delete_segments_below_committed_floor ::
  "'w factories \<Rightarrow> 'w manifest_store \<Rightarrow> string \<Rightarrow> segment_descriptor list \<Rightarrow> manifest
     \<Rightarrow> ('w, (error + truncation_report) \<times> segment_descriptor list \<times> manifest) state" where
  "delete_segments_below_committed_floor fac store pre sealed mf = do {
     let r = mf_record mf;
     res \<leftarrow> delete_entries fac pre r (mr_segments r)
       \<lparr>dp_deleted_objects = 0, dp_deleted_bases = [], dp_fully_deleted = []\<rparr>;
     case res of
       Inl e \<Rightarrow> State_Monad.return (Inl e, sealed, mf)
     | Inr dp \<Rightarrow> do {
         let sealed' = filter (\<lambda>seg. sd_base seg \<notin> set (dp_deleted_bases dp)) sealed;
         (u, mf') \<leftarrow> remove_segments store mf (set (dp_fully_deleted dp)) (mr_trunc r);
         State_Monad.return (case u of
             Inl e \<Rightarrow> Inl (error_of_protocol e)
           | Inr _ \<Rightarrow> Inr \<lparr>tr_deleted_objects = dp_deleted_objects dp,
               tr_deleted_segments = length sealed - length sealed'\<rparr>, sealed', mf')
       }
   }"

text \<open>\<open>truncate_pass\<close> with the chain, the checkpoint floor and the handle it updates.\<close>

definition truncate_pass ::
  "'w factories \<Rightarrow> 'w manifest_store \<Rightarrow> string \<Rightarrow> segment_descriptor list \<Rightarrow> nat \<Rightarrow> manifest \<Rightarrow> writer_claim \<Rightarrow> wal_seq_no
     \<Rightarrow> ('w, (error + truncation_report) \<times> segment_descriptor list \<times> nat \<times> manifest) state" where
  "truncate_pass fac store pre sealed checkpoint_floor mf cl floor =
     (if get_seq floor < checkpoint_floor
      then State_Monad.return (Inl (Err_CheckpointRegression (WalSeqNo checkpoint_floor) floor), sealed, checkpoint_floor, mf)
      else do {
        (u, mf1) \<leftarrow> raise_trunc store mf cl (get_seq floor);
        case u of
          Inl e \<Rightarrow> State_Monad.return (Inl (error_of_protocol e), sealed, checkpoint_floor, mf1)
        | Inr _ \<Rightarrow> do {
            (res, sealed', mf2) \<leftarrow> delete_segments_below_committed_floor fac store pre sealed mf1;
            State_Monad.return (res, sealed', get_seq floor, mf2)
          }
      })"

definition cleanup_tombstones_pass ::
  "'w factories \<Rightarrow> 'w manifest_store \<Rightarrow> string \<Rightarrow> segment_descriptor list \<Rightarrow> manifest
     \<Rightarrow> ('w, (error + truncation_report) \<times> segment_descriptor list \<times> manifest) state" where
  "cleanup_tombstones_pass fac store pre sealed mf = do {
     (u, mf1) \<leftarrow> refreshed_record store mf;
     case u of
       Inl e \<Rightarrow> State_Monad.return (Inl (error_of_protocol e), sealed, mf1)
     | Inr _ \<Rightarrow> delete_segments_below_committed_floor fac store pre sealed mf1
   }"


section \<open>The sweep\<close>

definition defer_sweep :: "transport_error \<Rightarrow> dead_segment_sweep_report \<Rightarrow> dead_segment_sweep_report" where
  "defer_sweep e rep =
     (let rep = rep\<lparr>dr_deferred_operations := dr_deferred_operations rep + 1\<rparr>
      in if transient (te_code e) \<or> dr_failure rep \<noteq> None then rep
         else rep\<lparr>dr_failure := Some (error_of_transport e)\<rparr>)"

fun listed_ids ::
  "string \<Rightarrow> (transport_error + listed_object list) list \<Rightarrow> dead_segment_sweep_report
     \<Rightarrow> string list \<times> dead_segment_sweep_report" where
  "listed_ids objects_prefix [] rep = ([], rep)"
| "listed_ids objects_prefix (Inl e # rest) rep = listed_ids objects_prefix rest (defer_sweep e rep)"
| "listed_ids objects_prefix (Inr objects # rest) rep =
     (case listed_ids objects_prefix rest rep of (ids, rep') \<Rightarrow>
        (map (\<lambda>o1. drop (length objects_prefix) (lo_name o1))
           (filter (\<lambda>o1. valid_format (lo_metadata o1) \<and> prefix objects_prefix (lo_name o1)) objects) @ ids, rep'))"

definition sweep_eligible :: "dead_segment_sweep \<Rightarrow> string \<Rightarrow> bool" where
  "sweep_eligible sweep i \<longleftrightarrow>
     i \<notin> ds_keep sweep \<and> (case id_epoch i of None \<Rightarrow> False | Some epoch \<Rightarrow> epoch < ds_claimed_epoch sweep)"

fun sweep_copies ::
  "'w replica_ops \<Rightarrow> nat list \<Rightarrow> dead_segment_sweep_report \<Rightarrow> ('w, dead_segment_sweep_report) state" where
  "sweep_copies ops [] rep = State_Monad.return rep"
| "sweep_copies ops (z # zs) rep = do {
     st \<leftarrow> op_stat ops z;
     case st of
       Inr s \<Rightarrow> do {
         d \<leftarrow> op_delete ops z (rs_generation s);
         sweep_copies ops zs (case d of
             Inr _ \<Rightarrow> rep\<lparr>dr_deleted_objects := dr_deleted_objects rep + 1\<rparr>
           | Inl e \<Rightarrow> if te_code e = NotFound then rep else defer_sweep e rep)
       }
     | Inl e \<Rightarrow> sweep_copies ops zs (if te_code e = NotFound then rep else defer_sweep e rep)
   }"

fun sweep_ids ::
  "'w factories \<Rightarrow> string \<Rightarrow> dead_segment_sweep \<Rightarrow> string list \<Rightarrow> dead_segment_sweep_report
     \<Rightarrow> ('w, dead_segment_sweep_report) state" where
  "sweep_ids fac pre sweep [] rep = State_Monad.return rep"
| "sweep_ids fac pre sweep (i # rest) rep =
     (if \<not> sweep_eligible sweep i then sweep_ids fac pre sweep rest rep
      else do {
        rep \<leftarrow> sweep_copies (fa_replicas fac (segment_object pre i)) [0..<fa_count fac]
          (rep\<lparr>dr_orphan_segments := dr_orphan_segments rep + 1\<rparr>);
        sweep_ids fac pre sweep rest rep
      })"

text \<open>The ids form a \<open>BTreeSet\<close>: each once, in order.\<close>

definition sweep_dead_segments ::
  "'w factories \<Rightarrow> string \<Rightarrow> dead_segment_sweep \<Rightarrow> ('w, dead_segment_sweep_report) state" where
  "sweep_dead_segments fac pre sweep = do {
     listed \<leftarrow> join_all (\<lambda>z. fa_list fac z (segments_prefix pre)) [0..<fa_count fac];
     let (ids, rep) = listed_ids (segments_prefix pre) listed
       \<lparr>dr_orphan_segments = 0, dr_deleted_objects = 0, dr_deferred_operations = 0, dr_failure = None\<rparr>;
     sweep_ids fac pre sweep (sort (remdups ids)) rep
   }"


section \<open>Isolation of objects\<close>

text \<open>An entry whose range ends below the committed floor of the record.\<close>

definition covered :: "manifest_record \<Rightarrow> directory_entry list \<Rightarrow> string \<Rightarrow> bool" where
  "covered r es i \<longleftrightarrow> (\<exists>xs e ys. es = xs @ e # ys \<and> de_id e = i
     \<and> (case ys of [] \<Rightarrow> mr_tail_base r | e' # _ \<Rightarrow> de_base e') \<le> mr_trunc r)"

text \<open>
  What the passes rely on to leave an object alone: operations on other
  objects, listings and the register do not change what is stored in it.
\<close>

locale isolated_storage =
  fixes fac :: "'w factories" and store :: "'w manifest_store" and obj :: string and P :: "'w \<Rightarrow> bool"
  assumes others: "obj' \<noteq> obj \<Longrightarrow> leaves P (fa_replicas fac obj')"
    and list_keeps: "keeps P (fa_list fac z pre)"
    and read_keeps: "keeps P (ms_read store)"
    and create_keeps: "keeps P (ms_create store data)"
    and update_keeps: "keeps P (ms_update store v data)"
begin

lemma refresh_keeps: "keeps P (refresh store mf)"
proof -
  have "keeps P (refresh_attempts k store mf)" for k
  proof (induction k)
    case (Suc k)
    show ?case
      unfolding refresh_attempts.simps(2) Let_def
      by (intro keeps_bind keeps_cases keeps_return read_keeps create_keeps)
        (auto intro!: create_keeps Suc split: manifest_store_error.split)
  qed auto
  then show ?thesis by (simp add: refresh_def)
qed

lemma cas_transform_keeps: "keeps P (cas_transform store ex f mf)"
proof -
  have "keeps P (cas_rounds k store ex f mf)" for k mf
  proof (induction k arbitrary: mf)
    case (Suc k)
    show ?case
      unfolding cas_rounds.simps(2)
      by (auto intro!: keeps_bind keeps_return update_keeps refresh_keeps Suc split: sum.split cas_outcome.split)
  qed auto
  then show ?thesis by (simp add: cas_transform_def)
qed

lemma raise_trunc_keeps: "keeps P (raise_trunc store mf cl floor)"
  unfolding raise_trunc_def by (intro keeps_bind keeps_cases keeps_return refresh_keeps cas_transform_keeps)

lemma remove_segments_keeps: "keeps P (remove_segments store mf ids floor)"
  unfolding remove_segments_def by (intro keeps_cases keeps_return cas_transform_keeps)

lemma delete_copies_keeps: "obj' \<noteq> obj \<Longrightarrow> keeps P (delete_copies (fa_replicas fac obj') zs d a)"
proof (induction "fa_replicas fac obj'" zs d a rule: delete_copies.induct)
  case (2 z stat rest deleted absent)
  have "keeps P (delete_copy (fa_replicas fac obj') z stat)"
    unfolding delete_copy_def by (intro keeps_cases keeps_bind keeps_return) (use others 2 in auto)
  then show ?case unfolding delete_copies.simps by (intro keeps_try_then keeps_cases) (use 2 in auto)
qed auto

lemma delete_entries_keeps:
  "(\<And>i. covered r es i \<Longrightarrow> segment_object pre i \<noteq> obj) \<Longrightarrow> keeps P (delete_entries fac pre r es dp)"
proof (induction es arbitrary: dp)
  case (Cons e es)
  have rest: "keeps P (delete_entries fac pre r es dp)" for dp
  proof (rule Cons.IH)
    fix i
    assume "covered r es i"
    then have "covered r (e # es) i" unfolding covered_def by (metis append_Cons)
    then show "segment_object pre i \<noteq> obj" by (rule Cons.prems)
  qed
  show ?case
  proof (cases "(case es of [] \<Rightarrow> mr_tail_base r | e' # _ \<Rightarrow> de_base e') \<le> mr_trunc r")
    case True
    then have "covered r (e # es) (de_id e)" unfolding covered_def by (metis append_Nil)
    then have obj: "segment_object pre (de_id e) \<noteq> obj" by (rule Cons.prems)
    have "keeps P (op_stat (fa_replicas fac (segment_object pre (de_id e))) z)" for z
      using others [OF obj] by simp
    then show ?thesis
      unfolding delete_entries.simps Let_def
      by (intro keeps_cases keeps_bind keeps_try_then keeps_join_all rest delete_copies_keeps [OF obj])
  next
    case False
    have "checked_sub (case es of [] \<Rightarrow> mr_tail_base r | e' # _ \<Rightarrow> de_base e') 1 = Some k \<Longrightarrow> mr_trunc r \<le> k" for k
      using False by (auto simp: checked_sub_def split: if_splits)
    then show ?thesis using rest by (auto simp: Let_def split: option.split)
  qed
qed auto

lemma deletion_keeps:
  assumes "\<And>i. covered (mf_record mf) (mr_segments (mf_record mf)) i \<Longrightarrow> segment_object pre i \<noteq> obj"
  shows "keeps P (delete_segments_below_committed_floor fac store pre sealed mf)"
  unfolding delete_segments_below_committed_floor_def Let_def
  by (intro keeps_bind keeps_cases keeps_return remove_segments_keeps delete_entries_keeps assms)

text \<open>A truncation that loses the object had its floor committed, and the object's range ends below it.\<close>

lemma truncation_loss:
  assumes "run_state (truncate_pass fac store pre sealed cf mf cl floor) w = (res, w')" "P w" "\<not> P w'"
  obtains mf1 w1 i where "run_state (raise_trunc store mf cl (get_seq floor)) w = ((Inr (), mf1), w1)"
    "covered (mf_record mf1) (mr_segments (mf_record mf1)) i" "segment_object pre i = obj"
proof -
  have nr: "\<not> get_seq floor < cf"
    using assms by (auto simp: truncate_pass_def)
  obtain u mf1 w1 where r: "run_state (raise_trunc store mf cl (get_seq floor)) w = ((u, mf1), w1)"
    by (metis prod.collapse)
  have w1: "P w1" using keepsD [OF raise_trunc_keeps r] assms(2) by simp
  show thesis
  proof (cases u)
    case (Inl e)
    then show ?thesis using assms r w1 nr by (auto simp: truncate_pass_def)
  next
    case (Inr x)
    obtain res2 w2 where d: "run_state (delete_segments_below_committed_floor fac store pre sealed mf1) w1 = (res2, w2)"
      by (rule prod.exhaust)
    then have "w' = w2" using assms(1) r Inr nr by (auto simp: truncate_pass_def split: prod.splits)
    then obtain i where "covered (mf_record mf1) (mr_segments (mf_record mf1)) i" "segment_object pre i = obj"
      using keepsD [OF deletion_keeps d w1] assms(3) by blast
    then show ?thesis using that r Inr by simp
  qed
qed

lemma sweep_copies_keeps: "obj' \<noteq> obj \<Longrightarrow> keeps P (sweep_copies (fa_replicas fac obj') zs rep)"
proof (induction "fa_replicas fac obj'" zs rep rule: sweep_copies.induct)
  case (2 z zs rep)
  then show ?case unfolding sweep_copies.simps by (intro keeps_bind keeps_cases) (use others in auto)
qed auto

lemma sweep_keeps:
  assumes "obj = segment_object pre live" "\<not> sweep_eligible sweep live"
  shows "keeps P (sweep_dead_segments fac pre sweep)"
proof -
  have "keeps P (sweep_ids fac pre sweep ids rep)" for ids rep
  proof (induction ids arbitrary: rep)
    case (Cons i ids)
    have "sweep_eligible sweep i \<Longrightarrow> segment_object pre i \<noteq> obj"
      using assms by (auto simp: segment_object_def)
    then show ?case unfolding sweep_ids.simps by (intro keeps_cases keeps_bind Cons.IH sweep_copies_keeps) auto
  qed auto
  then show ?thesis
    unfolding sweep_dead_segments_def Let_def by (intro keeps_bind keeps_cases keeps_join_all list_keeps)
qed

end


lemma local_list_run: "run_state (fa_list (local_factories crc names modified) z pre) w = local_list crc names modified pre w"
  by (simp add: local_factories_def)

lemma keeps_on_snd: "keeps (\<lambda>w. P (fst w)) (on_snd m)"
  by (auto simp: keeps_def on_snd_def split: prod.splits)

interpretation local_isolated: isolated_storage "deployed_factories (local_factories crc names modified)"
  "deployed_store local_manifest_store" obj "\<lambda>w. local_holds obj c (fst w) y"
  for crc names modified obj c y
proof (unfold_locales, goal_cases)
  case (1 obj')
  have "leaves (\<lambda>w. local_holds obj c (fst w) y) (ops_on_fst (local_ops crc obj'))"
    by (rule leaves_on_fst [OF local_leaves [OF 1]])
  then show ?case by (simp add: deployed_factories_def local_factories_def)
next
  case (2 z pre)
  have "keeps (\<lambda>w. local_holds obj c w y) (fa_list (local_factories crc names modified) z pre)"
    by (simp add: keeps_def local_list_run local_list_def)
  then show ?case unfolding deployed_factories_def factories.select_convs by (rule keeps_on_fst)
qed (simp_all add: deployed_store_def keeps_on_snd [of "\<lambda>w. local_holds obj c w y"])


section \<open>Ids of an incarnation\<close>

lemma split_once_append: "sep \<notin> set a \<Longrightarrow> split_once sep (a @ sep # b) = Some (a, b)"
  by (induction a) auto

lemma id_epoch_segment_id:
  assumes "e \<le> u64_max"
  shows "id_epoch (segment_id e q) = Some e"
proof -
  have "split_once (CHR ''-'') (segment_id e q) = Some (pad_zero 16 (show_hex e), pad_zero 8 (show_hex q))"
    using split_once_append [of "CHR ''-''" "pad_zero 16 (show_hex e)"] show_radix_no_sep(3) [of 16]
    by (simp add: segment_id_def)
  moreover have "length (pad_zero 16 (show_hex e)) = 16"
    using length_hex_u64 [OF assms, of 16] by (simp add: pad_zero_def)
  moreover have "from_str_radix u64_max 16 (pad_zero 16 (show_hex e)) = Some e"
    using assms by (intro from_str_radix_show) simp_all
  ultimately show ?thesis by (simp add: id_epoch_def)
qed

lemma live_not_eligible:
  assumes "live \<in> de_id ` set (mr_segments r) \<or> mr_tail_id r = Some live \<or> mr_pending_id r = Some live
    \<or> (\<exists>e q. live = segment_id e q \<and> mr_epoch r \<le> e \<and> e \<le> u64_max)"
  shows "\<not> sweep_eligible (sweep_authority r) live"
  using assms by (auto simp: sweep_eligible_def sweep_authority_def id_epoch_segment_id)


section \<open>The writes of a repair pass\<close>

text \<open>Storage that records every conditional write: object, zone, contents and metadata.\<close>

type_synonym write_log = "(string \<times> nat \<times> bytes \<times> metadata) list"

definition recorded_write ::
  "string \<times> nat \<times> bytes \<times> metadata \<Rightarrow> ('w, 'a) state \<Rightarrow> ('w \<times> write_log, 'a) state" where
  "recorded_write x m = State (\<lambda>(w, log). case run_state m w of (r, w') \<Rightarrow> (r, (w', log @ [x])))"

definition recording :: "'w factories \<Rightarrow> ('w \<times> write_log) factories" where
  "recording fac = \<lparr>fa_count = fa_count fac,
     fa_replicas = (\<lambda>obj. (ops_on_fst (fa_replicas fac obj))
       \<lparr>op_replace_appendable := (\<lambda>z cur data m. recorded_write (obj, z, data, m) (op_replace_appendable (fa_replicas fac obj) z cur data m))\<rparr>),
     fa_list = (\<lambda>z pre. on_fst (fa_list fac z pre))\<rparr>"

definition verified_write ::
  "(bytes \<Rightarrow> nat) \<Rightarrow> string \<Rightarrow> segment_descriptor list \<Rightarrow> nat \<Rightarrow> string \<times> nat \<times> bytes \<times> metadata \<Rightarrow> bool" where
  "verified_write crc pre segs floor x \<longleftrightarrow> (case x of (obj, z, data, m) \<Rightarrow>
     (\<exists>seg \<in> set segs. obj = segment_object pre (sd_id seg) \<and> floor \<le> sd_end seg \<and> \<not> sd_seal_pending seg
        \<and> (\<exists>records. sealed_content crc seg data records)) \<and> valid_format m)"

text \<open>The property of a log that a pass maintains.\<close>

abbreviation writes_verified :: "(bytes \<Rightarrow> nat) \<Rightarrow> string \<Rightarrow> segment_descriptor list \<Rightarrow> nat \<Rightarrow> 'w \<times> write_log \<Rightarrow> bool" where
  "writes_verified crc pre segs floor w \<equiv> list_all (verified_write crc pre segs floor) (snd w)"

lemma keeps_log [simp]: "keeps (\<lambda>w. Q (snd w)) (on_fst m)"
  by (auto simp: keeps_def on_fst_def split: prod.splits)

lemma recording_keeps [simp]:
  "keeps (writes_verified crc pre segs floor) (op_snapshot (fa_replicas (recording fac) obj) z)"
  "keeps (writes_verified crc pre segs floor) (op_stat (fa_replicas (recording fac) obj) z)"
  "keeps (writes_verified crc pre segs floor) (op_delete (fa_replicas (recording fac) obj) z g)"
  "keeps (writes_verified crc pre segs floor) (op_finalize (fa_replicas (recording fac) obj) z t off)"
  "keeps (writes_verified crc pre segs floor) (fa_list (recording fac) z dir)"
  by (simp_all add: recording_def ops_on_fst_def)

lemma recording_replace_keeps:
  "verified_write crc pre segs floor (obj, z, data, m) \<Longrightarrow>
     keeps (writes_verified crc pre segs floor) (op_replace_appendable (fa_replicas (recording fac) obj) z cur data m)"
  by (auto simp: recording_def ops_on_fst_def keeps_def recorded_write_def split: prod.splits)

lemma protocol_fields_metadata: "valid_format (map_of protocol_fields)"
  by (simp add: protocol_fields_def valid_format_def)

lemma repair_copy_keeps:
  assumes "verified_write crc pre segs floor (obj, z, data, map_of protocol_fields)"
  shows "keeps (writes_verified crc pre segs floor) (repair_sealed_copy (fa_replicas (recording fac) obj) z data protocol_fields c)"
proof -
  have "keeps (writes_verified crc pre segs floor) (repair_source_copy (fa_replicas (recording fac) obj) z)"
    unfolding repair_source_copy_def by (intro keeps_bind keeps_cases keeps_return recording_keeps)
  then show ?thesis
    unfolding repair_sealed_copy_def
    by (intro keeps_try_then keeps_cases keeps_succeed keeps_fail_with keeps_bind recording_keeps
        recording_replace_keeps assms)
qed

lemma repair_targets_keeps:
  assumes "\<And>z. verified_write crc pre segs floor (obj, z, data, map_of protocol_fields)"
  shows "keeps (writes_verified crc pre segs floor) (repair_targets (fa_replicas (recording fac) obj) data c zs rep)"
  by (induction zs arbitrary: rep) (auto intro!: repair_copy_keeps assms)

lemma read_sealed_keeps:
  "keeps (writes_verified crc pre segs floor) (read_sealed_segment_bytes (recording fac) crc' obj seg accept)"
proof -
  have "keeps (writes_verified crc pre segs floor) (scan_sealed_copies (fa_replicas (recording fac) obj) ok zs snaps perm)"
    for ok zs snaps perm
    by (induction zs arbitrary: snaps perm) (auto intro!: keeps_bind)
  then show ?thesis
    unfolding read_sealed_segment_bytes_def by (intro keeps_cases keeps_bind keeps_return)
qed

lemma keeps_bind_run:
  assumes "keeps P m" "\<And>x w w'. run_state m w = (x, w') \<Longrightarrow> keeps P (f x)"
  shows "keeps P (State_Monad.bind m f)"
  using assms unfolding keeps_def by (auto split: prod.splits)

lemma repair_segment_keeps:
  assumes seg: "seg \<in> set segs" "floor \<le> sd_end seg" "\<not> sd_seal_pending seg"
  shows "keeps (writes_verified crc pre segs floor) (repair_segment (recording fac) crc pre index seg rep)"
proof -
  let ?obj = "segment_object pre (sd_id seg)"
  have src: "keeps (writes_verified crc pre segs floor) (read_one_sealed_source (recording fac) crc ?obj seg)"
    unfolding read_one_sealed_source_def by (intro keeps_try_then keeps_cases keeps_succeed read_sealed_keeps)
  have "verified_write crc pre segs floor (?obj, z, data, map_of protocol_fields)"
    if "run_state (read_one_sealed_source (recording fac) crc ?obj seg) w = (Inr data, w')" for z data w w'
  proof -
    from that obtain records where "sealed_content crc seg data records"
      by (auto simp: read_one_sealed_source_def try_then_Inr_iff dest: read_sealed_segment_bytes_content)
    then show ?thesis using seg protocol_fields_metadata by (auto simp: verified_write_def)
  qed
  then show ?thesis
    unfolding repair_segment_def Let_def
    by (intro keeps_cases keeps_return keeps_bind_run src) (auto intro!: repair_targets_keeps)
qed

lemma repair_pass_keeps:
  "keeps (writes_verified crc pre segs floor) (repair_sealed_pass (recording fac) crc pre segs floor)"
proof -
  have "set todo \<subseteq> set segs \<Longrightarrow>
      keeps (writes_verified crc pre segs floor) (repair_segments (recording fac) crc pre index floor todo rep)" for index todo rep
  proof (induction todo arbitrary: rep)
    case (Cons seg todo)
    then show ?case
      unfolding repair_segments.simps by (intro keeps_cases keeps_bind) (auto intro!: repair_segment_keeps)
  qed auto
  moreover have "keeps (writes_verified crc pre segs floor) (build_index (recording fac) pre)"
    unfolding build_index_def by (intro keeps_bind keeps_return keeps_join_all recording_keeps)
  ultimately show ?thesis
    unfolding repair_sealed_pass_def by (intro keeps_bind keeps_return) auto
qed


section \<open>Properties\<close>

text \<open>
  C21. The sweep of dead segments never touches live data.  With the authority
  recovery derives from the register, the sweep leaves every object alone that
  the register named as a directory entry, as the tail or as the pending
  segment, and every object minted by this or a later incarnation, whatever the
  zones list and however the calls fail.
\<close>

theorem sweep_spares_live_segments:
  assumes "isolated_storage fac store (segment_object pre live) P"
    and "live \<in> de_id ` set (mr_segments r) \<or> mr_tail_id r = Some live \<or> mr_pending_id r = Some live
      \<or> (\<exists>e q. live = segment_id e q \<and> mr_epoch r \<le> e \<and> e \<le> u64_max)"
    and "P w" "run_state (sweep_dead_segments fac pre (sweep_authority r)) w = (rep, w')"
  shows "P w'"
  using keepsD [OF isolated_storage.sweep_keeps [OF assms(1) refl live_not_eligible [OF assms(2)]] assms(4,3)] .

text \<open>A directory with the tail, an orphan of an older incarnation and an object with a foreign name.\<close>

definition sweep_files :: local_world where
  "sweep_files = \<lparr>fs_meta = (\<lambda>obj. if obj \<in> {''p/segments/t'', ''p/segments/0000000000000000-00000000'', ''p/segments/x''}
       then Some \<lparr>om_generation = 1, om_metageneration = 1, om_finalized = False, om_session = 1, om_metadata = protocol_metadata\<rparr>
       else None),
     fs_data = (\<lambda>obj. if obj \<in> {''p/segments/t'', ''p/segments/0000000000000000-00000000'', ''p/segments/x''}
       then Some [0, 0, 0, 4] else None),
     fs_next = 2, lw_session = Map.empty\<rparr>"

definition sweep_storage :: "local_deployment factories" where
  "sweep_storage = deployed_factories (local_factories demo_crc
     [''p/segments/t'', ''p/segments/0000000000000000-00000000'', ''p/segments/x''] (\<lambda>_. None))"

theorem sweep_spares_live_segments_witness:
  "\<exists>rep w'. run_state (sweep_dead_segments sweep_storage ''p'' (sweep_authority demo_follow_record)) (sweep_files, None) = (rep, w')
     \<and> dr_orphan_segments rep = 1 \<and> dr_deleted_objects rep = 1 \<and> fs_data (fst w') ''p/segments/t'' \<noteq> None"
proof -
  obtain rep w' where run: "run_state (sweep_dead_segments sweep_storage ''p'' (sweep_authority demo_follow_record))
      (sweep_files, None) = (rep, w')" by (rule prod.exhaust)
  have "(case run_state (sweep_dead_segments sweep_storage ''p'' (sweep_authority demo_follow_record)) (sweep_files, None) of
      (rep, w') \<Rightarrow> dr_orphan_segments rep = 1 \<and> dr_deleted_objects rep = 1)" by code_simp
  then have "dr_orphan_segments rep = 1 \<and> dr_deleted_objects rep = 1" by (simp add: run)
  moreover have "local_holds (segment_object ''p'' ''t'') [] (fst (sweep_files, None)) 0"
    by (simp add: local_holds_def sweep_files_def segment_object_def)
  from sweep_spares_live_segments [OF local_isolated.isolated_storage_axioms [where c = "[]" and y = 0] _ this
      run [unfolded sweep_storage_def]]
  have "local_holds (segment_object ''p'' ''t'') [] (fst w') 0" by (simp add: demo_follow_record_def)
  ultimately show ?thesis using run by (auto simp: local_holds_def segment_object_def)
qed


lemma raise_trunc_floor:
  assumes "run_state (raise_trunc store mf cl floor) w = ((Inr u, mf1), w1)"
  shows "floor \<le> mr_trunc (mf_record mf1)"
proof -
  from assms obtain mf' w2 where "run_state (cas_transform store PE_ManifestUnavailable (raise_trunc_transform cl floor) mf') w2
      = ((Inr u, mf1), w1)"
    by (auto simp: raise_trunc_def split: prod.splits sum.splits)
  then obtain r out where "raise_trunc_transform cl floor r = Inr out" "mf_record mf1 = settled r out"
    unfolding cas_transform_def by (rule cas_rounds_settled)
  then show ?thesis by (auto simp: raise_trunc_transform_def and_then_Inr_iff split: if_splits)
qed

text \<open>
  C20. Truncation deletes only history below a committed floor.  If a pass loses
  what an object held, then the register had accepted the requested floor for
  the caller's claim, and the object belongs to a directory entry of that very
  record whose range ends at or below its floor.  In particular the tail, the
  pending segment and every segment with a record at or above the floor stay,
  and a fenced or failed floor update deletes nothing.
\<close>

theorem truncation_deletes_only_covered:
  assumes "isolated_storage fac store (segment_object pre i) P"
    and "run_state (truncate_pass fac store pre sealed cf mf cl floor) w = (res, w')" "P w" "\<not> P w'"
  shows "\<exists>mf1 w1 xs e ys. run_state (raise_trunc store mf cl (get_seq floor)) w = ((Inr (), mf1), w1)
    \<and> mr_segments (mf_record mf1) = xs @ e # ys \<and> de_id e = i
    \<and> (case ys of [] \<Rightarrow> mr_tail_base (mf_record mf1) | e' # _ \<Rightarrow> de_base e') \<le> mr_trunc (mf_record mf1)
    \<and> get_seq floor \<le> mr_trunc (mf_record mf1)"
proof -
  obtain mf1 w1 j where r: "run_state (raise_trunc store mf cl (get_seq floor)) w = ((Inr (), mf1), w1)"
      "covered (mf_record mf1) (mr_segments (mf_record mf1)) j" "segment_object pre j = segment_object pre i"
    using assms(2-4) by (rule isolated_storage.truncation_loss [OF assms(1)])
  have "get_seq floor \<le> mr_trunc (mf_record mf1)"
    by (rule raise_trunc_floor [OF r(1)])
  then show ?thesis using r unfolding covered_def by (fastforce simp: segment_object_def)
qed

theorem truncation_deletes_only_covered_witness:
  "\<exists>mf1 w1 xs e ys. run_state (raise_trunc (deployed_store local_manifest_store) boot_handle \<lparr>wc_epoch = 1, wc_owner = ''o''\<rparr> 1)
       boot_world = ((Inr (), mf1), w1)
     \<and> mr_segments (mf_record mf1) = xs @ e # ys \<and> de_id e = ''s'' \<and> 1 \<le> mr_trunc (mf_record mf1)"
proof -
  let ?fac = "deployed_factories (local_factories demo_crc [] (\<lambda>_. None))" and ?store = "deployed_store local_manifest_store"
  let ?run = "run_state (truncate_pass ?fac ?store ''p'' [] 0 boot_handle \<lparr>wc_epoch = 1, wc_owner = ''o''\<rparr> (WalSeqNo 1)) boot_world"
  obtain res w' where run: "?run = (res, w')" by (rule prod.exhaust)
  have "fs_data (fst (snd ?run)) ''p/segments/s'' = None" by code_simp
  then have "fs_data (fst w') ''p/segments/s'' = None" by (simp only: run snd_conv)
  then have gone: "\<not> local_holds (segment_object ''p'' ''s'') [] (fst w') 0"
    by (simp add: local_holds_def segment_object_def)
  have "local_holds (segment_object ''p'' ''s'') [] (fst boot_world) 0"
    by (simp add: local_holds_def boot_world_def boot_files_def demo_files_def segment_object_def)
  from truncation_deletes_only_covered [OF local_isolated.isolated_storage_axioms [where c = "[]" and y = 0] run this gone]
  show ?thesis by auto
qed


text \<open>
  C22. A repair pass writes nothing but verified committed bytes.  Over any
  storage, every conditional write of the pass goes to the object of a segment
  in its work list that is above the floor and not still being sealed, carries
  the format marker, and has contents with the checksum committed in the
  manifest that decode to exactly the records of the segment.
\<close>

theorem repair_writes_verified_bytes:
  assumes "run_state (repair_sealed_pass (recording fac) crc pre segs floor) (w, []) = (res, (w', writes))"
    and "(obj, z, data, m) \<in> set writes"
  shows "valid_format m \<and> (\<exists>seg \<in> set segs. obj = segment_object pre (sd_id seg) \<and> floor \<le> sd_end seg \<and> \<not> sd_seal_pending seg
    \<and> crc data = sd_crc32c seg
    \<and> (\<exists>records. encode_all records = Inr data \<and> sd_base seg + length records = sd_end seg + 1))"
proof -
  have "list_all (verified_write crc pre segs floor) writes"
    using keepsD [OF repair_pass_keeps assms(1)] by simp
  then have "verified_write crc pre segs floor (obj, z, data, m)" using assms(2) by (auto simp: list_all_iff)
  then show ?thesis by (fastforce simp: verified_write_def sealed_content_def)
qed

text \<open>Three directories as three zones, the last one without its copy.\<close>

definition at_zone :: "nat \<Rightarrow> (local_world, 'a) state \<Rightarrow> (nat \<Rightarrow> local_world, 'a) state" where
  "at_zone z m = State (\<lambda>w. case run_state m (w z) of (r, w') \<Rightarrow> (r, w(z := w')))"

definition zonal_ops :: "(bytes \<Rightarrow> nat) \<Rightarrow> string \<Rightarrow> (nat \<Rightarrow> local_world) replica_ops" where
  "zonal_ops crc obj =
     (let ops = local_ops crc obj in
     \<lparr>op_snapshot = (\<lambda>z. at_zone z (op_snapshot ops z)),
      op_read_range = (\<lambda>z off. at_zone z (op_read_range ops z off)),
      op_stat = (\<lambda>z. at_zone z (op_stat ops z)),
      op_create_append_session = (\<lambda>z m. at_zone z (op_create_append_session ops z m)),
      op_resume_tail = (\<lambda>z t. at_zone z (op_resume_tail ops z t)),
      op_takeover = (\<lambda>z s. at_zone z (op_takeover ops z s)),
      op_replace_appendable = (\<lambda>z o1 d m. at_zone z (op_replace_appendable ops z o1 d m)),
      op_lane_send = (\<lambda>z off ms. at_zone z (op_lane_send ops z off ms)),
      op_delete = (\<lambda>z g. at_zone z (op_delete ops z g)),
      op_finalize = (\<lambda>z t off. at_zone z (op_finalize ops z t off))\<rparr>)"

definition zonal_storage :: "(nat \<Rightarrow> local_world) factories" where
  "zonal_storage = \<lparr>fa_count = 3, fa_replicas = zonal_ops demo_crc,
     fa_list = (\<lambda>z pre. at_zone z (fa_list demo_storage z pre))\<rparr>"

definition zonal_files :: "nat \<Rightarrow> local_world" where
  "zonal_files z = (if z < 2 then demo_files else demo_files\<lparr>fs_meta := Map.empty, fs_data := Map.empty\<rparr>)"

theorem repair_writes_verified_bytes_witness:
  "\<exists>res w' obj z data m writes. run_state (repair_sealed_pass (recording zonal_storage) demo_crc ''p''
       [demo_segment\<lparr>sd_seal_pending := False\<rparr>] 0) (zonal_files, []) = (res, (w', (obj, z, data, m) # writes))
     \<and> z = 2 \<and> valid_format m \<and> demo_crc data = 7"
proof -
  let ?run = "run_state (repair_sealed_pass (recording zonal_storage) demo_crc ''p''
       [demo_segment\<lparr>sd_seal_pending := False\<rparr>] 0) (zonal_files, [])"
  have "case ?run of (res, (w', writes)) \<Rightarrow> (case writes of [] \<Rightarrow> False | (obj, z, data, m) # rest \<Rightarrow> z = 2)" by code_simp
  then obtain res w' obj z data m writes where
    run: "?run = (res, (w', (obj, z, data, m) # writes))" and z: "z = 2"
    by (auto split: prod.splits list.splits)
  have "valid_format m" "demo_crc data = 7"
    using repair_writes_verified_bytes [OF run, of obj z data m] by (auto simp: demo_segment_def)
  with run z show ?thesis by blast
qed

end
