(* ===== verification/Lane.thy ===== *)
theory Lane
  imports Local_Backend "HOL-Library.Code_Target_Nat"
begin

text \<open>
  One replica lane of a segment writer, from \<open>protocol.rs\<close> and \<open>grpc.rs\<close>: the
  packing of chunks into wire messages, the byte budget of a lane, the batches
  it retains until they are durable, and the lane task itself.  Every wait on
  the replica or on a timer is answered by an element of a list, so a run is a
  function of the answers; a run whose answers are used up is still waiting.
  Timestamps only feed log lines and the deadline, whose passing is one of the
  answers.
\<close>

section \<open>Wire messages\<close>

record packed_append_message =
  pm_relative_offset :: int
  pm_content :: bytes
  pm_crc32c :: nat

record packed_append =
  pa_messages :: "packed_append_message list"
  pa_len :: nat

definition WIRE_MESSAGE_TARGET_BYTES :: nat where
  "WIRE_MESSAGE_TARGET_BYTES = 262144"

lemma wire_target_pos: "0 < WIRE_MESSAGE_TARGET_BYTES"
  by (simp add: WIRE_MESSAGE_TARGET_BYTES_def)

definition push_message ::
  "(bytes \<Rightarrow> nat) \<Rightarrow> bytes \<Rightarrow> packed_append_message list \<times> int \<Rightarrow> packed_append_message list \<times> int" where
  "push_message crc content s =
     (fst s @ [\<lparr>pm_relative_offset = snd s, pm_content = content, pm_crc32c = crc content\<rparr>],
      snd s + int (length content))"

text \<open>The full-size pieces of a chunk and the rest that is short enough.\<close>

function split_pieces :: "bytes \<Rightarrow> bytes list \<times> bytes" where
  "split_pieces rest =
     (if WIRE_MESSAGE_TARGET_BYTES < length rest
      then case split_pieces (drop WIRE_MESSAGE_TARGET_BYTES rest) of
             (pieces, short) \<Rightarrow> (take WIRE_MESSAGE_TARGET_BYTES rest # pieces, short)
      else ([], rest))"
  by auto
termination by (relation "measure length") (use wire_target_pos in auto)

declare split_pieces.simps [simp del]

definition pack_chunk ::
  "(bytes \<Rightarrow> nat) \<Rightarrow> bytes \<times> packed_append_message list \<times> int \<Rightarrow> bytes \<Rightarrow> bytes \<times> packed_append_message list \<times> int" where
  "pack_chunk crc s chunk =
     (let (packed, ms) = s;
          (packed, ms) = (if packed \<noteq> [] \<and> WIRE_MESSAGE_TARGET_BYTES < length packed + length chunk
                          then ([], push_message crc packed ms) else (packed, ms));
          (pieces, short) = split_pieces chunk
      in (packed @ short, fold (push_message crc) pieces ms))"

definition pack_append :: "(bytes \<Rightarrow> nat) \<Rightarrow> bytes list \<Rightarrow> packed_append" where
  "pack_append crc chunks =
     (let (packed, ms) = foldl (pack_chunk crc) ([], [], 0) chunks;
          ms = (if packed \<noteq> [] then push_message crc packed ms else ms)
      in \<lparr>pa_messages = fst ms, pa_len = sum_list (map length chunks)\<rparr>)"

definition packed_bytes :: "packed_append \<Rightarrow> bytes" where
  "packed_bytes p = concat (map pm_content (pa_messages p))"

text \<open>What a message list under construction satisfies: contents add up, offsets are positions, sizes stay
  within the target.\<close>

definition messages_ok :: "(bytes \<Rightarrow> nat) \<Rightarrow> packed_append_message list \<times> int \<Rightarrow> bytes \<Rightarrow> bool" where
  "messages_ok crc s data \<longleftrightarrow>
     concat (map pm_content (fst s)) = data \<and> snd s = int (length data)
   \<and> (\<forall>i < length (fst s). pm_relative_offset (fst s ! i) = int (length (concat (map pm_content (take i (fst s)))))
        \<and> pm_crc32c (fst s ! i) = crc (pm_content (fst s ! i))
        \<and> pm_content (fst s ! i) \<noteq> [] \<and> length (pm_content (fst s ! i)) \<le> WIRE_MESSAGE_TARGET_BYTES)"

lemma push_message_ok:
  assumes "messages_ok crc s data" "content \<noteq> []" "length content \<le> WIRE_MESSAGE_TARGET_BYTES"
  shows "messages_ok crc (push_message crc content s) (data @ content)"
  using assms by (auto simp: messages_ok_def push_message_def nth_append less_Suc_eq)

lemma push_pieces_ok:
  assumes "messages_ok crc s data" "\<forall>c \<in> set pieces. c \<noteq> [] \<and> length c \<le> WIRE_MESSAGE_TARGET_BYTES"
  shows "messages_ok crc (fold (push_message crc) pieces s) (data @ concat pieces)"
  using assms
proof (induction pieces arbitrary: s data)
  case (Cons c pieces)
  then show ?case using push_message_ok [of crc s data c] Cons.IH [of "push_message crc c s" "data @ c"] by simp
qed simp

lemma split_pieces_ok:
  "split_pieces rest = (pieces, short) \<Longrightarrow>
     concat pieces @ short = rest \<and> length short \<le> WIRE_MESSAGE_TARGET_BYTES
   \<and> (\<forall>c \<in> set pieces. c \<noteq> [] \<and> length c \<le> WIRE_MESSAGE_TARGET_BYTES)
   \<and> (length rest \<le> WIRE_MESSAGE_TARGET_BYTES \<longrightarrow> pieces = [])"
proof (induction rest arbitrary: pieces short rule: split_pieces.induct)
  case (1 rest)
  show ?case
  proof (cases "WIRE_MESSAGE_TARGET_BYTES < length rest")
    case True
    obtain ps sh where r: "split_pieces (drop WIRE_MESSAGE_TARGET_BYTES rest) = (ps, sh)" by (rule prod.exhaust)
    then have "pieces = take WIRE_MESSAGE_TARGET_BYTES rest # ps" "short = sh"
      using 1(2) True by (simp_all add: split_pieces.simps [of rest])
    moreover have "take WIRE_MESSAGE_TARGET_BYTES rest \<noteq> []" using True wire_target_pos by (cases rest) simp_all
    moreover have "concat ps @ sh = drop WIRE_MESSAGE_TARGET_BYTES rest" "length sh \<le> WIRE_MESSAGE_TARGET_BYTES"
        "\<forall>c \<in> set ps. c \<noteq> [] \<and> length c \<le> WIRE_MESSAGE_TARGET_BYTES"
      using 1(1) [OF True r] by blast+
    ultimately show ?thesis using True by auto
  qed (use 1(2) in \<open>simp add: split_pieces.simps [of rest]\<close>)
qed

lemma pack_chunks_ok:
  assumes "messages_ok crc ms done" "length packed \<le> WIRE_MESSAGE_TARGET_BYTES"
    and "foldl (pack_chunk crc) (packed, ms) chunks = (packed', ms')"
  shows "\<exists>done'. messages_ok crc ms' done' \<and> done' @ packed' = done @ packed @ concat chunks
    \<and> length packed' \<le> WIRE_MESSAGE_TARGET_BYTES"
  using assms
proof (induction chunks arbitrary: "done" packed ms)
  case (Cons c chunks)
  obtain pieces short where sp: "split_pieces c = (pieces, short)" by (rule prod.exhaust)
  note c = split_pieces_ok [OF sp]
  let ?flush = "packed \<noteq> [] \<and> WIRE_MESSAGE_TARGET_BYTES < length packed + length c"
  let ?ms = "if ?flush then push_message crc packed ms else ms"
  let ?packed = "if ?flush then [] else packed" and ?done = "if ?flush then done @ packed else done"
  have ok: "messages_ok crc ?ms ?done" using Cons.prems(1,2) push_message_ok by auto
  have step: "pack_chunk crc (packed, ms) c = (?packed @ short, fold (push_message crc) pieces ?ms)"
    by (simp add: pack_chunk_def sp)
  have len: "length (?packed @ short) \<le> WIRE_MESSAGE_TARGET_BYTES"
    using c Cons.prems(2) by (cases "?packed = []") (auto split: if_splits)
  have pieces: "pieces = [] \<or> ?packed = []" using c by auto
  have "foldl (pack_chunk crc) (?packed @ short, fold (push_message crc) pieces ?ms) chunks = (packed', ms')"
    using Cons.prems(3) step by simp
  from Cons.IH [OF push_pieces_ok [OF ok, of pieces] len this] c
  obtain done' where "messages_ok crc ms' done'" "length packed' \<le> WIRE_MESSAGE_TARGET_BYTES"
      "done' @ packed' = (?done @ concat pieces) @ (?packed @ short) @ concat chunks" by auto
  moreover have "(?done @ concat pieces) @ (?packed @ short) @ concat chunks = done @ packed @ concat (c # chunks)"
    using pieces c by (auto split: if_splits)
  ultimately show ?case by auto
qed auto

lemma pack_append_ok:
  "messages_ok crc (pa_messages (pack_append crc chunks), int (pa_len (pack_append crc chunks))) (concat chunks)"
proof -
  obtain packed ms where r: "foldl (pack_chunk crc) ([], [], 0) chunks = (packed, ms)" by (rule prod.exhaust)
  have "messages_ok crc ([], 0) []" by (simp add: messages_ok_def)
  then obtain done' where d: "messages_ok crc ms done'" "done' @ packed = concat chunks"
      "length packed \<le> WIRE_MESSAGE_TARGET_BYTES"
    using pack_chunks_ok [OF _ _ r, of "[]"] by auto
  define ms' where "ms' = (if packed \<noteq> [] then push_message crc packed ms else ms)"
  have "messages_ok crc ms' (concat chunks)"
    using d push_message_ok [OF d(1), of packed] by (cases "packed = []") (auto simp: ms'_def)
  moreover have "pack_append crc chunks = \<lparr>pa_messages = fst ms', pa_len = sum_list (map length chunks)\<rparr>"
    by (simp add: pack_append_def r ms'_def)
  ultimately show ?thesis by (simp add: messages_ok_def length_concat)
qed

lemma packed_bytes_pack [simp]: "packed_bytes (pack_append crc chunks) = concat chunks"
  using pack_append_ok [of crc chunks] by (simp add: messages_ok_def packed_bytes_def)


section \<open>The byte budget of a lane\<close>

record lane_budget =
  lb_outstanding :: nat
  lb_oversized :: bool
  lb_limit :: nat

datatype lane_charge = Ordinary nat | Oversized

definition new_budget :: lane_budget where
  "new_budget = \<lparr>lb_outstanding = 0, lb_oversized = False, lb_limit = usize_max\<rparr>"

definition set_limit :: "nat \<Rightarrow> lane_budget \<Rightarrow> lane_budget" where
  "set_limit limit b = b\<lparr>lb_limit := limit\<rparr>"

definition try_reserve :: "nat \<Rightarrow> bool \<Rightarrow> lane_budget \<Rightarrow> (lane_charge \<times> lane_budget) option" where
  "try_reserve n oversized_record b =
     (if lb_limit b < n
      then if \<not> oversized_record \<or> lb_oversized b then None else Some (Oversized, b\<lparr>lb_oversized := True\<rparr>)
      else case checked_add usize_max (lb_outstanding b) n of
             None \<Rightarrow> None
           | Some reserved \<Rightarrow> if lb_limit b < reserved then None else Some (Ordinary n, b\<lparr>lb_outstanding := reserved\<rparr>))"

text \<open>\<open>drop\<close> of a reservation; \<open>fetch_sub\<close> wraps.\<close>

fun release :: "lane_charge \<Rightarrow> lane_budget \<Rightarrow> lane_budget" where
  "release (Ordinary n) b = b\<lparr>lb_outstanding := (lb_outstanding b + (usize_max + 1 - n)) mod (usize_max + 1)\<rparr>"
| "release Oversized b = b\<lparr>lb_oversized := False\<rparr>"

lemma release_reserve:
  "try_reserve n os b = Some (ch, b') \<Longrightarrow> release ch b' = b"
proof (cases ch)
  case (Ordinary k)
  assume r: "try_reserve n os b = Some (ch, b')"
  then have k: "k = n" "b' = b\<lparr>lb_outstanding := lb_outstanding b + n\<rparr>" "lb_outstanding b + n \<le> usize_max"
    using Ordinary by (auto simp: try_reserve_def result_simps split: if_splits option.splits)
  have "lb_outstanding b + n + (usize_max + 1 - n) = lb_outstanding b + (usize_max + 1)" using k(3) by simp
  then have "(lb_outstanding b + n + (usize_max + 1 - n)) mod (usize_max + 1) = lb_outstanding b"
    using k(3) by (metis add_leD1 le_imp_less_Suc mod_add_self2 mod_less Suc_eq_plus1)
  then have "release ch b' = b\<lparr>lb_outstanding := lb_outstanding b\<rparr>" unfolding k(1,2) Ordinary by (simp only: release.simps) simp
  then show ?thesis by simp
qed (auto simp: try_reserve_def split: if_splits option.splits)


section \<open>Batches\<close>

record batch_descriptor =
  bd_start :: int
  bd_chunks :: "bytes list"
  bd_boundaries :: "int list"

definition bd_end :: "batch_descriptor \<Rightarrow> int" where
  "bd_end b = last (bd_boundaries b)"

record retained_batch =
  rb_batch :: batch_descriptor
  rb_next_chunk :: nat

definition into_retained :: "batch_descriptor \<Rightarrow> retained_batch" where
  "into_retained b = \<lparr>rb_batch = b, rb_next_chunk = 0\<rparr>"

definition packed_group :: "(bytes \<Rightarrow> nat) \<Rightarrow> batch_descriptor list \<Rightarrow> packed_append" where
  "packed_group crc batches = pack_append crc (concat (map bd_chunks batches))"

text \<open>\<open>partition_point\<close>: the length of the prefix that satisfies the predicate.\<close>

definition partition_point :: "('a \<Rightarrow> bool) \<Rightarrow> 'a list \<Rightarrow> nat" where
  "partition_point P xs = length (takeWhile P xs)"

fun ack_through :: "int \<Rightarrow> retained_batch list \<Rightarrow> retained_batch list" where
  "ack_through durable [] = []"
| "ack_through durable (b # rest) =
     (let cursor = max (partition_point (\<lambda>boundary. boundary \<le> durable) (bd_boundaries (rb_batch b))) (rb_next_chunk b)
      in if cursor = length (bd_chunks (rb_batch b)) then ack_through durable rest
         else b\<lparr>rb_next_chunk := cursor\<rparr> # rest)"

definition retained_chunk_count :: "retained_batch list \<Rightarrow> nat" where
  "retained_chunk_count retained = sum_list (map (\<lambda>b. length (bd_chunks (rb_batch b)) - rb_next_chunk b) retained)"


section \<open>The lane task\<close>

datatype lane_death = LD_Stalled | LD_Transport transport_error

datatype lane_progress =
    LP_Advanced lane_durable_change
  | LP_Stalled
  | LP_Failed transport_error

definition MAX_OUTSTANDING_FLUSHES :: nat where
  "MAX_OUTSTANDING_FLUSHES = 2"

definition LANE_UNFLUSHED_SEND_BYTES :: int where
  "LANE_UNFLUSHED_SEND_BYTES = 1048576"

record lane_runtime =
  ln_token :: append_token
  ln_durable :: int
  ln_retained :: "retained_batch list"
  ln_held :: "batch_descriptor list"
  ln_held_bytes :: int
  ln_flushes :: "int list"
  ln_monitor_session :: bool

definition new_lane :: "append_token \<Rightarrow> lane_runtime" where
  "new_lane token = \<lparr>ln_token = token, ln_durable = tk_persisted_size token, ln_retained = [], ln_held = [],
     ln_held_bytes = 0, ln_flushes = [], ln_monitor_session = True\<rparr>"

text \<open>What a lane does to its replica and to the commit tracker.\<close>

datatype lane_output =
    Out_Send int packed_append bool
  | Out_Flush int
  | Out_Track tracker_event

text \<open>What \<open>lane_progress\<close> observes: an answer of the durable-tail stream, with whether it came before
  the stall deadline, or the deadline itself.\<close>

datatype lane_observation = Obs_Change "transport_error + lane_durable_change" bool | Obs_Deadline

text \<open>What a lane waits for: the answer of a call, the end of a sleep, or its deadline, after which the
  durable-tail stream is observed once more.  A resume that its deadline cuts off may have changed the token.\<close>

datatype lane_answer =
    Ans_Resumed "(transport_error + int) \<times> append_token"
  | Ans_Sent "transport_error + unit"
  | Ans_Slept
  | Ans_Deadline "lane_observation list"
  | Ans_Resume_Cut append_token "lane_observation list"

datatype 'a lane_outcome = Lane_Value 'a | Lane_Died lane_death | Lane_Waiting | Lane_Panic

type_synonym 'a lane_run =
  "lane_answer list \<Rightarrow> lane_runtime \<Rightarrow> 'a lane_outcome \<times> lane_runtime \<times> lane_output list \<times> lane_answer list"

definition lane_return :: "'a \<Rightarrow> 'a lane_run" where
  "lane_return x answers ln = (Lane_Value x, ln, [], answers)"

definition lane_die :: "lane_death \<Rightarrow> 'a lane_run" where
  "lane_die d answers ln = (Lane_Died d, ln, [], answers)"

definition lane_panic :: "'a lane_run" where
  "lane_panic answers ln = (Lane_Panic, ln, [], answers)"

definition lane_wait :: "'a lane_run" where
  "lane_wait answers ln = (Lane_Waiting, ln, [], answers)"

definition lane_then :: "'a lane_run \<Rightarrow> ('a \<Rightarrow> 'b lane_run) \<Rightarrow> 'b lane_run" where
  "lane_then m f answers ln =
     (case m answers ln of
        (Lane_Value x, ln1, out1, answers1) \<Rightarrow>
          (case f x answers1 ln1 of (r, ln2, out2, answers2) \<Rightarrow> (r, ln2, out1 @ out2, answers2))
      | (Lane_Died d, ln1, out1, answers1) \<Rightarrow> (Lane_Died d, ln1, out1, answers1)
      | (Lane_Waiting, ln1, out1, answers1) \<Rightarrow> (Lane_Waiting, ln1, out1, answers1)
      | (Lane_Panic, ln1, out1, answers1) \<Rightarrow> (Lane_Panic, ln1, out1, answers1))"

definition lane_modify :: "(lane_runtime \<Rightarrow> lane_runtime) \<Rightarrow> unit lane_run" where
  "lane_modify f answers ln = (Lane_Value (), f ln, [], answers)"

definition lane_read :: "(lane_runtime \<Rightarrow> 'a) \<Rightarrow> 'a lane_run" where
  "lane_read f answers ln = (Lane_Value (f ln), ln, [], answers)"

definition lane_emit :: "lane_output \<Rightarrow> unit lane_run" where
  "lane_emit o1 answers ln = (Lane_Value (), ln, [o1], answers)"

definition lane_answer :: "lane_answer lane_run" where
  "lane_answer answers ln =
     (case answers of [] \<Rightarrow> (Lane_Waiting, ln, [], []) | a # rest \<Rightarrow> (Lane_Value a, ln, [], rest))"

definition zone_of :: "lane_runtime \<Rightarrow> nat" where
  "zone_of ln = tk_zone (ln_token ln)"

text \<open>\<open>sent_end\<close>: the end offset of the bytes written to the session.\<close>

definition sent_end :: "lane_runtime \<Rightarrow> int" where
  "sent_end ln = max (if ln_retained ln = [] then ln_durable ln else bd_end (rb_batch (last (ln_retained ln)))) (ln_durable ln)"

definition hold :: "batch_descriptor \<Rightarrow> lane_runtime \<Rightarrow> lane_runtime" where
  "hold b ln = ln\<lparr>ln_held_bytes := ln_held_bytes ln + (bd_end b - bd_start b), ln_held := ln_held ln @ [b]\<rparr>"

definition publish_lane_progress :: "int \<Rightarrow> unit lane_run" where
  "publish_lane_progress tail =
     lane_then (lane_modify (\<lambda>ln. let durable = max (ln_durable ln) tail
       in ln\<lparr>ln_durable := durable, ln_retained := ack_through durable (ln_retained ln)\<rparr>)) (\<lambda>_.
     lane_then (lane_read (\<lambda>ln. Durable (zone_of ln) (ln_durable ln))) (\<lambda>e. lane_emit (Out_Track e)))"

definition publish_advance :: "lane_durable_change \<Rightarrow> bool lane_run" where
  "publish_advance change =
     lane_then (publish_lane_progress (ldc_persisted_size change)) (\<lambda>_.
       case ldc_error change of
         None \<Rightarrow> lane_return False
       | Some e \<Rightarrow> if transient (te_code e) then lane_return True else lane_die (LD_Transport e))"

text \<open>The loop of \<open>lane_progress\<close> over what it observes; \<open>None\<close> when it still waits.\<close>

fun observe_progress :: "int \<Rightarrow> bool \<Rightarrow> lane_observation list \<Rightarrow> lane_progress option" where
  "observe_progress seen active [] = None"
| "observe_progress seen active (Obs_Deadline # rest) =
     (if active then Some LP_Stalled else observe_progress seen active rest)"
| "observe_progress seen active (Obs_Change (Inl e) early # rest) = Some (LP_Failed e)"
| "observe_progress seen active (Obs_Change (Inr change) early # rest) =
     (if seen < ldc_persisted_size change then Some (LP_Advanced change)
      else if \<not> active \<or> early then observe_progress seen active rest else Some LP_Stalled)"

definition lane_progress :: "bool \<Rightarrow> lane_observation list \<Rightarrow> lane_progress lane_run" where
  "lane_progress active obs =
     lane_then (lane_read ln_durable) (\<lambda>seen.
       case observe_progress seen active obs of None \<Rightarrow> lane_wait | Some p \<Rightarrow> lane_return p)"

definition confirm_lane_stall :: "lane_observation list \<Rightarrow> lane_durable_change lane_run" where
  "confirm_lane_stall obs =
     lane_then (lane_progress True obs) (\<lambda>p. case p of
        LP_Advanced change \<Rightarrow> lane_return change
      | LP_Stalled \<Rightarrow> lane_die LD_Stalled
      | LP_Failed e \<Rightarrow> if transient (te_code e) then lane_die LD_Stalled else lane_die (LD_Transport e))"

definition confirm_timeout :: "lane_observation list \<Rightarrow> bool lane_run" where
  "confirm_timeout obs =
     lane_then (confirm_lane_stall obs) (\<lambda>change.
     lane_then (publish_advance change) (\<lambda>stream_failed.
     lane_read (\<lambda>ln. stream_failed \<or> ln_retained ln \<noteq> [])))"

text \<open>Where chunk \<open>i\<close> of a batch starts.\<close>

definition chunk_start :: "batch_descriptor \<Rightarrow> nat \<Rightarrow> int" where
  "chunk_start b i = (if i = 0 then bd_start b else bd_boundaries b ! (i - 1))"

text \<open>The offset and the bytes of every retained chunk that is not yet durable.\<close>

definition pending_chunks :: "retained_batch list \<Rightarrow> (int \<times> bytes) list" where
  "pending_chunks retained = concat (map (\<lambda>b. map (\<lambda>i.
       (chunk_start (rb_batch b) i, bd_chunks (rb_batch b) ! i))
     [rb_next_chunk b..<length (bd_chunks (rb_batch b))]) retained)"

fun resend_suffix :: "int \<Rightarrow> (int \<times> bytes) list \<Rightarrow> bytes list" where
  "resend_suffix durable [] = []"
| "resend_suffix durable ((offset, chunk) # rest) =
     (let skip = nat (max (durable - offset) 0)
      in if length chunk \<le> skip then resend_suffix durable rest else drop skip chunk # map snd rest)"

text \<open>One attempt of \<open>recover\<close>; the result says whether the lane is recovered.  The backoff ends with the
  sleep or with the deadline.\<close>

definition recovery_backoff :: "bool lane_run" where
  "recovery_backoff =
     lane_then lane_answer (\<lambda>a. case a of
       Ans_Slept \<Rightarrow> lane_return True
     | Ans_Deadline obs \<Rightarrow> confirm_timeout obs
     | _ \<Rightarrow> lane_wait)"

definition again_if :: "bool lane_run \<Rightarrow> bool lane_run" where
  "again_if m = lane_then m (\<lambda>again. lane_return (\<not> again))"

definition resend_sent :: "packed_append \<Rightarrow> bool lane_run" where
  "resend_sent packed =
     lane_then lane_answer (\<lambda>a. case a of
       Ans_Sent (Inr _) \<Rightarrow>
         lane_then (lane_modify (\<lambda>ln. ln\<lparr>ln_flushes := [ln_durable ln + int (pa_len packed)]\<rparr>)) (\<lambda>_. lane_return True)
     | Ans_Sent (Inl e) \<Rightarrow>
         if transient (te_code e) then again_if recovery_backoff else lane_die (LD_Transport e)
     | Ans_Deadline obs \<Rightarrow> again_if (confirm_timeout obs)
     | _ \<Rightarrow> lane_wait)"

definition resend :: "(bytes \<Rightarrow> nat) \<Rightarrow> bool lane_run" where
  "resend crc =
     lane_then (lane_read (\<lambda>ln. (ln_durable ln, resend_suffix (ln_durable ln) (pending_chunks (ln_retained ln))))) (\<lambda>(durable, suffix).
       if suffix = [] then lane_then (lane_modify (\<lambda>ln. ln\<lparr>ln_flushes := []\<rparr>)) (\<lambda>_. lane_return True)
       else let packed = pack_append crc suffix in
         lane_then (lane_emit (Out_Send durable packed True)) (\<lambda>_. resend_sent packed))"

definition recover_attempt :: "(bytes \<Rightarrow> nat) \<Rightarrow> bool lane_run" where
  "recover_attempt crc =
     lane_then lane_answer (\<lambda>a. case a of
       Ans_Resume_Cut token obs \<Rightarrow>
         lane_then (lane_modify (\<lambda>ln. ln\<lparr>ln_token := token\<rparr>)) (\<lambda>_. again_if (confirm_timeout obs))
     | Ans_Resumed (r, token) \<Rightarrow>
         lane_then (lane_modify (\<lambda>ln. ln\<lparr>ln_token := token\<rparr>)) (\<lambda>_.
           case r of
             Inr tail \<Rightarrow> lane_then (publish_lane_progress tail) (\<lambda>_. resend crc)
           | Inl e \<Rightarrow> if transient (te_code e) then again_if recovery_backoff else lane_die (LD_Transport e))
     | _ \<Rightarrow> lane_wait)"

text \<open>The loop of \<open>recover\<close>.  Every attempt consumes an answer, so the bound is never reached
  (\<open>lane_recover_ok\<close>: no run panics).\<close>

fun recover_attempts :: "(bytes \<Rightarrow> nat) \<Rightarrow> nat \<Rightarrow> unit lane_run" where
  "recover_attempts crc 0 = lane_panic"
| "recover_attempts crc (Suc left) =
     lane_then (recover_attempt crc) (\<lambda>recovered.
       if recovered then lane_return () else recover_attempts crc left)"

definition lane_recover :: "(bytes \<Rightarrow> nat) \<Rightarrow> unit lane_run" where
  "lane_recover crc answers ln = recover_attempts crc (Suc (length answers)) answers ln"

text \<open>Whether a call failed; a call that meets the deadline is judged by the durable-tail stream.\<close>

definition call_failed :: "bool lane_run" where
  "call_failed =
     lane_then lane_answer (\<lambda>a. case a of
       Ans_Sent r \<Rightarrow> lane_return (case r of Inl _ \<Rightarrow> True | Inr _ \<Rightarrow> False)
     | Ans_Deadline obs \<Rightarrow> confirm_timeout obs
     | _ \<Rightarrow> lane_wait)"

definition stage :: "(bytes \<Rightarrow> nat) \<Rightarrow> batch_descriptor list \<Rightarrow> bool \<Rightarrow> unit lane_run" where
  "stage crc batches flush =
     lane_then (lane_modify (\<lambda>ln. ln\<lparr>ln_retained := ln_retained ln @ map into_retained batches\<rparr>)) (\<lambda>_.
     lane_then (lane_emit (Out_Send (bd_start (hd batches)) (packed_group crc batches) flush)) (\<lambda>_.
     lane_then call_failed (\<lambda>failed.
     lane_then (lane_modify (\<lambda>ln. if flush then ln\<lparr>ln_flushes := ln_flushes ln @ [bd_end (last batches)]\<rparr> else ln)) (\<lambda>_.
     if failed then lane_recover crc else lane_return ()))))"

text \<open>The number of batches an unflushed write takes; indexing past the held batches panics.\<close>

fun unflushed_prefix :: "int \<Rightarrow> batch_descriptor list \<Rightarrow> nat option" where
  "unflushed_prefix n held =
     (if n < LANE_UNFLUSHED_SEND_BYTES
      then case held of
             [] \<Rightarrow> None
           | b # rest \<Rightarrow> map_option Suc (unflushed_prefix (n + (bd_end b - bd_start b)) rest)
      else Some 0)"

declare unflushed_prefix.simps [simp del]

definition batch_bytes :: "batch_descriptor list \<Rightarrow> int" where
  "batch_bytes bs = sum_list (map (\<lambda>b. bd_end b - bd_start b) bs)"

text \<open>The loop of unflushed writes; every round takes a held batch.\<close>

fun send_unflushed :: "(bytes \<Rightarrow> nat) \<Rightarrow> nat \<Rightarrow> unit lane_run" where
  "send_unflushed crc 0 = lane_panic"
| "send_unflushed crc (Suc left) =
     lane_then (lane_read (\<lambda>ln. (ln_held_bytes ln, ln_held ln))) (\<lambda>(held_bytes, held).
       if held_bytes < LANE_UNFLUSHED_SEND_BYTES then lane_return ()
       else case unflushed_prefix 0 held of
         None \<Rightarrow> lane_panic
       | Some k \<Rightarrow>
           lane_then (lane_modify (\<lambda>ln. ln\<lparr>ln_held := drop k held, ln_held_bytes := held_bytes - batch_bytes (take k held)\<rparr>)) (\<lambda>_.
           lane_then (stage crc (take k held) False) (\<lambda>_. send_unflushed crc left)))"

definition flush_sent :: "(bytes \<Rightarrow> nat) \<Rightarrow> unit lane_run" where
  "flush_sent crc =
     lane_then (lane_read (\<lambda>ln. (sent_end ln, if ln_flushes ln = [] then ln_durable ln else last (ln_flushes ln)))) (\<lambda>(e, flushed_through).
       if e \<le> flushed_through then lane_return ()
       else lane_then (lane_emit (Out_Flush e)) (\<lambda>_.
            lane_then call_failed (\<lambda>failed.
            lane_then (lane_modify (\<lambda>ln. ln\<lparr>ln_flushes := ln_flushes ln @ [e]\<rparr>)) (\<lambda>_.
            if failed then lane_recover crc else lane_return ()))))"

definition dispatch :: "(bytes \<Rightarrow> nat) \<Rightarrow> unit lane_run" where
  "dispatch crc =
     lane_then (lane_modify (\<lambda>ln. ln\<lparr>ln_flushes := dropWhile (\<lambda>e. e \<le> ln_durable ln) (ln_flushes ln)\<rparr>)) (\<lambda>_.
     lane_then (lane_read (\<lambda>ln. (length (ln_flushes ln), ln_held ln))) (\<lambda>(outstanding, held).
       if outstanding < MAX_OUTSTANDING_FLUSHES then
         (if held \<noteq> []
          then lane_then (lane_modify (\<lambda>ln. ln\<lparr>ln_held := [], ln_held_bytes := 0\<rparr>)) (\<lambda>_. stage crc held True)
          else flush_sent crc)
       else send_unflushed crc (Suc (length held))))"

text \<open>What the lane's select loop meets: an observation list of the durable tail, a batch with the queue
  behind it and whether the channel was found closed while draining it, or the closed channel.\<close>

datatype lane_event =
    Ev_Progress "lane_observation list"
  | Ev_Work batch_descriptor "batch_descriptor list" bool
  | Ev_Closed

definition set_monitor :: "bool \<Rightarrow> unit lane_run" where
  "set_monitor m = lane_modify (\<lambda>ln. ln\<lparr>ln_monitor_session := m\<rparr>)"

definition on_progress :: "(bytes \<Rightarrow> nat) \<Rightarrow> lane_progress \<Rightarrow> unit lane_run" where
  "on_progress crc p =
     (case p of
        LP_Advanced change \<Rightarrow>
          lane_then (publish_advance change) (\<lambda>failed.
          lane_then (if failed then lane_recover crc else lane_return ()) (\<lambda>_.
          lane_then (set_monitor True) (\<lambda>_. dispatch crc)))
      | LP_Stalled \<Rightarrow> lane_die LD_Stalled
      | LP_Failed e \<Rightarrow>
          if \<not> transient (te_code e) then lane_die (LD_Transport e)
          else lane_then (set_monitor False) (\<lambda>_.
               lane_then (lane_read (\<lambda>ln. ln_retained ln = [] \<and> ln_held ln = [])) (\<lambda>idle.
               if idle then lane_return ()
               else lane_then (lane_recover crc) (\<lambda>_.
                    lane_then (set_monitor True) (\<lambda>_. dispatch crc)))))"

text \<open>One round of the loop; the result is whether the work channel is closed.  An arm whose guard is off
  is not polled: its event leaves the lane waiting.\<close>

definition lane_round :: "(bytes \<Rightarrow> nat) \<Rightarrow> bool \<Rightarrow> lane_event \<Rightarrow> bool lane_run" where
  "lane_round crc closed event =
     (case event of
        Ev_Progress obs \<Rightarrow>
          lane_then (lane_read (\<lambda>ln. (ln_monitor_session ln \<or> ln_retained ln \<noteq> [], ln_retained ln \<noteq> []))) (\<lambda>(enabled, active).
            if \<not> enabled then lane_wait
            else lane_then (lane_progress active obs) (\<lambda>p.
                 lane_then (on_progress crc p) (\<lambda>_. lane_return closed)))
      | Ev_Work b queued disconnected \<Rightarrow>
          if closed then lane_wait
          else lane_then (lane_modify (fold hold (b # queued))) (\<lambda>_.
               lane_then (dispatch crc) (\<lambda>_.
               lane_then (set_monitor True) (\<lambda>_. lane_return disconnected)))
      | Ev_Closed \<Rightarrow> if closed then lane_wait else lane_return True)"

fun lane_loop :: "(bytes \<Rightarrow> nat) \<Rightarrow> bool \<Rightarrow> lane_event list \<Rightarrow> unit lane_run" where
  "lane_loop crc closed events =
     lane_then (lane_read (\<lambda>ln. closed \<and> ln_retained ln = [] \<and> ln_held ln = [])) (\<lambda>drained.
       if drained then lane_return ()
       else case events of
         [] \<Rightarrow> lane_wait
       | event # rest \<Rightarrow> lane_then (lane_round crc closed event) (\<lambda>closed'. lane_loop crc closed' rest))"

declare lane_loop.simps [simp del]

text \<open>\<open>run_lane\<close>: the token of a drained lane, none of a dead one, and what the lane did; no result while
  it still runs.\<close>

definition run_lane ::
  "(bytes \<Rightarrow> nat) \<Rightarrow> append_token \<Rightarrow> lane_event list \<Rightarrow> lane_answer list \<Rightarrow> append_token option lane_outcome \<times> lane_output list" where
  "run_lane crc token events answers =
     (case lane_loop crc False events answers (new_lane token) of
        (Lane_Value _, ln, out, _) \<Rightarrow>
          (Lane_Value (Some ((ln_token ln)\<lparr>tk_persisted_size := ln_durable ln\<rparr>)), out @ [Out_Track (Finish (zone_of ln) None)])
      | (Lane_Died LD_Stalled, ln, out, _) \<Rightarrow> (Lane_Value None, out @ [Out_Track (Finish (zone_of ln) None)])
      | (Lane_Died (LD_Transport e), ln, out, _) \<Rightarrow> (Lane_Value None, out @ [Out_Track (Finish (zone_of ln) (Some e))])
      | (Lane_Waiting, ln, out, _) \<Rightarrow> (Lane_Waiting, out)
      | (Lane_Panic, ln, out, _) \<Rightarrow> (Lane_Panic, out))"


section \<open>Reasoning about lane runs\<close>

text \<open>A run started where \<open>P\<close> holds of the number of answers left and the lane only makes outputs that
  satisfy \<open>G\<close>, never panics, and returns a value only where \<open>Q\<close> holds.\<close>

definition lane_ok ::
  "(nat \<Rightarrow> lane_runtime \<Rightarrow> bool) \<Rightarrow> 'a lane_run \<Rightarrow> ('a \<Rightarrow> nat \<Rightarrow> lane_runtime \<Rightarrow> bool) \<Rightarrow> (lane_output \<Rightarrow> bool) \<Rightarrow> bool" where
  "lane_ok P m Q G \<longleftrightarrow>
     (\<forall>answers ln. P (length answers) ln \<longrightarrow>
        (case m answers ln of (r, ln', out, rest) \<Rightarrow>
           (\<forall>o1 \<in> set out. G o1)
         \<and> (case r of Lane_Value x \<Rightarrow> Q x (length rest) ln' | Lane_Panic \<Rightarrow> False | _ \<Rightarrow> True)))"

lemma lane_ok_then:
  assumes m: "lane_ok P m R G" and f: "\<And>x. lane_ok (R x) (f x) Q G"
  shows "lane_ok P (lane_then m f) Q G"
  unfolding lane_ok_def
proof (intro allI impI)
  fix answers :: "lane_answer list" and ln
  assume P: "P (length answers) ln"
  obtain r ln1 out1 ans1 where r: "m answers ln = (r, ln1, out1, ans1)" by (metis prod.collapse)
  note mr = m [unfolded lane_ok_def, rule_format, OF P, unfolded r prod.case]
  show "case lane_then m f answers ln of (r, ln', out, rest) \<Rightarrow> (\<forall>o1 \<in> set out. G o1)
      \<and> (case r of Lane_Value x \<Rightarrow> Q x (length rest) ln' | Lane_Panic \<Rightarrow> False | _ \<Rightarrow> True)"
  proof (cases r)
    case (Lane_Value x)
    obtain r2 ln2 out2 ans2 where r2: "f x ans1 ln1 = (r2, ln2, out2, ans2)" by (metis prod.collapse)
    have "R x (length ans1) ln1" using mr Lane_Value by simp
    note fr = f [of x, unfolded lane_ok_def, rule_format, OF this, unfolded r2 prod.case]
    show ?thesis using mr fr Lane_Value by (auto simp: lane_then_def r r2)
  qed (use mr in \<open>auto simp: lane_then_def r\<close>)
qed

lemma lane_ok_return: "(\<And>n ln. P n ln \<Longrightarrow> Q x n ln) \<Longrightarrow> lane_ok P (lane_return x) Q G"
  by (simp add: lane_ok_def lane_return_def)

lemma lane_ok_die: "lane_ok P (lane_die d) Q G"
  by (simp add: lane_ok_def lane_die_def)

lemma lane_ok_wait: "lane_ok P lane_wait Q G"
  by (simp add: lane_ok_def lane_wait_def)

lemma lane_ok_panic: "(\<And>n ln. \<not> P n ln) \<Longrightarrow> lane_ok P lane_panic Q G"
  by (simp add: lane_ok_def)

lemma lane_ok_modify: "(\<And>n ln. P n ln \<Longrightarrow> Q () n (f ln)) \<Longrightarrow> lane_ok P (lane_modify f) Q G"
  by (simp add: lane_ok_def lane_modify_def)

lemma lane_ok_read: "(\<And>n ln. P n ln \<Longrightarrow> Q (f ln) n ln) \<Longrightarrow> lane_ok P (lane_read f) Q G"
  by (simp add: lane_ok_def lane_read_def)

lemma lane_ok_read_eq: "lane_ok P (lane_read f) (\<lambda>x n ln. P n ln \<and> x = f ln) G"
  by (simp add: lane_ok_def lane_read_def)

lemma lane_ok_emit: "(\<And>n ln. P n ln \<Longrightarrow> G o1 \<and> Q () n ln) \<Longrightarrow> lane_ok P (lane_emit o1) Q G"
  by (simp add: lane_ok_def lane_emit_def)

lemma lane_ok_weaken:
  assumes "lane_ok P m Q G" "\<And>n ln. P' n ln \<Longrightarrow> P n ln" "\<And>x n ln. Q x n ln \<Longrightarrow> Q' x n ln"
  shows "lane_ok P' m Q' G"
  unfolding lane_ok_def
proof (intro allI impI)
  fix answers :: "lane_answer list" and ln
  assume "P' (length answers) ln"
  then have P: "P (length answers) ln" by (rule assms(2))
  obtain r ln' out rest where r: "m answers ln = (r, ln', out, rest)" by (metis prod.collapse)
  show "case m answers ln of (r, ln', out, rest) \<Rightarrow> (\<forall>o1 \<in> set out. G o1)
      \<and> (case r of Lane_Value x \<Rightarrow> Q' x (length rest) ln' | Lane_Panic \<Rightarrow> False | _ \<Rightarrow> True)"
    using assms(1) [unfolded lane_ok_def, rule_format, OF P] assms(3) unfolding r by (cases r) simp_all
qed

lemma lane_ok_pre: "lane_ok P m Q G \<Longrightarrow> (\<And>n ln. P' n ln \<Longrightarrow> P n ln) \<Longrightarrow> lane_ok P' m Q G"
  by (rule lane_ok_weaken)

text \<open>\<open>within k I\<close>: at most \<open>k\<close> answers are left and the lane satisfies \<open>I\<close>.\<close>

definition within :: "nat \<Rightarrow> (lane_runtime \<Rightarrow> bool) \<Rightarrow> nat \<Rightarrow> lane_runtime \<Rightarrow> bool" where
  "within k I n ln \<longleftrightarrow> n \<le> k \<and> I ln"

lemma lane_ok_answer: "lane_ok (within k I) lane_answer (\<lambda>_. within (k - 1) (\<lambda>ln. 0 < k \<and> I ln)) G"
  by (auto simp: lane_ok_def lane_answer_def within_def split: list.splits)


section \<open>Every send writes the admitted bytes\<close>

text \<open>\<open>written S at data\<close>: \<open>data\<close> is what the admitted stream \<open>S\<close> holds at offset \<open>at\<close>.\<close>

definition written :: "bytes \<Rightarrow> int \<Rightarrow> bytes \<Rightarrow> bool" where
  "written S at data \<longleftrightarrow> 0 \<le> at \<and> take (length data) (drop (nat at) S) = data"

fun chunk_ends :: "int \<Rightarrow> bytes list \<Rightarrow> int list" where
  "chunk_ends at [] = []"
| "chunk_ends at (c # cs) = (at + int (length c)) # chunk_ends (at + int (length c)) cs"

definition batch_ok :: "bytes \<Rightarrow> batch_descriptor \<Rightarrow> bool" where
  "batch_ok S b \<longleftrightarrow> bd_chunks b \<noteq> [] \<and> bd_boundaries b = chunk_ends (bd_start b) (bd_chunks b)
     \<and> written S (bd_start b) (concat (bd_chunks b))"

text \<open>Batches that follow each other from one offset to another.\<close>

fun batches_span :: "bytes \<Rightarrow> int \<Rightarrow> batch_descriptor list \<Rightarrow> int \<Rightarrow> bool" where
  "batches_span S a [] e \<longleftrightarrow> a = e"
| "batches_span S a (b # bs) e \<longleftrightarrow> batch_ok S b \<and> bd_start b = a \<and> batches_span S (bd_end b) bs e"

fun retained_span :: "bytes \<Rightarrow> int \<Rightarrow> retained_batch list \<Rightarrow> int \<Rightarrow> bool" where
  "retained_span S a [] e \<longleftrightarrow> a = e"
| "retained_span S a (r # rs) e \<longleftrightarrow>
     batch_ok S (rb_batch r) \<and> rb_next_chunk r \<le> length (bd_chunks (rb_batch r))
   \<and> chunk_start (rb_batch r) (rb_next_chunk r) = a \<and> retained_span S (bd_end (rb_batch r)) rs e"

lemma take_append_take_eq:
  "take (length x) xs @ take (length y) ys = x @ y \<longleftrightarrow> take (length x) xs = x \<and> take (length y) ys = y"
proof
  assume eq: "take (length x) xs @ take (length y) ys = x @ y"
  have "length (take (length x) xs @ take (length y) ys) = length x + length y" unfolding eq by simp
  then have "length (take (length x) xs) = length x" by simp
  then show "take (length x) xs = x \<and> take (length y) ys = y" 
    using append_eq_append_conv [THEN iffD1, OF disjI1, OF _ eq] by blast
qed simp

lemma written_append:
  "written S at (x @ y) \<longleftrightarrow> written S at x \<and> written S (at + int (length x)) y"
  by (auto simp: written_def take_add take_append_take_eq nat_add_distrib add.commute)

lemma written_drop: "written S at data \<Longrightarrow> n \<le> length data \<Longrightarrow> written S (at + int n) (drop n data)"
  using written_append [of S at "take n data" "drop n data"] by simp

lemma length_chunk_ends [simp]: "length (chunk_ends at cs) = length cs"
  by (induction cs arbitrary: at) simp_all

lemma chunk_ends_nth: "i < length cs \<Longrightarrow> chunk_ends at cs ! i = at + int (length (concat (take (Suc i) cs)))"
proof (induction cs arbitrary: at i)
  case (Cons c cs)
  then show ?case by (cases i) simp_all
qed simp

lemma batch_start_end:
  assumes "batch_ok S b"
  shows "i \<le> length (bd_chunks b) \<Longrightarrow> chunk_start b i = bd_start b + int (length (concat (take i (bd_chunks b))))"
    and "bd_end b = bd_start b + int (length (concat (bd_chunks b)))"
    and "chunk_start b (length (bd_chunks b)) = bd_end b"
proof -
  have ok: "bd_boundaries b = chunk_ends (bd_start b) (bd_chunks b)" "bd_chunks b \<noteq> []"
    using assms by (auto simp: batch_ok_def)
  show *: "chunk_start b i = bd_start b + int (length (concat (take i (bd_chunks b))))"
    if "i \<le> length (bd_chunks b)" for i
    using that ok by (cases i) (auto simp: chunk_start_def chunk_ends_nth)
  show e: "chunk_start b (length (bd_chunks b)) = bd_end b"
  proof -
    have "bd_boundaries b \<noteq> []" using ok by (cases "bd_chunks b") simp_all
    then show ?thesis using ok(2) by (simp add: chunk_start_def bd_end_def last_conv_nth ok(1))
  qed
  show "bd_end b = bd_start b + int (length (concat (bd_chunks b)))" using * [of "length (bd_chunks b)"] e by simp
qed

lemma batch_written_from:
  assumes "batch_ok S b" "i \<le> length (bd_chunks b)"
  shows "written S (chunk_start b i) (concat (drop i (bd_chunks b)))"
    and "chunk_start b i + int (length (concat (drop i (bd_chunks b)))) = bd_end b"
proof -
  have split: "concat (bd_chunks b) = concat (take i (bd_chunks b)) @ concat (drop i (bd_chunks b))"
    by (metis append_take_drop_id concat_append)
  then show "written S (chunk_start b i) (concat (drop i (bd_chunks b)))"
    using assms batch_start_end(1) [OF assms] written_append by (metis batch_ok_def)
  show "chunk_start b i + int (length (concat (drop i (bd_chunks b)))) = bd_end b"
    using batch_start_end(1) [OF assms] batch_start_end(2) [OF assms(1)] split by simp
qed

lemma batches_written:
  assumes "batches_span S a bs e" "0 \<le> a"
  shows "written S a (concat (concat (map bd_chunks bs))) \<and> e = a + int (length (concat (concat (map bd_chunks bs))))"
  using assms
proof (induction bs arbitrary: a)
  case Nil
  then show ?case by (simp add: written_def)
next
  case (Cons b bs)
  then have b: "batch_ok S b" "bd_start b = a" by simp_all
  have "written S a (concat (bd_chunks b))" using b by (auto simp: batch_ok_def)
  moreover have "bd_end b = a + int (length (concat (bd_chunks b)))" using batch_start_end(2) b by blast
  ultimately show ?case using Cons.IH [of "bd_end b"] Cons.prems by (simp add: written_append)
qed

lemma batches_span_append:
  "batches_span S a (xs @ ys) e \<longleftrightarrow> (\<exists>m. batches_span S a xs m \<and> batches_span S m ys e)"
  by (induction xs arbitrary: a) auto

lemma retained_span_append:
  "retained_span S a (xs @ ys) e \<longleftrightarrow> (\<exists>m. retained_span S a xs m \<and> retained_span S m ys e)"
  by (induction xs arbitrary: a) auto

lemma retained_span_into: "batches_span S a bs e \<Longrightarrow> retained_span S a (map into_retained bs) e"
  by (induction bs arbitrary: a) (auto simp: into_retained_def chunk_start_def)

lemma batch_bytes_append [simp]: "batch_bytes (xs @ ys) = batch_bytes xs + batch_bytes ys"
  by (simp add: batch_bytes_def)


lemma ack_through_span:
  "retained_span S a rs m \<Longrightarrow> a \<le> d \<Longrightarrow> \<exists>a'. a' \<le> d \<and> retained_span S a' (ack_through d rs) m"
proof (induction rs arbitrary: a)
  case (Cons r rs)
  let ?b = "rb_batch r"
  define pp where "pp = partition_point (\<lambda>boundary. boundary \<le> d) (bd_boundaries ?b)"
  define c where "c = max pp (rb_next_chunk r)"
  have b: "batch_ok S ?b" "rb_next_chunk r \<le> length (bd_chunks ?b)" "chunk_start ?b (rb_next_chunk r) = a"
      "retained_span S (bd_end ?b) rs m" using Cons.prems by simp_all
  have lb: "length (bd_boundaries ?b) = length (bd_chunks ?b)" using b by (simp add: batch_ok_def)
  have pp: "pp \<le> length (bd_chunks ?b)" unfolding pp_def partition_point_def lb [symmetric] by (rule length_takeWhile_le)
  have "chunk_start ?b pp \<le> d" if "0 < pp"
  proof -
    have "takeWhile (\<lambda>boundary. boundary \<le> d) (bd_boundaries ?b) ! (pp - 1) \<le> d"
      using that set_takeWhileD [of _ "\<lambda>boundary. boundary \<le> d" "bd_boundaries ?b"] nth_mem
      unfolding pp_def partition_point_def by (metis diff_less zero_less_one)
    then show ?thesis using that by (simp add: chunk_start_def takeWhile_nth pp_def partition_point_def)
  qed
  then have le: "chunk_start ?b c \<le> d" using b(3) Cons.prems(2) by (auto simp: c_def max_def)
  have step: "ack_through d (r # rs) = (if c = length (bd_chunks ?b) then ack_through d rs else r\<lparr>rb_next_chunk := c\<rparr> # rs)"
    by (simp add: c_def pp_def)
  show ?case
  proof (cases "c = length (bd_chunks ?b)")
    case True
    then have "bd_end ?b \<le> d" using le batch_start_end(3) [OF b(1)] by simp
    then show ?thesis using Cons.IH [OF b(4)] step True by simp
  next
    case False
    then show ?thesis using step le b pp by (intro exI [of _ "chunk_start ?b c"]) (auto simp: c_def)
  qed
qed simp

text \<open>Consecutive pieces of the stream.\<close>

fun pieces_span :: "bytes \<Rightarrow> int \<Rightarrow> (int \<times> bytes) list \<Rightarrow> int \<Rightarrow> bool" where
  "pieces_span S a [] e \<longleftrightarrow> a = e"
| "pieces_span S a ((at, c) # ps) e \<longleftrightarrow> at = a \<and> written S a c \<and> pieces_span S (a + int (length c)) ps e"

lemma pieces_span_append:
  "pieces_span S a (xs @ ys) e \<longleftrightarrow> (\<exists>m. pieces_span S a xs m \<and> pieces_span S m ys e)"
  by (induction xs arbitrary: a) auto

lemma batch_pieces:
  assumes "batch_ok S b" "i \<le> length (bd_chunks b)"
  shows "pieces_span S (chunk_start b i) (map (\<lambda>j. (chunk_start b j, bd_chunks b ! j)) [i..<length (bd_chunks b)]) (bd_end b)"
  using assms(2)
proof (induction rule: inc_induct)
  case base
  show ?case using batch_start_end(3) [OF assms(1)] by simp
next
  case (step i)
  have "written S (chunk_start b i) (bd_chunks b ! i @ concat (drop (Suc i) (bd_chunks b)))"
    using batch_written_from(1) [OF assms(1), of i] step.hyps by (simp flip: Cons_nth_drop_Suc)
  then have "written S (chunk_start b i) (bd_chunks b ! i)" by (simp add: written_append)
  moreover have "chunk_start b (Suc i) = chunk_start b i + int (length (bd_chunks b ! i))"
    using batch_start_end(1) [OF assms(1)] step.hyps by (simp add: take_Suc_conv_app_nth)
  ultimately show ?case using step by (simp add: upt_conv_Cons)
qed

lemma pending_pieces: "retained_span S a rs m \<Longrightarrow> pieces_span S a (pending_chunks rs) m"
proof (induction rs arbitrary: a)
  case (Cons r rs)
  then show ?case using batch_pieces [of S "rb_batch r" "rb_next_chunk r"]
    by (auto simp: pending_chunks_def pieces_span_append)
qed (simp add: pending_chunks_def)

lemma pieces_written: "pieces_span S a ps e \<Longrightarrow> 0 \<le> a \<Longrightarrow> written S a (concat (map snd ps))"
proof (induction ps arbitrary: a)
  case Nil
  then show ?case by (simp add: written_def)
next
  case (Cons p ps)
  then show ?case by (cases p) (auto simp: written_append)
qed

lemma resend_written:
  "pieces_span S a ps e \<Longrightarrow> a \<le> d \<Longrightarrow> resend_suffix d ps \<noteq> [] \<Longrightarrow> written S d (concat (resend_suffix d ps))"
proof (induction ps arbitrary: a)
  case (Cons p ps)
  obtain at c where p: "p = (at, c)" by (rule prod.exhaust)
  let ?skip = "nat (max (d - a) 0)"
  have c: "at = a" "written S a c" "pieces_span S (a + int (length c)) ps e" using Cons.prems p by auto
  show ?case
  proof (cases "length c \<le> ?skip")
    case True
    then show ?thesis using Cons.IH [OF c(3)] Cons.prems p c(1) by simp
  next
    case False
    have d: "a + int ?skip = d" using Cons.prems(2) by simp
    have "written S d (drop ?skip c)" using written_drop [OF c(2), of ?skip] False d by simp
    moreover have "written S (a + int (length c)) (concat (map snd ps))"
      using pieces_written [OF c(3)] c(2) by (simp add: written_def)
    moreover have "d + int (length (drop ?skip c)) = a + int (length c)" using False d by simp
    moreover have "resend_suffix d (p # ps) = drop ?skip c # map snd ps" using p c(1) False by (simp add: Let_def)
    ultimately show ?thesis by (simp only: concat.simps written_append simp_thms)
  qed
qed simp


text \<open>The lane invariant: unacknowledged and held batches cover the admitted bytes from an offset that is
  already durable up to \<open>p\<close>, and at most \<open>f\<close> flushes are outstanding.\<close>

definition lane_inv :: "bytes \<Rightarrow> int \<Rightarrow> nat \<Rightarrow> batch_descriptor list \<Rightarrow> lane_runtime \<Rightarrow> bool" where
  "lane_inv S p f held ln \<longleftrightarrow>
     (\<exists>a m. a \<le> ln_durable ln \<and> retained_span S a (ln_retained ln) m \<and> batches_span S m held p)
   \<and> ln_held ln = held \<and> ln_held_bytes ln = batch_bytes held \<and> length (ln_flushes ln) \<le> f"

fun send_ok :: "(bytes \<Rightarrow> nat) \<Rightarrow> bytes \<Rightarrow> lane_output \<Rightarrow> bool" where
  "send_ok crc S (Out_Send at packed flush) \<longleftrightarrow> written S at (packed_bytes packed)
     \<and> messages_ok crc (pa_messages packed, int (pa_len packed)) (packed_bytes packed)"
| "send_ok crc S _ \<longleftrightarrow> True"

lemma send_ok_pack: "written S at (concat cs) \<Longrightarrow> send_ok crc S (Out_Send at (pack_append crc cs) flush)"
  using pack_append_ok by simp

text \<open>A run that keeps the invariant whatever it returns.\<close>

abbreviation lane_keeps ::
  "(bytes \<Rightarrow> nat) \<Rightarrow> bytes \<Rightarrow> int \<Rightarrow> nat \<Rightarrow> batch_descriptor list \<Rightarrow> 'a lane_run \<Rightarrow> bool" where
  "lane_keeps crc S p f h m \<equiv>
     (\<forall>k. lane_ok (within k (lane_inv S p f h)) m (\<lambda>_. within k (lane_inv S p f h)) (send_ok crc S))"

lemma lane_ok_const: "(\<And>n ln. P n ln \<Longrightarrow> C) \<Longrightarrow> (C \<Longrightarrow> lane_ok P m Q G) \<Longrightarrow> lane_ok P m Q G"
  by (cases C) (auto simp: lane_ok_def)

lemma lane_ok_ex: "(\<And>x. lane_ok (P x) m Q G) \<Longrightarrow> lane_ok (\<lambda>n ln. \<exists>x. P x n ln) m Q G"
  unfolding lane_ok_def by (intro allI impI, elim exE) simp

lemma keeps_then:
  "lane_keeps crc S p f h m \<Longrightarrow> (\<And>x. lane_keeps crc S p f h (g x)) \<Longrightarrow> lane_keeps crc S p f h (lane_then m g)"
  by (blast intro: lane_ok_then)

lemma keeps_simple:
  "lane_keeps crc S p f h (lane_return x)" "lane_keeps crc S p f h (lane_die d)" "lane_keeps crc S p f h lane_wait"
  "lane_keeps crc S p f h (lane_read g)"
  by (auto intro: lane_ok_return lane_ok_die lane_ok_wait lane_ok_read)

lemma keeps_modify: "(\<And>ln. lane_inv S p f h ln \<Longrightarrow> lane_inv S p f h (g ln)) \<Longrightarrow> lane_keeps crc S p f h (lane_modify g)"
  by (auto intro!: lane_ok_modify simp: within_def)

lemma keeps_emit: "send_ok crc S o1 \<Longrightarrow> lane_keeps crc S p f h (lane_emit o1)"
  by (auto intro: lane_ok_emit)

lemma keeps_answer: "lane_keeps crc S p f h lane_answer"
  by (auto intro!: lane_ok_weaken [OF lane_ok_answer] simp: within_def)

lemmas keeps_rules = keeps_then keeps_simple keeps_answer

lemma keeps_publish: "lane_keeps crc S p f h (publish_lane_progress tail)"
  unfolding publish_lane_progress_def
proof (intro keeps_rules keeps_emit keeps_modify)
  fix ln assume "lane_inv S p f h ln"
  then obtain a m where i: "a \<le> ln_durable ln" "retained_span S a (ln_retained ln) m" "batches_span S m h p"
      "ln_held ln = h" "ln_held_bytes ln = batch_bytes h" "length (ln_flushes ln) \<le> f"
    by (auto simp: lane_inv_def)
  obtain a' where "a' \<le> max (ln_durable ln) tail" "retained_span S a' (ack_through (max (ln_durable ln) tail) (ln_retained ln)) m"
    using ack_through_span [OF i(2) max.coboundedI1 [OF i(1), of tail]] by blast
  then show "lane_inv S p f h (let durable = max (ln_durable ln) tail
      in ln\<lparr>ln_durable := durable, ln_retained := ack_through durable (ln_retained ln)\<rparr>)"
    using i by (auto simp: lane_inv_def Let_def)
qed simp

lemma keeps_publish_advance: "lane_keeps crc S p f h (publish_advance change)"
  unfolding publish_advance_def by (intro keeps_rules keeps_publish) (auto split: option.split intro: keeps_simple [rule_format])

lemma keeps_progress: "lane_keeps crc S p f h (lane_progress active obs)"
  unfolding lane_progress_def by (intro keeps_rules) (auto split: option.split intro: keeps_simple [rule_format])

lemma keeps_confirm_timeout: "lane_keeps crc S p f h (confirm_timeout obs)"
  unfolding confirm_timeout_def confirm_lane_stall_def
  by (intro keeps_rules keeps_progress keeps_publish_advance) (auto split: lane_progress.split intro: keeps_simple [rule_format])

lemma keeps_again_if: "lane_keeps crc S p f h m \<Longrightarrow> lane_keeps crc S p f h (again_if m)"
  unfolding again_if_def by (intro keeps_rules)

lemma keeps_call_failed: "lane_keeps crc S p f h call_failed"
  unfolding call_failed_def
  by (intro keeps_rules) (auto split: lane_answer.split intro: keeps_simple [rule_format] keeps_confirm_timeout [rule_format])

lemma keeps_backoff: "lane_keeps crc S p f h recovery_backoff"
  unfolding recovery_backoff_def
  by (intro keeps_rules) (auto split: lane_answer.split intro: keeps_simple [rule_format] keeps_confirm_timeout [rule_format])


lemma keeps_flushes:
  "(\<And>ln. length (g ln) \<le> f) \<Longrightarrow> lane_keeps crc S p f h (lane_modify (\<lambda>ln. ln\<lparr>ln_flushes := g ln\<rparr>))"
  by (intro keeps_modify) (auto simp: lane_inv_def)

lemma keeps_resend_sent: "1 \<le> f \<Longrightarrow> lane_keeps crc S p f h (resend_sent packed)"
  unfolding resend_sent_def
  by (intro keeps_rules)
     (auto split: lane_answer.split sum.split intro!: keeps_simple [rule_format] keeps_again_if [OF keeps_backoff, rule_format]
        keeps_again_if [OF keeps_confirm_timeout, rule_format] lane_ok_then [OF keeps_flushes [rule_format]])

lemma keeps_resend:
  assumes f: "1 \<le> f"
  shows "lane_keeps crc S p f h (resend crc)"
proof (rule allI)
  fix k
  let ?I = "within k (lane_inv S p f h)"
  let ?next = "\<lambda>(durable, suffix). if suffix = [] then lane_then (lane_modify (\<lambda>ln. ln\<lparr>ln_flushes := []\<rparr>)) (\<lambda>_. lane_return True)
       else let packed = pack_append crc suffix in
         lane_then (lane_emit (Out_Send durable packed True)) (\<lambda>_. resend_sent packed)"
  have "lane_ok (\<lambda>n ln. ?I n ln \<and> x = (ln_durable ln, resend_suffix (ln_durable ln) (pending_chunks (ln_retained ln))))
      (?next x) (\<lambda>_. ?I) (send_ok crc S)" for x
  proof (rule lane_ok_const [where C = "snd x = [] \<or> send_ok crc S (Out_Send (fst x) (pack_append crc (snd x)) True)"])
    show "snd x = [] \<or> send_ok crc S (Out_Send (fst x) (pack_append crc (snd x)) True)"
      if "?I n ln \<and> x = (ln_durable ln, resend_suffix (ln_durable ln) (pending_chunks (ln_retained ln)))" for n ln
      using that resend_written [OF pending_pieces] send_ok_pack by (fastforce simp: within_def lane_inv_def)
    assume "snd x = [] \<or> send_ok crc S (Out_Send (fst x) (pack_append crc (snd x)) True)"
    then have "lane_keeps crc S p f h (?next x)"
      using keeps_then [OF keeps_emit keeps_resend_sent [OF f]]
      by (cases "snd x = []") (simp_all add: case_prod_beta Let_def keeps_then keeps_simple keeps_flushes del: send_ok.simps)
    then show "lane_ok (\<lambda>n ln. ?I n ln \<and> x = (ln_durable ln, resend_suffix (ln_durable ln) (pending_chunks (ln_retained ln))))
        (?next x) (\<lambda>_. ?I) (send_ok crc S)" by (auto intro: lane_ok_pre)
  qed
  then show "lane_ok ?I (resend crc) (\<lambda>_. ?I) (send_ok crc S)"
    unfolding resend_def by (intro lane_ok_then [OF lane_ok_read_eq])
qed


lemma lane_keeps_within: "lane_keeps crc S p f h m \<Longrightarrow>
    lane_ok (within k (\<lambda>ln. C \<and> lane_inv S p f h ln)) m (\<lambda>_. within k (\<lambda>ln. C \<and> lane_inv S p f h ln)) (send_ok crc S)"
  by (rule lane_ok_const [where C = C]) (auto simp: within_def elim!: allE [of _ k] intro: lane_ok_weaken)

lemma keeps_token: "lane_keeps crc S p f h (lane_modify (\<lambda>ln. ln\<lparr>ln_token := g ln\<rparr>))"
  by (intro keeps_modify) (auto simp: lane_inv_def)

text \<open>An attempt to recover uses up an answer.\<close>

lemma recover_attempt_ok:
  assumes "1 \<le> f"
  shows "lane_ok (within k (lane_inv S p f h)) (recover_attempt crc)
    (\<lambda>_. within (k - 1) (\<lambda>ln. 0 < k \<and> lane_inv S p f h ln)) (send_ok crc S)"
proof -
  have "lane_keeps crc S p f h (case a of
       Ans_Resume_Cut token obs \<Rightarrow>
         lane_then (lane_modify (\<lambda>ln. ln\<lparr>ln_token := token\<rparr>)) (\<lambda>_. again_if (confirm_timeout obs))
     | Ans_Resumed (r, token) \<Rightarrow>
         lane_then (lane_modify (\<lambda>ln. ln\<lparr>ln_token := token\<rparr>)) (\<lambda>_.
           case r of
             Inr tail \<Rightarrow> lane_then (publish_lane_progress tail) (\<lambda>_. resend crc)
           | Inl e \<Rightarrow> if transient (te_code e) then again_if recovery_backoff else lane_die (LD_Transport e))
     | _ \<Rightarrow> lane_wait)" for a
    using assms
    by (cases a)
       (auto split: sum.split intro!: lane_ok_then [OF keeps_token [rule_format]] keeps_simple [rule_format]
         keeps_again_if [OF keeps_backoff, rule_format] keeps_again_if [OF keeps_confirm_timeout, rule_format]
         lane_ok_then [OF keeps_publish [rule_format]] keeps_resend [rule_format])
  then show ?thesis
    unfolding recover_attempt_def by (intro lane_ok_then [OF lane_ok_answer] lane_keeps_within)
qed

lemma recover_attempts_ok:
  assumes "1 \<le> f"
  shows "lane_ok (within k (lane_inv S p f h)) (recover_attempts crc (Suc k)) (\<lambda>_. within k (lane_inv S p f h)) (send_ok crc S)"
proof (induction k)
  case 0
  show ?case
    by (simp only: recover_attempts.simps, rule lane_ok_then [OF recover_attempt_ok [OF assms]])
       (auto simp: lane_ok_def within_def)
next
  case (Suc k)
  have more: "lane_ok (within k (\<lambda>ln. 0 < Suc k \<and> lane_inv S p f h ln)) (if r then lane_return () else recover_attempts crc (Suc k))
      (\<lambda>_. within (Suc k) (lane_inv S p f h)) (send_ok crc S)" for r
    by (cases r) (auto intro!: lane_ok_return lane_ok_weaken [OF Suc] simp: within_def simp del: recover_attempts.simps)
  show ?case
    by (subst recover_attempts.simps(2), rule lane_ok_then [OF recover_attempt_ok [OF assms]])
       (use more in \<open>simp only: diff_Suc_1\<close>)
qed

lemma lane_recover_ok:
  assumes "1 \<le> f"
  shows "lane_keeps crc S p f h (lane_recover crc)"
proof (rule allI)
  fix k
  show "lane_ok (within k (lane_inv S p f h)) (lane_recover crc) (\<lambda>_. within k (lane_inv S p f h)) (send_ok crc S)"
    unfolding lane_ok_def
  proof (intro allI impI)
    fix answers :: "lane_answer list" and ln
    assume within: "within k (lane_inv S p f h) (length answers) ln"
    then have "within (length answers) (lane_inv S p f h) (length answers) ln" "length answers \<le> k" by (simp_all add: within_def)
    from recover_attempts_ok [OF assms, unfolded lane_ok_def, rule_format, OF this(1)] this(2)
    show "case lane_recover crc answers ln of (r, ln', out, rest) \<Rightarrow> (\<forall>o1 \<in> set out. send_ok crc S o1)
        \<and> (case r of Lane_Value x \<Rightarrow> within k (lane_inv S p f h) (length rest) ln' | Lane_Panic \<Rightarrow> False | _ \<Rightarrow> True)"
      unfolding lane_recover_def within_def by (fastforce split: prod.splits lane_outcome.splits simp del: recover_attempts.simps)
  qed
qed


lemma recover_if_ok: "1 \<le> f \<Longrightarrow> lane_keeps crc S p f h (if failed then lane_recover crc else lane_return ())"
  using lane_recover_ok by (auto intro: keeps_simple [rule_format])

text \<open>A lane about to send the batches \<open>bs\<close>, which are no longer held.\<close>

definition staged :: "bytes \<Rightarrow> int \<Rightarrow> nat \<Rightarrow> batch_descriptor list \<Rightarrow> batch_descriptor list \<Rightarrow> lane_runtime \<Rightarrow> bool" where
  "staged S p f bs held ln \<longleftrightarrow>
     (\<exists>a m m'. a \<le> ln_durable ln \<and> retained_span S a (ln_retained ln) m \<and> batches_span S m bs m' \<and> batches_span S m' held p)
   \<and> ln_held ln = held \<and> ln_held_bytes ln = batch_bytes held \<and> length (ln_flushes ln) \<le> f"

lemma staged_retained:
  "staged S p f bs h ln \<Longrightarrow> lane_inv S p f h (ln\<lparr>ln_retained := ln_retained ln @ map into_retained bs\<rparr>)"
  by (auto simp: staged_def lane_inv_def retained_span_append dest: retained_span_into)

lemma staged_send:
  assumes "staged S p f bs h ln" "bs \<noteq> []"
  shows "send_ok crc S (Out_Send (bd_start (hd bs)) (packed_group crc bs) flush)"
proof -
  obtain m m' where span: "batches_span S m bs m'" using assms by (auto simp: staged_def)
  then have "0 \<le> m" "m = bd_start (hd bs)" using assms(2) by (cases bs; auto simp: batch_ok_def written_def)+
  then show ?thesis using batches_written [OF span] by (simp add: packed_group_def send_ok_pack del: send_ok.simps)
qed

lemma stage_ok:
  assumes bs: "bs \<noteq> []" and f: "f' = (if flush then Suc f else f)" "1 \<le> f'"
  shows "lane_ok (within k (staged S p f bs h)) (stage crc bs flush) (\<lambda>_. within k (lane_inv S p f' h)) (send_ok crc S)"
proof (rule lane_ok_const [where C = "send_ok crc S (Out_Send (bd_start (hd bs)) (packed_group crc bs) flush)"])
  show "send_ok crc S (Out_Send (bd_start (hd bs)) (packed_group crc bs) flush)"
    if "within k (staged S p f bs h) n ln" for n ln
    using that staged_send [OF _ bs] unfolding within_def by blast
  assume send: "send_ok crc S (Out_Send (bd_start (hd bs)) (packed_group crc bs) flush)"
  have retain: "lane_ok (within k (staged S p f bs h)) (lane_modify (\<lambda>ln. ln\<lparr>ln_retained := ln_retained ln @ map into_retained bs\<rparr>))
      (\<lambda>_. within k (lane_inv S p f h)) (send_ok crc S)"
    by (intro lane_ok_modify) (simp add: within_def staged_retained)
  have flushed: "lane_ok (within k (lane_inv S p f h))
      (lane_modify (\<lambda>ln. if flush then ln\<lparr>ln_flushes := ln_flushes ln @ [bd_end (last bs)]\<rparr> else ln))
      (\<lambda>_. within k (lane_inv S p f' h)) (send_ok crc S)"
    using f by (intro lane_ok_modify) (auto simp: within_def lane_inv_def)
  show "lane_ok (within k (staged S p f bs h)) (stage crc bs flush) (\<lambda>_. within k (lane_inv S p f' h)) (send_ok crc S)"
    unfolding stage_def
    by (rule lane_ok_then [OF retain] lane_ok_then [OF keeps_emit [OF send, rule_format]]
          lane_ok_then [OF keeps_call_failed [rule_format]] lane_ok_then [OF flushed])+
       (rule recover_if_ok [OF f(2), rule_format])
qed

lemma unflushed_prefix_Some:
  "LANE_UNFLUSHED_SEND_BYTES \<le> n + batch_bytes held \<Longrightarrow>
     \<exists>k \<le> length held. unflushed_prefix n held = Some k \<and> (n < LANE_UNFLUSHED_SEND_BYTES \<longrightarrow> 0 < k)"
proof (induction n held rule: unflushed_prefix.induct)
  case (1 n held)
  show ?case
  proof (cases held)
    case Nil
    then show ?thesis using 1(2) by (simp add: unflushed_prefix.simps batch_bytes_def)
  next
    case (Cons b rest)
    then show ?thesis using 1(1) [OF _ Cons] 1(2) by (subst unflushed_prefix.simps) (auto simp: batch_bytes_def algebra_simps)
  qed
qed

lemma inv_staged_prefix:
  assumes "lane_inv S p f h ln" "k \<le> length h"
  shows "staged S p f (take k h) (drop k h)
    (ln\<lparr>ln_held := drop k h, ln_held_bytes := batch_bytes h - batch_bytes (take k h)\<rparr>)"
proof -
  have "batch_bytes h = batch_bytes (take k h) + batch_bytes (drop k h)"
    by (metis append_take_drop_id batch_bytes_append)
  moreover have "batches_span S a h p \<longleftrightarrow> (\<exists>m. batches_span S a (take k h) m \<and> batches_span S m (drop k h) p)" for a
    using batches_span_append [of S a "take k h" "drop k h" p] by simp
  ultimately show ?thesis using assms(1) unfolding staged_def lane_inv_def by auto
qed


definition lane_steady :: "bytes \<Rightarrow> int \<Rightarrow> lane_runtime \<Rightarrow> bool" where
  "lane_steady S p ln \<longleftrightarrow> lane_inv S p MAX_OUTSTANDING_FLUSHES (ln_held ln) ln"

lemma inv_steady: "lane_inv S p MAX_OUTSTANDING_FLUSHES h ln \<Longrightarrow> lane_steady S p ln"
  by (auto simp: lane_steady_def lane_inv_def)

lemma max_flushes: "1 \<le> MAX_OUTSTANDING_FLUSHES" "MAX_OUTSTANDING_FLUSHES = Suc 1"
  by (simp_all add: MAX_OUTSTANDING_FLUSHES_def)

lemma steady_post:
  "lane_ok P m (\<lambda>_. within k (lane_inv S p MAX_OUTSTANDING_FLUSHES h)) G \<Longrightarrow> lane_ok P m (\<lambda>_. within k (lane_steady S p)) G"
  by (erule lane_ok_weaken) (auto simp: within_def intro: inv_steady)

lemma send_unflushed_ok:
  "length h < n \<Longrightarrow> lane_ok (within k (lane_inv S p MAX_OUTSTANDING_FLUSHES h)) (send_unflushed crc n)
     (\<lambda>_. within k (lane_steady S p)) (send_ok crc S)"
proof (induction n arbitrary: h)
  case (Suc n)
  let ?I = "within k (lane_inv S p MAX_OUTSTANDING_FLUSHES h)"
  show ?case
  proof (subst send_unflushed.simps, rule lane_ok_then [OF lane_ok_read [where Q = "\<lambda>x n ln. ?I n ln \<and> x = (batch_bytes h, h)"]])
    fix x :: "int \<times> batch_descriptor list"
    show "lane_ok (\<lambda>n ln. ?I n ln \<and> x = (batch_bytes h, h)) ((\<lambda>(held_bytes, held).
        if held_bytes < LANE_UNFLUSHED_SEND_BYTES then lane_return ()
        else case unflushed_prefix 0 held of
          None \<Rightarrow> lane_panic
        | Some k \<Rightarrow>
            lane_then (lane_modify (\<lambda>ln. ln\<lparr>ln_held := drop k held, ln_held_bytes := held_bytes - batch_bytes (take k held)\<rparr>)) (\<lambda>_.
            lane_then (stage crc (take k held) False) (\<lambda>_. send_unflushed crc n))) x)
        (\<lambda>_. within k (lane_steady S p)) (send_ok crc S)"
    proof (rule lane_ok_const [where C = "x = (batch_bytes h, h)"])
      assume x: "x = (batch_bytes h, h)"
      show ?thesis
      proof (cases "batch_bytes h < LANE_UNFLUSHED_SEND_BYTES")
        case True
        then show ?thesis using x by (auto simp: within_def intro!: lane_ok_return inv_steady)
      next
        case False
        then obtain c where c: "c \<le> length h" "unflushed_prefix 0 h = Some c" "0 < c"
          using unflushed_prefix_Some [of 0 h] by (auto simp: LANE_UNFLUSHED_SEND_BYTES_def)
        then have "take c h \<noteq> []" "length (drop c h) < n" using Suc.prems by auto
        then show ?thesis
          using x False c inv_staged_prefix [OF _ c(1)]
          by (auto simp: within_def intro!: lane_ok_then [OF lane_ok_modify [where Q = "\<lambda>_. within k (staged S p MAX_OUTSTANDING_FLUSHES (take c h) (drop c h))"]]
                lane_ok_then [OF stage_ok [OF _ _ max_flushes(1)]] Suc.IH)
      qed
    qed simp
  qed (simp add: within_def lane_inv_def)
qed simp

lemma flush_sent_ok:
  "lane_ok (within k (lane_inv S p 1 h)) (flush_sent crc) (\<lambda>_. within k (lane_inv S p MAX_OUTSTANDING_FLUSHES h)) (send_ok crc S)"
  unfolding flush_sent_def
proof (rule lane_ok_then [OF keeps_simple(4) [rule_format]], clarify)
  fix e flushed_through
  have push: "lane_ok (within k (lane_inv S p 1 h)) (lane_modify (\<lambda>ln. ln\<lparr>ln_flushes := ln_flushes ln @ [e]\<rparr>))
      (\<lambda>_. within k (lane_inv S p MAX_OUTSTANDING_FLUSHES h)) (send_ok crc S)"
    by (intro lane_ok_modify) (auto simp: within_def lane_inv_def max_flushes(2))
  have "lane_ok (within k (lane_inv S p 1 h)) (lane_then (lane_emit (Out_Flush e)) (\<lambda>_.
            lane_then call_failed (\<lambda>failed.
            lane_then (lane_modify (\<lambda>ln. ln\<lparr>ln_flushes := ln_flushes ln @ [e]\<rparr>)) (\<lambda>_.
            if failed then lane_recover crc else lane_return ()))))
      (\<lambda>_. within k (lane_inv S p MAX_OUTSTANDING_FLUSHES h)) (send_ok crc S)"
    by (intro lane_ok_then [OF keeps_emit [rule_format]] lane_ok_then [OF keeps_call_failed [rule_format]] lane_ok_then [OF push]
          recover_if_ok [OF max_flushes(1), rule_format]) simp
  then show "lane_ok (within k (lane_inv S p 1 h)) (if e \<le> flushed_through then lane_return ()
       else lane_then (lane_emit (Out_Flush e)) (\<lambda>_.
            lane_then call_failed (\<lambda>failed.
            lane_then (lane_modify (\<lambda>ln. ln\<lparr>ln_flushes := ln_flushes ln @ [e]\<rparr>)) (\<lambda>_.
            if failed then lane_recover crc else lane_return ()))))
      (\<lambda>_. within k (lane_inv S p MAX_OUTSTANDING_FLUSHES h)) (send_ok crc S)"
    by (auto intro!: lane_ok_return simp: within_def lane_inv_def max_flushes(2))
qed


lemma dispatch_ok: "lane_ok (within k (lane_steady S p)) (dispatch crc) (\<lambda>_. within k (lane_steady S p)) (send_ok crc S)"
  unfolding dispatch_def
proof (rule lane_ok_then [OF lane_ok_modify [where Q = "\<lambda>_. within k (lane_steady S p)"]])
  let ?next = "\<lambda>(outstanding, held).
       if outstanding < MAX_OUTSTANDING_FLUSHES then
         (if held \<noteq> []
          then lane_then (lane_modify (\<lambda>ln. ln\<lparr>ln_held := [], ln_held_bytes := 0\<rparr>)) (\<lambda>_. stage crc held True)
          else flush_sent crc)
       else send_unflushed crc (Suc (length held))"
  let ?P = "\<lambda>x n ln. within k (lane_steady S p) n ln \<and> x = (length (ln_flushes ln), ln_held ln)"
  have "lane_ok (?P x) (?next x) (\<lambda>_. within k (lane_steady S p)) (send_ok crc S)" for x
  proof (cases x)
    case (Pair outstanding h)
    consider (send) "outstanding < MAX_OUTSTANDING_FLUSHES" "h \<noteq> []" | (flush) "outstanding < MAX_OUTSTANDING_FLUSHES" "h = []"
      | (full) "\<not> outstanding < MAX_OUTSTANDING_FLUSHES" by blast
    then show ?thesis
    proof cases
      case send
      have "staged S p 1 h [] (ln\<lparr>ln_held := [], ln_held_bytes := 0\<rparr>)" if "?P x n ln" for n ln
        using that Pair send(1) inv_staged_prefix [of S p 1 h ln "length h"]
        by (auto simp: within_def lane_steady_def lane_inv_def max_flushes(2))
      then have "lane_ok (?P x) (lane_then (lane_modify (\<lambda>ln. ln\<lparr>ln_held := [], ln_held_bytes := 0\<rparr>)) (\<lambda>_. stage crc h True))
          (\<lambda>_. within k (lane_steady S p)) (send_ok crc S)"
        using stage_ok [OF send(2) _ max_flushes(1), of True 1]
        by (intro lane_ok_then [OF lane_ok_modify [where Q = "\<lambda>_. within k (staged S p 1 h [])"]] steady_post)
           (auto simp: within_def max_flushes(2))
      then show ?thesis using Pair send by simp
    next
      case flush
      have "lane_inv S p 1 [] ln" if "?P x n ln" for n ln
        using that Pair flush by (auto simp: within_def lane_steady_def lane_inv_def max_flushes(2))
      then have "lane_ok (?P x) (flush_sent crc) (\<lambda>_. within k (lane_steady S p)) (send_ok crc S)"
        by (intro steady_post lane_ok_pre [OF flush_sent_ok]) (auto simp: within_def)
      then show ?thesis using Pair flush by simp
    next
      case full
      have "lane_inv S p MAX_OUTSTANDING_FLUSHES h ln" if "?P x n ln" for n ln
        using that Pair by (auto simp: within_def lane_steady_def)
      then have "lane_ok (?P x) (send_unflushed crc (Suc (length h))) (\<lambda>_. within k (lane_steady S p)) (send_ok crc S)"
        by (intro lane_ok_pre [OF send_unflushed_ok [OF lessI]]) (auto simp: within_def)
      then show ?thesis using Pair full by (simp del: send_unflushed.simps)
    qed
  qed
  then show "lane_ok (within k (lane_steady S p)) (lane_then (lane_read (\<lambda>ln. (length (ln_flushes ln), ln_held ln))) ?next)
      (\<lambda>_. within k (lane_steady S p)) (send_ok crc S)"
    by (intro lane_ok_then [OF lane_ok_read_eq])
qed (auto simp: within_def lane_steady_def lane_inv_def intro: order_trans [OF length_dropWhile_le])


abbreviation steady_keeps :: "(bytes \<Rightarrow> nat) \<Rightarrow> bytes \<Rightarrow> int \<Rightarrow> nat \<Rightarrow> 'a lane_run \<Rightarrow> bool" where
  "steady_keeps crc S p k m \<equiv> lane_ok (within k (lane_steady S p)) m (\<lambda>_. within k (lane_steady S p)) (send_ok crc S)"

lemma steady_keepsI:
  assumes "\<And>h. lane_keeps crc S p MAX_OUTSTANDING_FLUSHES h m"
  shows "steady_keeps crc S p k m"
proof (rule lane_ok_pre [OF lane_ok_ex])
  show "lane_ok (within k (lane_inv S p MAX_OUTSTANDING_FLUSHES h)) m (\<lambda>_. within k (lane_steady S p)) (send_ok crc S)" for h
    using assms [of h] by (intro steady_post) blast
qed (auto simp: within_def lane_steady_def)

lemma set_monitor_ok: "steady_keeps crc S p k (set_monitor m)"
  unfolding set_monitor_def by (intro lane_ok_modify) (auto simp: within_def lane_steady_def lane_inv_def)

lemma on_progress_ok: "steady_keeps crc S p k (on_progress crc c)"
proof -
  note steady = steady_keepsI [OF keeps_publish_advance] steady_keepsI [OF recover_if_ok [OF max_flushes(1)]]
    steady_keepsI [OF lane_recover_ok [OF max_flushes(1)]] steady_keepsI [OF keeps_simple(1)] steady_keepsI [OF keeps_simple(4)]
    set_monitor_ok dispatch_ok
  show ?thesis
    unfolding on_progress_def
    by (cases c) (auto intro!: lane_ok_die steady lane_ok_then [OF steady(1)] lane_ok_then [OF steady(2)] lane_ok_then [OF steady(3)]
        lane_ok_then [OF set_monitor_ok] lane_ok_then [OF steady(5)])
qed

lemma hold_steady:
  "lane_steady S p ln \<Longrightarrow> batches_span S p bs e \<Longrightarrow> lane_steady S e (fold hold bs ln)"
proof (induction bs arbitrary: p ln)
  case (Cons b bs)
  then have "lane_steady S (bd_end b) (hold b ln)"
    by (fastforce simp: lane_steady_def lane_inv_def hold_def batches_span_append batch_bytes_def)
  then show ?case using Cons by simp
qed simp

text \<open>The batches a lane receives before its channel is found closed.\<close>

fun accepted :: "lane_event list \<Rightarrow> batch_descriptor list" where
  "accepted [] = []"
| "accepted (Ev_Progress obs # rest) = accepted rest"
| "accepted (Ev_Work b queued disconnected # rest) = b # queued @ (if disconnected then [] else accepted rest)"
| "accepted (Ev_Closed # rest) = []"

lemma lane_round_ok:
  assumes "batches_span S p (if closed then [] else accepted (event # rest)) e"
  shows "lane_ok (within k (lane_steady S p)) (lane_round crc closed event)
    (\<lambda>closed' n ln. \<exists>q. within k (lane_steady S q) n ln \<and> batches_span S q (if closed' then [] else accepted rest) e) (send_ok crc S)"
proof (cases event)
  case (Ev_Progress obs)
  then show ?thesis
    using assms unfolding lane_round_def
    by (auto split: prod.split intro!: lane_ok_then [OF steady_keepsI [OF keeps_simple(4)]] lane_ok_wait
        lane_ok_then [OF steady_keepsI [OF keeps_progress]] lane_ok_then [OF on_progress_ok] lane_ok_return exI [of _ p])
next
  case (Ev_Work b queued disconnected)
  show ?thesis
  proof (cases closed)
    case False
    then obtain q where q: "batches_span S p (b # queued) q" "batches_span S q (if disconnected then [] else accepted rest) e"
      using assms Ev_Work batches_span_append [of S p "b # queued"] by auto
    have hold: "lane_ok (within k (lane_steady S p)) (lane_modify (fold hold (b # queued))) (\<lambda>_. within k (lane_steady S q)) (send_ok crc S)"
      using hold_steady [OF _ q(1)] by (intro lane_ok_modify) (simp add: within_def)
    show ?thesis
      using False q(2) unfolding lane_round_def Ev_Work
      by (auto intro!: lane_ok_then [OF hold [unfolded fold.simps]] lane_ok_then [OF dispatch_ok] lane_ok_then [OF set_monitor_ok] lane_ok_return)
  qed (simp add: lane_round_def Ev_Work lane_ok_wait)
next
  case Ev_Closed
  then show ?thesis using assms by (auto simp: lane_round_def intro!: lane_ok_wait lane_ok_return)
qed

lemma drained_durable: "lane_steady S p ln \<Longrightarrow> ln_retained ln = [] \<Longrightarrow> ln_held ln = [] \<Longrightarrow> p \<le> ln_durable ln"
  by (auto simp: lane_steady_def lane_inv_def)

lemma lane_loop_ok:
  assumes "batches_span S p (if closed then [] else accepted events) e"
  shows "lane_ok (within k (lane_steady S p)) (lane_loop crc closed events) (\<lambda>_ n ln. e \<le> ln_durable ln) (send_ok crc S)"
  using assms
proof (induction events arbitrary: p closed)
  case Nil
  show ?case using Nil
    by (subst lane_loop.simps)
       (auto intro!: lane_ok_then [OF lane_ok_read_eq] lane_ok_return lane_ok_wait intro!: drained_durable simp: within_def)
next
  case (Cons event rest)
  have more: "lane_ok (\<lambda>n ln. \<exists>q. within k (lane_steady S q) n ln \<and> batches_span S q (if closed' then [] else accepted rest) e)
      (lane_loop crc closed' rest) (\<lambda>_ n ln. e \<le> ln_durable ln) (send_ok crc S)" for closed'
    by (rule lane_ok_ex, rule lane_ok_const, erule conjunct2, rule lane_ok_pre [OF Cons.IH]) auto
  have step: "lane_ok (within k (lane_steady S p)) (lane_then (lane_round crc closed event) (\<lambda>closed'. lane_loop crc closed' rest))
      (\<lambda>_ n ln. e \<le> ln_durable ln) (send_ok crc S)"
    by (rule lane_ok_then [OF lane_round_ok [OF Cons.prems] more])
  show ?case using Cons.prems
    by (subst lane_loop.simps)
       (auto intro!: lane_ok_then [OF lane_ok_read_eq] lane_ok_return lane_ok_pre [OF step] intro!: drained_durable simp: within_def)
qed

lemma new_lane_steady: "lane_steady S (tk_persisted_size token) (new_lane token)"
  by (auto simp: lane_steady_def lane_inv_def new_lane_def batch_bytes_def)

lemma run_lane_ok:
  assumes span: "batches_span S (tk_persisted_size token) (accepted events) e"
    and run: "run_lane crc token events answers = (r, out)"
  shows "\<forall>o1 \<in> set out. send_ok crc S o1" "\<forall>t. r = Lane_Value (Some t) \<longrightarrow> e \<le> tk_persisted_size t" "r \<noteq> Lane_Panic"
proof -
  obtain r1 ln out1 rest where l: "lane_loop crc False events answers (new_lane token) = (r1, ln, out1, rest)"
    by (metis prod.collapse)
  have "within (length answers) (lane_steady S (tk_persisted_size token)) (length answers) (new_lane token)"
    by (simp add: within_def new_lane_steady)
  from lane_loop_ok [of S _ False events e, unfolded lane_ok_def, rule_format, OF _ this, of crc] span
  have ok: "\<forall>o1 \<in> set out1. send_ok crc S o1" "case r1 of Lane_Value x \<Rightarrow> e \<le> ln_durable ln | Lane_Panic \<Rightarrow> False | _ \<Rightarrow> True"
    by (simp_all add: l)
  show "\<forall>o1 \<in> set out. send_ok crc S o1" "\<forall>t. r = Lane_Value (Some t) \<longrightarrow> e \<le> tk_persisted_size t" "r \<noteq> Lane_Panic"
    using run ok by (auto simp: run_lane_def l split: lane_outcome.splits lane_death.splits)
qed

lemma lane_sends_written:
  assumes "batches_span S (tk_persisted_size token) (accepted events) e" "run_lane crc token events answers = (r, out)"
    and "Out_Send at packed flush \<in> set out"
  shows "written S at (packed_bytes packed)"
  using run_lane_ok(1) [OF assms(1,2)] assms(3) by (metis send_ok.simps(1))

text \<open>C14. A lane that is given consecutive batches of an admitted byte stream writes, in every message
  group it sends or sends again after a session failure, exactly the admitted bytes at the offset it names,
  packed with their checksums and relative offsets, whatever the replica answers and however calls are cut
  off by their deadlines.  A lane that ends by draining has every batch it was given durable, and no run
  indexes past its batches or exceeds the bound on recovery attempts.\<close>

theorem lane_writes_admitted_stream:
  assumes span: "batches_span S (tk_persisted_size token) (accepted events) e"
    and run: "run_lane crc token events answers = (r, out)"
  shows "(\<forall>at packed flush. Out_Send at packed flush \<in> set out \<longrightarrow>
            written S at (packed_bytes packed)
          \<and> messages_ok crc (pa_messages packed, int (pa_len packed)) (packed_bytes packed))
       \<and> (\<forall>t. r = Lane_Value (Some t) \<longrightarrow> e \<le> tk_persisted_size t)
       \<and> r \<noteq> Lane_Panic"
  using run_lane_ok [OF span run] by (metis send_ok.simps(1))

text \<open>A session failure in the middle of a batch: the second chunk is cut at the durable offset when the
  lane sends it again.\<close>

definition lane_demo_token :: append_token where
  "lane_demo_token = \<lparr>tk_zone = 0, tk_generation = Some 1, tk_metageneration = None, tk_persisted_size = 2, tk_write_handle = None\<rparr>"

definition lane_demo_batch :: batch_descriptor where
  "lane_demo_batch = \<lparr>bd_start = 2, bd_chunks = [[3, 4], [5, 6, 7]], bd_boundaries = [4, 7]\<rparr>"

definition lane_demo_events :: "lane_event list" where
  "lane_demo_events = [Ev_Work lane_demo_batch [] False, Ev_Closed,
     Ev_Progress [Obs_Change (Inr \<lparr>ldc_persisted_size = 7, ldc_error = None\<rparr>) True]]"

definition lane_demo_answers :: "lane_answer list" where
  "lane_demo_answers = [Ans_Sent (Inl \<lparr>te_zone = 0, te_code = Unavailable, te_message = ''reset''\<rparr>),
     Ans_Resumed (Inr 5, lane_demo_token), Ans_Sent (Inr ())]"

theorem lane_writes_admitted_stream_witness:
  "batches_span [1, 2, 3, 4, 5, 6, 7] (tk_persisted_size lane_demo_token) (accepted lane_demo_events) 7
 \<and> (\<exists>t. fst (run_lane (\<lambda>_. 0) lane_demo_token lane_demo_events lane_demo_answers) = Lane_Value (Some t) \<and> 7 \<le> tk_persisted_size t)"
proof -
  have span: "batches_span [1, 2, 3, 4, 5, 6, 7] (tk_persisted_size lane_demo_token) (accepted lane_demo_events) 7"
    by code_simp
  obtain r out where run: "run_lane (\<lambda>_. 0) lane_demo_token lane_demo_events lane_demo_answers = (r, out)" by (rule prod.exhaust)
  have "case fst (run_lane (\<lambda>_. 0) lane_demo_token lane_demo_events lane_demo_answers) of Lane_Value (Some _) \<Rightarrow> True | _ \<Rightarrow> False"
    by code_simp
  then obtain t where "r = Lane_Value (Some t)" using run by (auto split: lane_outcome.splits option.splits)
  then show ?thesis using span lane_writes_admitted_stream [OF span run] run by simp
qed

end
