(* ===== verification/Volume_Writer.thy ===== *)
theory Volume_Writer
  imports Recovery Lane
begin

text \<open>
  The writer of one segment, \<open>Writer\<close> of \<open>protocol.rs\<close>: the admitted prefix with
  its running checksum and digest, the admission of a window of records into
  every live lane, and the seal.  CRC32C and SHA-256 are parameters.  A lane is
  its byte budget and the batches handed to it; the task that consumes them is
  \<open>run_lane\<close>.  Whether a lane task has already ended when a batch is sent to it
  is an argument of the admission.
\<close>

section \<open>The admitted prefix\<close>

text \<open>A hasher is the bytes it was fed; pending digest work is the queue of the ordered worker.\<close>

datatype digest_state =
    Digest_Ready bytes
  | Digest_Pending bytes "bytes list list"

record admitted_prefix =
  ap_records :: nat
  ap_bytes :: nat
  ap_digest :: digest_state
  ap_crc32c :: nat

definition default_prefix :: admitted_prefix where
  "default_prefix = \<lparr>ap_records = 0, ap_bytes = 0, ap_digest = Digest_Ready [], ap_crc32c = 0\<rparr>"

definition extend_chunk :: "(nat \<Rightarrow> bytes \<Rightarrow> nat) \<Rightarrow> bytes \<Rightarrow> admitted_prefix \<Rightarrow> admitted_prefix" where
  "extend_chunk crc_append chunk p =
     p\<lparr>ap_crc32c := crc_append (ap_crc32c p) chunk, ap_bytes := ap_bytes p + length chunk, ap_records := ap_records p + 1\<rparr>"

definition extend_metadata :: "(nat \<Rightarrow> bytes \<Rightarrow> nat) \<Rightarrow> bytes list \<Rightarrow> admitted_prefix \<Rightarrow> admitted_prefix" where
  "extend_metadata crc_append chunks p = fold (extend_chunk crc_append) chunks p"

definition queue_digest :: "bytes list \<Rightarrow> admitted_prefix \<Rightarrow> admitted_prefix" where
  "queue_digest chunks p =
     p\<lparr>ap_digest := (case ap_digest p of
        Digest_Ready fed \<Rightarrow> Digest_Pending fed [chunks]
      | Digest_Pending fed queued \<Rightarrow> Digest_Pending fed (queued @ [chunks]))\<rparr>"

fun drain_digest :: "digest_state \<Rightarrow> bytes" where
  "drain_digest (Digest_Ready fed) = fed"
| "drain_digest (Digest_Pending fed queued) = fed @ concat (concat queued)"

definition prefix_digest :: "(bytes \<Rightarrow> string) \<Rightarrow> admitted_prefix \<Rightarrow> string \<times> admitted_prefix" where
  "prefix_digest sha p = (let fed = drain_digest (ap_digest p) in (sha fed, p\<lparr>ap_digest := Digest_Ready fed\<rparr>))"

definition shutdown_digest :: "admitted_prefix \<Rightarrow> admitted_prefix" where
  "shutdown_digest p = p\<lparr>ap_digest := Digest_Ready []\<rparr>"


section \<open>The writer\<close>

record lane_handle =
  lh_work :: "batch_descriptor list"
  lh_budget :: lane_budget

record writer =
  wr_replicas :: nat
  wr_config :: client_config
  wr_lanes :: "lane_handle option list"
  wr_admitted :: admitted_prefix
  wr_commits :: commit_tracker
  wr_sealed :: bool
  wr_metadata :: metadata

text \<open>The tokens of \<open>Writer::new\<close> by zone: a later token of a zone replaces an earlier one.\<close>

definition token_of :: "append_token list \<Rightarrow> nat \<Rightarrow> append_token option" where
  "token_of tokens z = List.find (\<lambda>t. tk_zone t = z) (rev tokens)"

definition activate_zone :: "append_token list \<Rightarrow> nat \<Rightarrow> commit_tracker option \<Rightarrow> commit_tracker option" where
  "activate_zone tokens z commits =
     (case token_of tokens z of
        None \<Rightarrow> commits
      | Some token \<Rightarrow> Option.bind commits (activate_lane z (tk_persisted_size token)))"

definition writer_new ::
  "nat \<Rightarrow> client_config \<Rightarrow> metadata \<Rightarrow> append_token list \<Rightarrow> int list \<Rightarrow> writer option" where
  "writer_new n cfg m tokens gauge =
     map_option (\<lambda>commits.
       \<lparr>wr_replicas = n, wr_config = cfg,
        wr_lanes = map (\<lambda>z. map_option (\<lambda>_. \<lparr>lh_work = [], lh_budget = new_budget\<rparr>) (token_of tokens z)) [0..<n],
        wr_admitted = default_prefix, wr_commits = commits, wr_sealed = False, wr_metadata = m\<rparr>)
       (fold (activate_zone tokens) [0..<n] (Some (tracker_new n (majority n) gauge)))"

definition writer_quorum :: "writer \<Rightarrow> nat" where
  "writer_quorum w = majority (wr_replicas w)"

definition writer_admitted_len :: "writer \<Rightarrow> nat" where
  "writer_admitted_len w = admitted_len (wr_commits w)"

definition writer_committed_len :: "writer \<Rightarrow> nat" where
  "writer_committed_len w = committed_len (wr_commits w)"

definition writer_is_poisoned :: "writer \<Rightarrow> bool" where
  "writer_is_poisoned w = is_poisoned (wr_commits w)"

definition physical_size :: "writer \<Rightarrow> nat" where
  "physical_size w = committed_bytes (state (wr_commits w))"

definition set_max_replica_lag_bytes :: "nat \<Rightarrow> writer \<Rightarrow> writer" where
  "set_max_replica_lag_bytes limit w =
     w\<lparr>wr_lanes := map (map_option (\<lambda>l. l\<lparr>lh_budget := set_limit limit (lh_budget l)\<rparr>)) (wr_lanes w)\<rparr>"

definition seal_digest :: "(bytes \<Rightarrow> string) \<Rightarrow> writer \<Rightarrow> string \<times> writer" where
  "seal_digest sha w = (case prefix_digest sha (wr_admitted w) of (d, p) \<Rightarrow> (d, w\<lparr>wr_admitted := p\<rparr>))"

definition seal_crc32c :: "writer \<Rightarrow> nat" where
  "seal_crc32c w = ap_crc32c (wr_admitted w)"

definition shutdown_background_tasks :: "writer \<Rightarrow> writer" where
  "shutdown_background_tasks w = w\<lparr>wr_lanes := [], wr_admitted := shutdown_digest (wr_admitted w)\<rparr>"

text \<open>The lane that has retained too much leaves the writer; \<open>None\<close> is a panic of the tracker.\<close>

definition retire_lane :: "nat \<Rightarrow> writer \<Rightarrow> writer option" where
  "retire_lane z w =
     map_option (\<lambda>t. w\<lparr>wr_lanes := (wr_lanes w)[z := None], wr_commits := t\<rparr>) (finish_lane z None (wr_commits w))"

text \<open>The reservation loop.\<close>

fun reserve_zones :: "nat \<Rightarrow> bool \<Rightarrow> nat list \<Rightarrow> writer \<Rightarrow> (lane_charge option list \<times> writer) option" where
  "reserve_zones n one_record [] w = Some ([], w)"
| "reserve_zones n one_record (z # zs) w =
     (case wr_lanes w ! z of
        None \<Rightarrow> map_option (apfst (Cons None)) (reserve_zones n one_record zs w)
      | Some lane \<Rightarrow>
          (case try_reserve n one_record (lh_budget lane) of
             Some (charge, budget) \<Rightarrow>
               map_option (apfst (Cons (Some charge)))
                 (reserve_zones n one_record zs (w\<lparr>wr_lanes := (wr_lanes w)[z := Some (lane\<lparr>lh_budget := budget\<rparr>)]\<rparr>))
           | None \<Rightarrow>
               Option.bind (retire_lane z w) (\<lambda>w1.
                 map_option (apfst (Cons None)) (reserve_zones n one_record zs w1))))"

text \<open>The loop that sends the batch; \<open>ended z\<close> says that the task of zone \<open>z\<close> has terminated.\<close>

fun send_zones :: "(nat \<Rightarrow> bool) \<Rightarrow> batch_descriptor \<Rightarrow> (nat \<times> lane_charge option) list \<Rightarrow> writer \<Rightarrow> (nat list \<times> writer) option" where
  "send_zones ended b [] w = Some ([], w)"
| "send_zones ended b ((z, reservation) # rest) w =
     (case (wr_lanes w ! z, reservation) of
        (Some lane, Some _) \<Rightarrow>
          if ended z
          then Option.bind (retire_lane z w) (send_zones ended b rest)
          else map_option (apfst (Cons z))
                 (send_zones ended b rest (w\<lparr>wr_lanes := (wr_lanes w)[z := Some (lane\<lparr>lh_work := lh_work lane @ [b]\<rparr>)]\<rparr>))
      | _ \<Rightarrow> send_zones ended b rest w)"

definition live_count :: "'a option list \<Rightarrow> nat" where
  "live_count xs = length (filter (\<lambda>x. x \<noteq> None) xs)"

text \<open>Dropping the reservations of a refused window returns their charges.\<close>

definition release_zones :: "lane_charge option list \<Rightarrow> writer \<Rightarrow> writer" where
  "release_zones reservations w =
     w\<lparr>wr_lanes := map (\<lambda>(lane, reservation). case reservation of
        None \<Rightarrow> lane
      | Some charge \<Rightarrow> map_option (\<lambda>l. l\<lparr>lh_budget := release charge (lh_budget l)\<rparr>) lane) (zip (wr_lanes w) reservations)\<rparr>"

definition poison_writer :: "writer \<Rightarrow> writer" where
  "poison_writer w = w\<lparr>wr_commits := poison (wr_commits w)\<rparr>"

text \<open>\<open>enqueue_data_window\<close>: the admitted range, or the error, and the writer; \<open>None\<close> is a panic.\<close>

definition enqueue_data_window ::
  "(nat \<Rightarrow> bytes \<Rightarrow> nat) \<Rightarrow> (nat \<Rightarrow> bool) \<Rightarrow> record_frame list \<Rightarrow> writer \<Rightarrow> ((protocol_error + nat \<times> nat) \<times> writer) option" where
  "enqueue_data_window crc_append ended records w =
     (if records = [] then Some (Inr (writer_admitted_len w, writer_admitted_len w), w)
      else if wr_sealed w then Some (Inl PE_Finalized, w)
      else if writer_is_poisoned w then Some (Inl PE_Poisoned, w)
      else case collect_results (map encode records) of
        Inl e \<Rightarrow> Some (Inl (PE_Record e), w)
      | Inr chunks \<Rightarrow>
          if live_count (wr_lanes w) < writer_quorum w then Some (Inl PE_NoQuorum, poison_writer w)
          else Option.bind (reserve_zones (sum_list (map length chunks)) (length chunks = 1) [0..<length (wr_lanes w)] w)
            (\<lambda>(reservations, w1).
              if live_count reservations < writer_quorum w then Some (Inl PE_NoQuorum, release_zones reservations (poison_writer w1))
              else let start = int (ap_bytes (wr_admitted w1));
                       b = \<lparr>bd_start = start, bd_chunks = chunks, bd_boundaries = chunk_ends start chunks\<rparr>;
                       w2 = w1\<lparr>wr_admitted := extend_metadata crc_append chunks (wr_admitted w1)\<rparr>
                   in Option.bind (send_zones ended b (enumerate 0 reservations) w2) (\<lambda>(zones, w3).
                      let w4 = w3\<lparr>wr_admitted := queue_digest chunks (wr_admitted w3)\<rparr>
                      in map_option (\<lambda>(t, first, e). (Inr (first, e), w4\<lparr>wr_commits := t\<rparr>))
                           (admit_window (bd_boundaries b) zones (wr_commits w4)))))"

section \<open>Executions\<close>

text \<open>What happens to a writer before it is sealed: windows are admitted, and its lanes publish durable
  offsets, end, and release the charges of durable batches.\<close>

datatype writer_event =
    W_Enqueue "nat \<Rightarrow> bool" "record_frame list"
  | W_Durable nat int
  | W_Finish nat "transport_error option"
  | W_Release nat lane_charge
  | W_Limit nat

definition release_lane :: "nat \<Rightarrow> lane_charge \<Rightarrow> writer \<Rightarrow> writer" where
  "release_lane z charge w =
     w\<lparr>wr_lanes := map (\<lambda>i. if i = z then map_option (\<lambda>l. l\<lparr>lh_budget := release charge (lh_budget l)\<rparr>) (wr_lanes w ! i)
        else wr_lanes w ! i) [0..<length (wr_lanes w)]\<rparr>"

definition on_commits :: "(commit_tracker \<Rightarrow> commit_tracker option) \<Rightarrow> writer \<Rightarrow> writer option" where
  "on_commits f w = map_option (\<lambda>t. w\<lparr>wr_commits := t\<rparr>) (f (wr_commits w))"

text \<open>A run also accumulates the records of the windows that were admitted.\<close>

fun writer_step ::
  "(nat \<Rightarrow> bytes \<Rightarrow> nat) \<Rightarrow> record_frame list \<times> writer \<Rightarrow> writer_event \<Rightarrow> (record_frame list \<times> writer) option" where
  "writer_step crc_append (recs, w) (W_Enqueue ended records) =
     map_option (\<lambda>(r, w'). (case r of Inl _ \<Rightarrow> recs | Inr _ \<Rightarrow> recs @ records, w'))
       (enqueue_data_window crc_append ended records w)"
| "writer_step crc_append (recs, w) (W_Durable z d) = map_option (Pair recs) (on_commits (publish_durable z d) w)"
| "writer_step crc_append (recs, w) (W_Finish z e) = map_option (Pair recs) (on_commits (finish_lane z e) w)"
| "writer_step crc_append (recs, w) (W_Release z charge) = Some (recs, release_lane z charge w)"
| "writer_step crc_append (recs, w) (W_Limit limit) = Some (recs, set_max_replica_lag_bytes limit w)"

fun run_writer ::
  "(nat \<Rightarrow> bytes \<Rightarrow> nat) \<Rightarrow> record_frame list \<times> writer \<Rightarrow> writer_event list \<Rightarrow> (record_frame list \<times> writer) option" where
  "run_writer crc_append c [] = Some c"
| "run_writer crc_append c (e # es) = Option.bind (writer_step crc_append c e) (\<lambda>c'. run_writer crc_append c' es)"


section \<open>The admitted stream\<close>

lemma run_tracker_append:
  "run_tracker c (xs @ ys) = Option.bind (run_tracker c xs) (\<lambda>c'. run_tracker c' ys)"
  by (induction xs arbitrary: c) (auto split: option.splits)

text \<open>\<open>tracker_reached n g bs t\<close>: the tracker is the result of a run that admitted the boundaries \<open>bs\<close>.\<close>

definition tracker_reached :: "nat \<Rightarrow> int list \<Rightarrow> int list \<Rightarrow> commit_tracker \<Rightarrow> bool" where
  "tracker_reached n g bs t \<longleftrightarrow> (\<exists>es. run_tracker ([], tracker_new n (majority n) g) es = Some (bs, t))"

lemma tracker_reached_step:
  "tracker_reached n g bs t \<Longrightarrow> tracker_step (bs, t) e = Some (bs', t') \<Longrightarrow> tracker_reached n g bs' t'"
  unfolding tracker_reached_def by (elim exE) (rule_tac x = "es @ [e]" in exI, simp add: run_tracker_append)

lemma tracker_reached_finish: "tracker_reached n g bs t \<Longrightarrow> finish_lane z e t = Some t' \<Longrightarrow> tracker_reached n g bs t'"
  by (rule tracker_reached_step [of n g bs t "Finish z e"]) simp_all

lemma tracker_reached_durable: "tracker_reached n g bs t \<Longrightarrow> publish_durable z d t = Some t' \<Longrightarrow> tracker_reached n g bs t'"
  by (rule tracker_reached_step [of n g bs t "Durable z d"]) simp_all

lemma tracker_reached_poison: "tracker_reached n g bs t \<Longrightarrow> tracker_reached n g bs (poison t)"
  by (rule tracker_reached_step [of n g bs t Poison]) simp_all

lemma tracker_reached_admit:
  "tracker_reached n g bs t \<Longrightarrow> sorted (0 # bs @ ws) \<Longrightarrow> admit_window ws zones t = Some (t', first, e) \<Longrightarrow>
     tracker_reached n g (bs @ ws) t'"
  by (rule tracker_reached_step [of n g bs t "Admit ws zones"]) simp_all

lemma chunk_ends_append: "chunk_ends a (xs @ ys) = chunk_ends a xs @ chunk_ends (a + int (length (concat xs))) ys"
  by (induction xs arbitrary: a) (simp_all add: add.assoc)

lemma sorted_chunk_ends: "sorted (a # chunk_ends a cs)"
  by (induction cs arbitrary: a) fastforce+

lemma written_grows: "written S at d \<Longrightarrow> written (S @ x) at d"
proof -
  assume w: "written S at d"
  then have t: "take (length d) (drop (nat at) S) = d" and p: "0 \<le> at" by (auto simp: written_def)
  then have "length d \<le> length (drop (nat at) S)" by (metis length_take min.cobounded1 min_def order_refl)
  then have "take (length d) (drop (nat at) (S @ x)) = take (length d) (drop (nat at) S)" by (cases "d = []") simp_all
  then show ?thesis using t p by (simp add: written_def)
qed

lemma batches_span_grows: "batches_span S a bs e \<Longrightarrow> batches_span (S @ x) a bs e"
  by (induction bs arbitrary: a) (auto simp: batch_ok_def intro: written_grows)

lemma written_end: "written (S @ x) (int (length S)) x"
  by (simp add: written_def)

definition same_writer :: "writer \<Rightarrow> writer \<Rightarrow> bool" where
  "same_writer w w' \<longleftrightarrow> wr_replicas w' = wr_replicas w \<and> wr_sealed w' = wr_sealed w
     \<and> wr_admitted w' = wr_admitted w \<and> length (wr_lanes w') = length (wr_lanes w)"

text \<open>A lane that is still there was there before, with the work it had and \<open>more\<close>.\<close>

definition lane_follows :: "batch_descriptor list \<Rightarrow> lane_handle option \<Rightarrow> lane_handle option \<Rightarrow> bool" where
  "lane_follows bs l l' \<longleftrightarrow> (\<forall>h'. l' = Some h' \<longrightarrow> (\<exists>h. l = Some h \<and> lh_work h' = lh_work h @ bs))"

lemma retire_lane_spec:
  assumes "retire_lane z w = Some w'" "z < length (wr_lanes w)" "tracker_reached n g bs (wr_commits w)"
  shows "same_writer w w' \<and> wr_lanes w' = (wr_lanes w)[z := None] \<and> tracker_reached n g bs (wr_commits w')"
  using assms tracker_reached_finish by (auto simp: retire_lane_def same_writer_def)

lemma same_writer_trans: "same_writer w w1 \<Longrightarrow> same_writer w1 w2 \<Longrightarrow> same_writer w w2"
  by (simp add: same_writer_def)

lemma lane_follows_refl [simp]: "lane_follows [] l l" "lane_follows bs l None"
  by (simp_all add: lane_follows_def)

text \<open>What a loop over zones leaves: untouched zones as they were, and for every zone it visited, in order, the
  relation \<open>R\<close> between the lane before, the lane after and the item produced for it.\<close>

definition zones_done ::
  "(lane_handle option \<Rightarrow> lane_handle option \<Rightarrow> 'a \<Rightarrow> bool) \<Rightarrow> nat list \<Rightarrow> 'a list \<Rightarrow> writer \<Rightarrow> writer \<Rightarrow> bool" where
  "zones_done R zs rs w w' \<longleftrightarrow>
     (\<forall>z. z \<notin> set zs \<longrightarrow> wr_lanes w' ! z = wr_lanes w ! z)
   \<and> list_all2 (\<lambda>z r. R (wr_lanes w ! z) (wr_lanes w' ! z) r) zs rs"

lemma zones_done_Cons:
  assumes "zones_done R zs rs w1 w'" "z \<notin> set zs" "\<And>z'. z' \<noteq> z \<Longrightarrow> wr_lanes w1 ! z' = wr_lanes w ! z'"
    and "R (wr_lanes w ! z) (wr_lanes w1 ! z) r"
  shows "zones_done R (z # zs) (r # rs) w w'"
proof -
  have "list_all2 (\<lambda>z r. R (wr_lanes w ! z) (wr_lanes w' ! z) r) zs rs"
    using assms(1-3) unfolding zones_done_def list_all2_conv_all_nth by (metis nth_mem)
  then show ?thesis using assms by (auto simp: zones_done_def)
qed

lemma reserve_zones_spec:
  assumes "reserve_zones k one zs w = Some (rs, w')" "distinct zs" "\<forall>z \<in> set zs. z < length (wr_lanes w)"
    and "tracker_reached n g bs (wr_commits w)"
  shows "same_writer w w' \<and> tracker_reached n g bs (wr_commits w')
    \<and> zones_done (\<lambda>l l' r. lane_follows [] l l' \<and> (l' \<noteq> None \<longrightarrow> r \<noteq> None)) zs rs w w'"
  using assms
proof (induction zs arbitrary: w rs)
  case Nil
  then show ?case by (simp add: zones_done_def same_writer_def)
next
  case (Cons z zs)
  let ?R = "\<lambda>l l' r. lane_follows [] l l' \<and> (l' \<noteq> None \<longrightarrow> r \<noteq> (None :: lane_charge option))"
  have z: "z < length (wr_lanes w)" "z \<notin> set zs" "distinct zs" using Cons.prems by auto
  obtain w1 r rs1 where step: "rs = r # rs1" "reserve_zones k one zs w1 = Some (rs1, w')"
      "same_writer w w1" "tracker_reached n g bs (wr_commits w1)" "\<And>z'. z' \<noteq> z \<Longrightarrow> wr_lanes w1 ! z' = wr_lanes w ! z'"
      "?R (wr_lanes w ! z) (wr_lanes w1 ! z) r"
  proof (cases "wr_lanes w ! z")
    case None
    then show thesis using Cons.prems that [of None _ w] by (auto simp: same_writer_def)
  next
    case (Some lane)
    show thesis
    proof (cases "try_reserve k one (lh_budget lane)")
      case None
      then obtain w1 where "retire_lane z w = Some w1" "\<exists>rs1. rs = None # rs1 \<and> reserve_zones k one zs w1 = Some (rs1, w')"
        using Cons.prems(1) Some by (auto simp: bind_eq_Some_conv)
      then show thesis using that retire_lane_spec [of z w w1, OF _ z(1) Cons.prems(4)] z(1) by auto
    next
      case res: (Some cb)
      then obtain charge budget where cb: "try_reserve k one (lh_budget lane) = Some (charge, budget)" by (cases cb) auto
      let ?w1 = "w\<lparr>wr_lanes := (wr_lanes w)[z := Some (lane\<lparr>lh_budget := budget\<rparr>)]\<rparr>"
      obtain rs1 where "rs = Some charge # rs1" "reserve_zones k one zs ?w1 = Some (rs1, w')"
        using Cons.prems(1) Some cb by auto
      then show thesis using that [of "Some charge" rs1 ?w1] Some z(1) Cons.prems(4)
        by (auto simp: same_writer_def lane_follows_def)
    qed
  qed
  have "\<forall>z \<in> set zs. z < length (wr_lanes w1)" using Cons.prems(3) step(3) by (simp add: same_writer_def)
  from Cons.IH [OF step(2) z(3) this step(4)] step zones_done_Cons [of ?R zs rs1 w1 w' z w r] z(2)
  show ?case using same_writer_trans by blast
qed

lemma send_zones_spec:
  assumes "send_zones ended b (zip zs rs) w = Some (sent, w')" "length zs = length rs"
    and "distinct zs" "\<forall>z \<in> set zs. z < length (wr_lanes w)" "tracker_reached n g bs (wr_commits w)"
  shows "same_writer w w' \<and> tracker_reached n g bs (wr_commits w')
    \<and> zones_done (\<lambda>l l' r. lane_follows (if r = None then [] else [b]) l l') zs rs w w'"
  using assms(2,1,3-5)
proof (induction zs rs arbitrary: w sent rule: list_induct2)
  case Nil
  then show ?case by (simp add: zones_done_def same_writer_def)
next
  case (Cons z zs r rs)
  let ?R = "\<lambda>l l' r. lane_follows (if r = None then [] else [b]) l l'"
  have z: "z < length (wr_lanes w)" "z \<notin> set zs" "distinct zs" using Cons.prems by auto
  obtain w1 sent1 where step: "send_zones ended b (zip zs rs) w1 = Some (sent1, w')"
      "same_writer w w1" "tracker_reached n g bs (wr_commits w1)" "\<And>z'. z' \<noteq> z \<Longrightarrow> wr_lanes w1 ! z' = wr_lanes w ! z'"
      "?R (wr_lanes w ! z) (wr_lanes w1 ! z) r"
  proof (cases "wr_lanes w ! z = None \<or> r = None")
    case True
    then have "send_zones ended b (zip zs rs) w = Some (sent, w')"
      using Cons.prems(1) by (auto split: option.splits)
    then show thesis using True Cons.prems(4) that [of w] by (auto simp: same_writer_def lane_follows_def)
  next
    case False
    then obtain lane charge where lc: "wr_lanes w ! z = Some lane" "r = Some charge" by auto
    let ?w1 = "w\<lparr>wr_lanes := (wr_lanes w)[z := Some (lane\<lparr>lh_work := lh_work lane @ [b]\<rparr>)]\<rparr>"
    show thesis
    proof (cases "ended z")
      case True
      then obtain w1 where "retire_lane z w = Some w1" "send_zones ended b (zip zs rs) w1 = Some (sent, w')"
        using Cons.prems(1) lc by (auto simp: bind_eq_Some_conv)
      then show thesis using that retire_lane_spec [of z w w1, OF _ z(1) Cons.prems(4)] z(1) by auto
    next
      case False
      then obtain sent1 where "send_zones ended b (zip zs rs) ?w1 = Some (sent1, w')" using Cons.prems(1) lc by auto
      then show thesis using that [of ?w1] lc z(1) Cons.prems(4) by (auto simp: same_writer_def lane_follows_def)
    qed
  qed
  have "\<forall>z \<in> set zs. z < length (wr_lanes w1)" using Cons.prems(3) step(2) by (simp add: same_writer_def)
  from Cons.IH [OF step(1) z(3) this step(3)] step zones_done_Cons [of ?R zs rs w1 w' z w r] z(2)
  show ?case using same_writer_trans by blast
qed

text \<open>The writer's invariant: its running values are those of the stream \<open>S\<close> of all admitted chunks, and
  every live lane was handed consecutive batches of all of it.\<close>

definition writer_inv ::
  "(bytes \<Rightarrow> nat) \<Rightarrow> nat \<Rightarrow> int list \<Rightarrow> record_frame list \<Rightarrow> writer \<Rightarrow> bool" where
  "writer_inv crc n g recs w \<longleftrightarrow>
     (\<exists>chunks. collect_results (map encode recs) = Inr chunks
        \<and> ap_records (wr_admitted w) = length recs \<and> ap_bytes (wr_admitted w) = length (concat chunks)
        \<and> ap_crc32c (wr_admitted w) = crc (concat chunks) \<and> drain_digest (ap_digest (wr_admitted w)) = concat chunks
        \<and> tracker_reached n g (chunk_ends 0 chunks) (wr_commits w)
        \<and> wr_replicas w = n \<and> length (wr_lanes w) = n
        \<and> (\<forall>z h. z < n \<longrightarrow> wr_lanes w ! z = Some h \<longrightarrow>
              batches_span (concat chunks) 0 (lh_work h) (int (length (concat chunks)))))"

text \<open>What the source relies on of \<open>crc32c_append\<close>.\<close>

definition appends_crc :: "(nat \<Rightarrow> bytes \<Rightarrow> nat) \<Rightarrow> (bytes \<Rightarrow> nat) \<Rightarrow> bool" where
  "appends_crc crc_append crc \<longleftrightarrow> crc [] = 0 \<and> (\<forall>a b. crc_append (crc a) b = crc (a @ b))"

lemma extend_metadata_spec:
  assumes "appends_crc crc_append crc" "ap_crc32c p = crc S"
  shows "ap_crc32c (extend_metadata crc_append chunks p) = crc (S @ concat chunks)
    \<and> ap_bytes (extend_metadata crc_append chunks p) = ap_bytes p + length (concat chunks)
    \<and> ap_records (extend_metadata crc_append chunks p) = ap_records p + length chunks
    \<and> ap_digest (extend_metadata crc_append chunks p) = ap_digest p"
  using assms(2)
proof (induction chunks arbitrary: p S)
  case (Cons c chunks)
  have "ap_crc32c (extend_chunk crc_append c p) = crc (S @ c)"
    using assms(1) Cons.prems by (simp add: appends_crc_def extend_chunk_def)
  from Cons.IH [OF this] show ?case by (simp add: extend_metadata_def extend_chunk_def)
qed (simp add: extend_metadata_def)

lemma queue_digest_spec:
  "drain_digest (ap_digest (queue_digest chunks p)) = drain_digest (ap_digest p) @ concat chunks"
  "ap_records (queue_digest chunks p) = ap_records p" "ap_bytes (queue_digest chunks p) = ap_bytes p"
  "ap_crc32c (queue_digest chunks p) = ap_crc32c p"
  by (simp_all add: queue_digest_def split: digest_state.split)

lemma collect_results_append:
  "collect_results (xs @ ys) = and_then (collect_results xs) (\<lambda>a. and_then (collect_results ys) (\<lambda>b. Inr (a @ b)))"
proof (induction xs)
  case Nil
  then show ?case by (cases "collect_results ys") auto
next
  case (Cons x xs)
  then show ?case by (cases x; cases "collect_results xs"; cases "collect_results ys") auto
qed

lemma collect_results_length: "collect_results rs = Inr xs \<Longrightarrow> length xs = length rs"
  by (induction rs arbitrary: xs) (auto simp: result_simps)

text \<open>Steps that hand out no work keep the invariant.\<close>

lemma writer_inv_mono:
  assumes "writer_inv crc n g recs w" "wr_replicas w' = wr_replicas w" "wr_admitted w' = wr_admitted w"
    and "length (wr_lanes w') = length (wr_lanes w)" "\<And>bs. tracker_reached n g bs (wr_commits w) \<Longrightarrow> tracker_reached n g bs (wr_commits w')"
    and "\<And>z. z < n \<Longrightarrow> lane_follows [] (wr_lanes w ! z) (wr_lanes w' ! z)"
  shows "writer_inv crc n g recs w'"
  using assms unfolding writer_inv_def lane_follows_def by (metis append_Nil2)

lemma zones_done_all: "zones_done R [0..<n] rs w w' \<Longrightarrow> z < n \<Longrightarrow> R (wr_lanes w ! z) (wr_lanes w' ! z) (rs ! z)"
  by (auto simp: zones_done_def list_all2_conv_all_nth)

lemma release_zones_spec:
  assumes "length reservations = length (wr_lanes w)"
  shows "wr_replicas (release_zones reservations w) = wr_replicas w" "wr_admitted (release_zones reservations w) = wr_admitted w"
    "wr_commits (release_zones reservations w) = wr_commits w" "length (wr_lanes (release_zones reservations w)) = length (wr_lanes w)"
    "z < length (wr_lanes w) \<Longrightarrow> lane_follows [] (wr_lanes w ! z) (wr_lanes (release_zones reservations w) ! z)"
  using assms by (auto simp: release_zones_def lane_follows_def split: option.splits)

lemma enqueue_admits:
  assumes inv: "writer_inv crc n g recs w" and crc: "appends_crc crc_append crc"
    and enc: "collect_results (map encode records) = Inr chunks" "records \<noteq> []"
    and res: "zones_done (\<lambda>l l' r. lane_follows [] l l' \<and> (l' \<noteq> None \<longrightarrow> r \<noteq> None)) [0..<n] rs w w1"
      "same_writer w w1" "length rs = n"
    and b: "b = \<lparr>bd_start = int (ap_bytes (wr_admitted w1)), bd_chunks = chunks,
      bd_boundaries = chunk_ends (int (ap_bytes (wr_admitted w1))) chunks\<rparr>"
    and w2: "w2 = w1\<lparr>wr_admitted := extend_metadata crc_append chunks (wr_admitted w1)\<rparr>"
    and sent: "same_writer w2 w3" "zones_done (\<lambda>l l' r. lane_follows (if r = None then [] else [b]) l l') [0..<n] rs w2 w3"
    and commits: "\<And>bs. tracker_reached n g bs (wr_commits w) \<Longrightarrow> tracker_reached n g bs (wr_commits w3)"
    and adm: "admit_window (bd_boundaries b) zones (wr_commits w3) = Some (t, first, e)"
  shows "writer_inv crc n g (recs @ records)
    (w3\<lparr>wr_admitted := queue_digest chunks (wr_admitted w3), wr_commits := t\<rparr>)"
proof -
  obtain old where o: "collect_results (map encode recs) = Inr old"
      "ap_records (wr_admitted w) = length recs" "ap_bytes (wr_admitted w) = length (concat old)"
      "ap_crc32c (wr_admitted w) = crc (concat old)" "drain_digest (ap_digest (wr_admitted w)) = concat old"
      "tracker_reached n g (chunk_ends 0 old) (wr_commits w)" "wr_replicas w = n" "length (wr_lanes w) = n"
      "\<And>z h. z < n \<Longrightarrow> wr_lanes w ! z = Some h \<Longrightarrow> batches_span (concat old) 0 (lh_work h) (int (length (concat old)))"
    using inv unfolding writer_inv_def by blast
  let ?S = "concat (old @ chunks)" and ?p = "extend_metadata crc_append chunks (wr_admitted w)"
  have ap: "wr_admitted w1 = wr_admitted w" "wr_admitted w3 = ?p" using res(2) sent(1) w2 by (auto simp: same_writer_def)
  have b': "bd_start b = int (length (concat old))" "bd_chunks b = chunks" "bd_boundaries b = chunk_ends (int (length (concat old))) chunks"
    using b ap o(3) by auto
  have "chunks \<noteq> []" using enc collect_results_length by fastforce
  then have ok: "batch_ok ?S b" using b' written_end [of "concat old" "concat chunks"] by (simp add: batch_ok_def)
  then have e_b: "bd_end b = int (length ?S)" using batch_start_end(2) [OF ok] b' by simp
  have lanes: "batches_span ?S 0 (lh_work h) (int (length ?S))" if zn: "z < n" and live: "wr_lanes w3 ! z = Some h" for z h
  proof -
    have r: "lane_follows (if rs ! z = None then [] else [b]) (wr_lanes w1 ! z) (Some h)"
      using zones_done_all [OF sent(2) zn] live w2 by simp
    then obtain h1 where h1: "wr_lanes w1 ! z = Some h1" "lh_work h = lh_work h1 @ (if rs ! z = None then [] else [b])"
      by (auto simp: lane_follows_def)
    then obtain h0 where "wr_lanes w ! z = Some h0" "lh_work h1 = lh_work h0" "rs ! z \<noteq> None"
      using zones_done_all [OF res(1) zn] by (auto simp: lane_follows_def)
    then show ?thesis using o(9) [OF zn] h1 ok e_b b'(1) batches_span_grows [of "concat old" 0 _ _ "concat chunks"]
      by (auto simp: batches_span_append)
  qed
  have tr: "tracker_reached n g (chunk_ends 0 (old @ chunks)) t"
    using tracker_reached_admit [OF commits [OF o(6)] _ adm] sorted_chunk_ends [of 0 "old @ chunks"] b'(3) by (simp add: chunk_ends_append)
  have "collect_results (map encode (recs @ records)) = Inr (old @ chunks)"
    using o(1) enc(1) by (simp add: collect_results_append)
  then show ?thesis
    unfolding writer_inv_def
    using extend_metadata_spec [OF crc o(4), of chunks] o ap lanes tr res(2) sent(1) w2 collect_results_length [OF enc(1)]
    by (intro exI [of _ "old @ chunks"]) (simp add: queue_digest_spec same_writer_def)
qed

lemma enqueue_inv:
  assumes inv: "writer_inv crc n g recs w" and crc: "appends_crc crc_append crc"
    and enq: "enqueue_data_window crc_append ended records w = Some (r, w')"
  shows "writer_inv crc n g (case r of Inl _ \<Rightarrow> recs | Inr _ \<Rightarrow> recs @ records) w'"
proof (cases "records = [] \<or> wr_sealed w \<or> writer_is_poisoned w \<or> (\<exists>e. collect_results (map encode records) = Inl e)
    \<or> live_count (wr_lanes w) < writer_quorum w")
  case True
  have "writer_inv crc n g recs (poison_writer w)"
    by (rule writer_inv_mono [OF inv]) (simp_all add: poison_writer_def tracker_reached_poison)
  then show ?thesis using True inv enq by (auto simp: enqueue_data_window_def split: if_splits sum.splits)
next
  case False
  then obtain chunks where c: "collect_results (map encode records) = Inr chunks"
    by (cases "collect_results (map encode records)") auto
  have n: "length (wr_lanes w) = n" using inv by (auto simp: writer_inv_def)
  obtain bs where tr: "tracker_reached n g bs (wr_commits w)" using inv by (auto simp: writer_inv_def)
  let ?b = "\<lambda>w1. \<lparr>bd_start = int (ap_bytes (wr_admitted w1)), bd_chunks = chunks,
      bd_boundaries = chunk_ends (int (ap_bytes (wr_admitted w1))) chunks\<rparr>"
  obtain rs w1 where rz: "reserve_zones (sum_list (map length chunks)) (length chunks = 1) [0..<n] w = Some (rs, w1)"
    using False c enq n by (auto simp: enqueue_data_window_def bind_eq_Some_conv)
  have res: "same_writer w w1" "\<And>bs. tracker_reached n g bs (wr_commits w) \<Longrightarrow> tracker_reached n g bs (wr_commits w1)"
      "zones_done (\<lambda>l l' r. lane_follows [] l l' \<and> (l' \<noteq> None \<longrightarrow> r \<noteq> None)) [0..<n] rs w w1"
    using reserve_zones_spec [OF rz, of n g] n tr by auto
  have len: "length rs = n" using res(3) by (auto simp: zones_done_def dest: list_all2_lengthD)
  have n1: "length (wr_lanes w1) = n" using res(1) n by (simp add: same_writer_def)
  have inv1: "writer_inv crc n g recs (release_zones rs (poison_writer w1))"
  proof (rule writer_inv_mono [OF inv])
    show "lane_follows [] (wr_lanes w ! z) (wr_lanes (release_zones rs (poison_writer w1)) ! z)" if "z < n" for z
      using zones_done_all [OF res(3) that] release_zones_spec(5) [of rs "poison_writer w1" z] len n1 that
      by (auto simp: poison_writer_def lane_follows_def)
  qed (use res(1,2) len n1 n tracker_reached_poison in \<open>auto simp: release_zones_spec same_writer_def poison_writer_def\<close>)
  show ?thesis
  proof (cases "live_count rs < writer_quorum w")
    case True
    then show ?thesis using False c enq n rz inv1 by (auto simp: enqueue_data_window_def)
  next
    case ok: False
    let ?w2 = "w1\<lparr>wr_admitted := extend_metadata crc_append chunks (wr_admitted w1)\<rparr>"
    obtain zones w3 t first e where s: "send_zones ended (?b w1) (zip [0..<n] rs) ?w2 = Some (zones, w3)"
        "admit_window (bd_boundaries (?b w1)) zones (wr_commits w3) = Some (t, first, e)"
        "r = Inr (first, e)" "w' = w3\<lparr>wr_admitted := queue_digest chunks (wr_admitted w3), wr_commits := t\<rparr>"
      using False c enq n rz ok by (auto simp: enqueue_data_window_def bind_eq_Some_conv Let_def enumerate_eq_zip len)
    have sent: "same_writer ?w2 w3" "zones_done (\<lambda>l l' r. lane_follows (if r = None then [] else [?b w1]) l l') [0..<n] rs ?w2 w3"
        "\<And>bs. tracker_reached n g bs (wr_commits w1) \<Longrightarrow> tracker_reached n g bs (wr_commits w3)"
      using send_zones_spec [OF s(1), of n g] len n1 res(2) [OF tr] by auto
    have "records \<noteq> []" using False by simp
    from enqueue_admits [OF inv crc c this res(3,1) len refl refl sent(1,2) _ s(2)] sent(3) res(2) s(3,4)
    show ?thesis by simp
  qed
qed

lemma on_commits_inv:
  assumes "writer_inv crc n g recs w" "on_commits f w = Some w'"
    and "\<And>bs t'. tracker_reached n g bs (wr_commits w) \<Longrightarrow> f (wr_commits w) = Some t' \<Longrightarrow> tracker_reached n g bs t'"
  shows "writer_inv crc n g recs w'"
  using assms(2,3) by (auto simp: on_commits_def intro!: writer_inv_mono [OF assms(1)])

lemma writer_step_inv:
  assumes "writer_inv crc n g recs w" "appends_crc crc_append crc" "writer_step crc_append (recs, w) ev = Some (recs', w')"
  shows "writer_inv crc n g recs' w'"
proof -
  have n: "length (wr_lanes w) = n" using assms(1) by (auto simp: writer_inv_def)
  show ?thesis
  proof (cases ev)
    case (W_Enqueue ended records)
    then show ?thesis using assms(3) enqueue_inv [OF assms(1,2)] by auto
  next
    case (W_Durable z d)
    then show ?thesis using assms(3) on_commits_inv [OF assms(1)] tracker_reached_durable by auto
  next
    case (W_Finish z e)
    then show ?thesis using assms(3) on_commits_inv [OF assms(1)] tracker_reached_finish by auto
  next
    case (W_Release z charge)
    have "writer_inv crc n g recs (release_lane z charge w)"
      by (rule writer_inv_mono [OF assms(1)]) (use n in \<open>auto simp: release_lane_def lane_follows_def split: if_splits\<close>)
    then show ?thesis using assms(3) W_Release by auto
  next
    case (W_Limit limit)
    have "writer_inv crc n g recs (set_max_replica_lag_bytes limit w)"
      by (rule writer_inv_mono [OF assms(1)]) (use n in \<open>auto simp: set_max_replica_lag_bytes_def lane_follows_def\<close>)
    then show ?thesis using assms(3) W_Limit by auto
  qed
qed

lemma run_writer_inv:
  "writer_inv crc n g recs w \<Longrightarrow> appends_crc crc_append crc \<Longrightarrow> run_writer crc_append (recs, w) es = Some (recs', w') \<Longrightarrow>
     writer_inv crc n g recs' w'"
proof (induction es arbitrary: recs w)
  case (Cons e es)
  then obtain recs1 w1 where "writer_step crc_append (recs, w) e = Some (recs1, w1)" "run_writer crc_append (recs1, w1) es = Some (recs', w')"
    by (auto simp: bind_eq_Some_conv)
  then show ?case using Cons.IH [of recs1 w1] writer_step_inv [OF Cons.prems(1,2)] Cons.prems(2) by blast
qed simp

lemma activate_zones_reached:
  assumes "tracker_reached n g [] t" "fold (activate_zone tokens) zs (Some t) = Some t'"
  shows "tracker_reached n g [] t'"
  using assms
proof (induction zs arbitrary: t)
  case (Cons z zs)
  have none: "fold (activate_zone tokens) zs None = None" for zs
    by (induction zs) (auto simp: activate_zone_def split: option.splits)
  then obtain t1 where t1: "activate_zone tokens z (Some t) = Some t1" using Cons.prems(2) by (cases "activate_zone tokens z (Some t)") auto
  have "tracker_reached n g [] t1"
    using t1 Cons.prems(1) tracker_reached_step [of n g "[]" t "Activate z _"]
    by (auto simp: activate_zone_def split: option.splits)
  then show ?case using Cons.IH [of t1] Cons.prems(2) t1 by simp
qed simp

lemma writer_new_inv:
  assumes "writer_new n cfg m tokens g = Some w" "crc [] = 0"
  shows "writer_inv crc n g [] w"
proof -
  obtain t where t: "fold (activate_zone tokens) [0..<n] (Some (tracker_new n (majority n) g)) = Some t"
      "w = \<lparr>wr_replicas = n, wr_config = cfg,
        wr_lanes = map (\<lambda>z. map_option (\<lambda>_. \<lparr>lh_work = [], lh_budget = new_budget\<rparr>) (token_of tokens z)) [0..<n],
        wr_admitted = default_prefix, wr_commits = t, wr_sealed = False, wr_metadata = m\<rparr>"
    using assms(1) by (auto simp: writer_new_def)
  have "tracker_reached n g [] (tracker_new n (majority n) g)"
    unfolding tracker_reached_def by (rule exI [of _ "[]"]) simp
  from activate_zones_reached [OF this t(1)] show ?thesis
    unfolding t(2) writer_inv_def using assms(2) by (intro exI [of _ "[]"]) (auto simp: default_prefix_def)
qed

section \<open>Sealing\<close>

type_synonym seal_report = "replica_snapshot option list"

definition all_replicas_finalized :: "seal_report \<Rightarrow> bool" where
  "all_replicas_finalized report \<longleftrightarrow> report \<noteq> [] \<and> live_count report = length report"

text \<open>What lanes tell the tracker while the writer seals.\<close>

datatype lane_notice = Notice_Durable nat int | Notice_Finish nat "transport_error option"

fun apply_notice :: "lane_notice \<Rightarrow> commit_tracker \<Rightarrow> commit_tracker option" where
  "apply_notice (Notice_Durable z d) t = publish_durable z d t"
| "apply_notice (Notice_Finish z e) t = finish_lane z e t"

fun apply_notices :: "lane_notice list \<Rightarrow> commit_tracker \<Rightarrow> commit_tracker option" where
  "apply_notices [] t = Some t"
| "apply_notices (x # xs) t = Option.bind (apply_notice x t) (apply_notices xs)"

text \<open>The loop that waits for the watermark: the outcome, the tracker and the notices that are still to come;
  \<open>None\<close> while it waits.\<close>

fun settle :: "nat \<Rightarrow> lane_notice list \<Rightarrow> commit_tracker \<Rightarrow> ((protocol_error + unit) \<times> commit_tracker \<times> lane_notice list) option" where
  "settle total_records notices t =
     (if sn_failure (updates t) \<noteq> None then Some (Inl PE_Poisoned, t, notices)
      else if total_records \<le> sn_committed (updates t) then Some (Inr (), t, notices)
      else case notices of
             [] \<Rightarrow> None
           | x # xs \<Rightarrow> Option.bind (apply_notice x t) (settle total_records xs))"

declare settle.simps [simp del]

text \<open>The lane tasks in the order they end, each with the token of a drained lane: a quorum of drained lanes is
  awaited, then those that end within the grace period, of which there are \<open>grace\<close>.\<close>

fun await_drains ::
  "nat \<Rightarrow> (nat \<times> append_token) list \<Rightarrow> (nat \<times> append_token) option list \<Rightarrow> (nat \<times> append_token) list \<times> (nat \<times> append_token) option list" where
  "await_drains q drained [] = (drained, [])"
| "await_drains q drained (x # xs) =
     (if length drained < q then await_drains q (case x of None \<Rightarrow> drained | Some d \<Rightarrow> drained @ [d]) xs
      else (drained, x # xs))"

definition drained_lanes :: "nat \<Rightarrow> nat \<Rightarrow> (nat \<times> append_token) option list \<Rightarrow> (nat \<times> append_token) list" where
  "drained_lanes q grace ends =
     (case await_drains q [] ends of (drained, rest) \<Rightarrow> drained @ List.map_filter id (take grace rest))"

definition finalize_lane ::
  "'w replica_ops \<Rightarrow> client_config \<Rightarrow> int \<Rightarrow> nat \<times> append_token \<Rightarrow> ('w, transport_error + nat \<times> replica_snapshot) state" where
  "finalize_lane ops cfg write_offset lane = do {
     (r, _) \<leftarrow> finalize_with_retry ops cfg (fst lane) (max_retries cfg) (snd lane) write_offset;
     State_Monad.return (case r of Inl e \<Rightarrow> Inl e | Inr s \<Rightarrow> Inr (fst lane, s))
   }"

definition finalized_vector :: "nat \<Rightarrow> (transport_error + nat \<times> replica_snapshot) list \<Rightarrow> seal_report" where
  "finalized_vector n results = fold (\<lambda>(z, s) v. v[z := Some s]) (oks results) (replicate n None)"

text \<open>The fallback of \<open>seal\<close>: the decided prefix is read back from storage, verified and enforced.\<close>

definition seal_from_storage ::
  "'w replica_ops \<Rightarrow> (bytes \<Rightarrow> nat) \<Rightarrow> (bytes \<Rightarrow> string) \<Rightarrow> writer \<Rightarrow> nat \<Rightarrow> string \<Rightarrow> nat \<Rightarrow> ('w, protocol_error + seal_report) state" where
  "seal_from_storage ops crc sha w total_records expected_digest expected_crc32c =
     (case with_metadata (wr_replicas w) (wr_config w) (wr_metadata w) of
        Inl e \<Rightarrow> State_Monad.return (Inl e)
      | Inr vol \<Rightarrow> do {
          recovered \<leftarrow> recover_for_seal ops crc vol (Some total_records);
          case recovered of
            Inl e \<Rightarrow> State_Monad.return (Inl e)
          | Inr tail \<Rightarrow>
              let actual_digest = sha (cp_bytes (rt_canonical tail)); actual_crc32c = rt_crc32c tail
              in if actual_digest \<noteq> expected_digest
                 then State_Monad.return (Inl (PE_SealDigestMismatch expected_digest actual_digest))
                 else if actual_crc32c \<noteq> expected_crc32c
                 then State_Monad.return (Inl (PE_SealCrc32cMismatch expected_crc32c actual_crc32c))
                 else do {
                   enforced \<leftarrow> enforce_seal ops vol tail;
                   State_Monad.return (case enforced of Inl e \<Rightarrow> Inl e | Inr _ \<Rightarrow> Inr [])
                 }
        })"

text \<open>\<open>None\<close> while the seal waits for the watermark.\<close>

definition writer_seal ::
  "'w replica_ops \<Rightarrow> (bytes \<Rightarrow> nat) \<Rightarrow> (bytes \<Rightarrow> string) \<Rightarrow> lane_notice list \<Rightarrow> (nat \<times> append_token) option list \<Rightarrow> nat
     \<Rightarrow> writer \<Rightarrow> ('w, ((protocol_error + seal_report) \<times> writer) option) state" where
  "writer_seal ops crc sha notices ends grace w =
     (let total_records = ap_records (wr_admitted w); w0 = w\<lparr>wr_sealed := True\<rparr>
      in if total_records = 0 \<or> writer_is_poisoned w0
         then State_Monad.return (Some (Inl PE_Poisoned, shutdown_background_tasks w0))
         else let (expected_digest, w1) = seal_digest sha w0;
                  expected_crc32c = seal_crc32c w1;
                  w2 = w1\<lparr>wr_lanes := []\<rparr>
              in case settle total_records notices (wr_commits w2) of
                   None \<Rightarrow> State_Monad.return None
                 | Some (Inl e, t, _) \<Rightarrow> State_Monad.return (Some (Inl e, shutdown_background_tasks (w2\<lparr>wr_commits := t\<rparr>)))
                 | Some (Inr _, t, rest) \<Rightarrow>
                     (case apply_notices rest t of
                        None \<Rightarrow> State_Monad.return None
                      | Some t' \<Rightarrow> do {
                          let w3 = w2\<lparr>wr_commits := t'\<rparr>;
                          results \<leftarrow> join_all (finalize_lane ops (wr_config w3) (int (physical_size w3)))
                            (drained_lanes (writer_quorum w3) grace ends);
                          let finalized = finalized_vector (wr_replicas w3) results;
                          if writer_quorum w3 \<le> live_count finalized
                          then State_Monad.return (Some (Inr finalized, shutdown_background_tasks w3))
                          else do {
                            r \<leftarrow> seal_from_storage ops crc sha w3 total_records expected_digest expected_crc32c;
                            State_Monad.return (Some (r, shutdown_background_tasks w3))
                          }
                        }))"

lemma encode_all_collect: "encode_all recs = Inr S \<longleftrightarrow> (\<exists>chunks. collect_results (map encode recs) = Inr chunks \<and> S = concat chunks)"
proof (induction recs arbitrary: S)
  case (Cons r recs)
  then show ?case by (cases "encode r") (auto simp: result_simps)
qed auto

lemma writer_inv_stream:
  assumes "writer_inv crc n g recs w"
  obtains chunks where "collect_results (map encode recs) = Inr chunks" "encode_all recs = Inr (concat chunks)"
    "length chunks = length recs" "ap_records (wr_admitted w) = length recs" "ap_crc32c (wr_admitted w) = crc (concat chunks)"
    "drain_digest (ap_digest (wr_admitted w)) = concat chunks" "tracker_reached n g (chunk_ends 0 chunks) (wr_commits w)"
    "wr_replicas w = n"
  using assms collect_results_length unfolding writer_inv_def encode_all_collect by fastforce

text \<open>A tracker that has committed every admitted record has committed the whole stream.\<close>

lemma all_committed_bytes:
  assumes "tracker_reached n g (chunk_ends 0 chunks) t" "0 < n" "length g = n" "length chunks \<le> committed (state t)" "chunks \<noteq> []"
  shows "committed (state t) = length chunks \<and> committed_bytes (state t) = length (concat chunks)"
proof -
  have core: "tracker_core n (majority n) g (chunk_ends 0 chunks) t"
    using assms(1-3) run_tracker_reachable_inv [of "majority n" n g] majority_bounds [of n] by (auto simp: tracker_reached_def)
  then have "committed (state t) = length chunks" using assms(4) by (auto simp: tracker_core_def)
  moreover have "chunk_ends 0 chunks ! (length chunks - 1) = int (length (concat chunks))"
    using assms(5) by (subst chunk_ends_nth) auto
  ultimately show ?thesis using core assms(5) by (auto simp: tracker_core_def)
qed

lemma tracker_reached_notice: "tracker_reached n g bs t \<Longrightarrow> apply_notice x t = Some t' \<Longrightarrow> tracker_reached n g bs t'"
  by (cases x) (auto intro: tracker_reached_durable tracker_reached_finish)

lemma tracker_reached_notices: "apply_notices xs t = Some t' \<Longrightarrow> tracker_reached n g bs t \<Longrightarrow> tracker_reached n g bs t'"
  by (induction xs arbitrary: t) (auto simp: bind_eq_Some_conv intro: tracker_reached_notice)

lemma notices_mono: "apply_notices xs t = Some t' \<Longrightarrow> committed (state t) \<le> committed (state t')"
proof (induction xs arbitrary: t)
  case (Cons x xs)
  then obtain t1 where t1: "apply_notice x t = Some t1" "apply_notices xs t1 = Some t'" by (auto simp: bind_eq_Some_conv)
  then have "\<exists>e. tracker_step ([], t) e = Some ([], t1)"
    by (cases x) (auto intro: exI [of _ "Durable _ _"] exI [of _ "Finish _ _"])
  then have "committed (state t) \<le> committed (state t1)" using tracker_step_advances by (fastforce simp: tracker_advances_def)
  then show ?case using Cons.IH [OF t1(2)] by simp
qed simp

lemma settle_committed:
  "settle k xs t = Some (Inr (), t', rest) \<Longrightarrow> tracker_reached n g bs t \<Longrightarrow> tracker_reached n g bs t' \<and> k \<le> sn_committed (updates t')"
proof (induction xs arbitrary: t)
  case (Cons x xs)
  then show ?case
    by (subst (asm) (2) settle.simps) (auto simp: bind_eq_Some_conv intro: tracker_reached_notice split: if_splits)
qed (auto simp: settle.simps split: if_splits)

lemma join_all_runs:
  "run_state (join_all f xs) s = (rs, s') \<Longrightarrow> list_all2 (\<lambda>x r. \<exists>s1 s2. run_state (f x) s1 = (r, s2)) xs rs"
proof (induction xs arbitrary: s rs)
  case (Cons x xs)
  obtain r s1 where r: "run_state (f x) s = (r, s1)" by fastforce
  obtain rs1 s2 where "run_state (join_all f xs) s1 = (rs1, s2)" by fastforce
  then show ?case using Cons r by auto
qed simp

lemma finalized_vector_nth:
  assumes "z < n" "finalized_vector n results ! z = Some x"
  shows "Inr (z, x) \<in> set results"
proof -
  have "v ! z = Some x \<or> (z, x) \<in> set ps" if "fold (\<lambda>(z, s) v. v[z := Some s]) ps v ! z = Some x" "z < length v"
    for ps and v :: seal_report
    using that
  proof (induction ps arbitrary: v)
    case (Cons p ps)
    obtain a b where p: "p = (a, b)" by (rule prod.exhaust)
    then have "v[a := Some b] ! z = Some x \<or> (z, x) \<in> set ps" using Cons.IH [of "v[a := Some b]"] Cons.prems by simp
    then show ?case using Cons.prems(2) p by (cases "a = z") auto
  qed simp
  from this [of "oks results" "replicate n None"] assms have "(z, x) \<in> set (oks results)" by (auto simp: finalized_vector_def)
  then show ?thesis by (induction results rule: list.induct) (auto simp: oks_def map_filter_simps split: sum.splits)
qed

lemma length_finalized_vector: "length (finalized_vector n results) = n"
proof -
  have "length (fold (\<lambda>(z, s) v. v[z := Some s]) ps v) = length v" for ps and v :: seal_report
    by (induction ps arbitrary: v) auto
  then show ?thesis by (simp add: finalized_vector_def)
qed

lemma finalize_lane_run:
  assumes "run_state (finalize_lane ops cfg off lane) s = (Inr (z, x), s')"
  shows "\<exists>t. run_state (finalize_with_retry ops cfg z (max_retries cfg) (snd lane) off) s = ((Inr x, t), s')"
proof -
  obtain r t s1 where "run_state (finalize_with_retry ops cfg (fst lane) (max_retries cfg) (snd lane) off) s = ((r, t), s1)"
    by (metis prod.collapse)
  then show ?thesis using assms by (auto simp: finalize_lane_def split: sum.splits)
qed

lemma seal_from_storage_run:
  assumes "run_state (seal_from_storage ops crc sha w k d c) s = (Inr report, s')"
  shows "report = [] \<and> (\<exists>vol tail s1. run_state (enforce_seal ops vol tail) s1 = (Inr (), s')
    \<and> sha (cp_bytes (rt_canonical tail)) = d \<and> rt_crc32c tail = c)"
proof -
  obtain vol where vol: "with_metadata (wr_replicas w) (wr_config w) (wr_metadata w) = Inr vol"
    using assms by (auto simp: seal_from_storage_def split: sum.splits)
  obtain rec s1 where rec: "run_state (recover_for_seal ops crc vol (Some k)) s = (rec, s1)" by fastforce
  then obtain tail where tail: "rec = Inr tail" using assms vol by (auto simp: seal_from_storage_def split: sum.splits)
  obtain enf s2 where "run_state (enforce_seal ops vol tail) s1 = (enf, s2)" by fastforce
  then show ?thesis using assms vol rec tail
    by (auto simp: seal_from_storage_def Let_def split: if_splits sum.splits)
qed

text \<open>C3. A writer's lanes carry exactly its log: after any run of admissions, refusals, lane failures and
  releases, the writer's record count, size, checksum and digest are those of the encoding of the admitted
  records, and the task of every live lane, fed with any initial part of the batches it was handed, only ever
  writes bytes of that encoding at their own offsets, whatever its replica answers.\<close>

theorem writer_lanes_carry_log:
  assumes new: "writer_new n cfg m tokens g = Some w0" and run: "run_writer crc_append ([], w0) es = Some (recs, w)"
    and crc: "appends_crc crc_append crc"
    and lane: "z < n" "wr_lanes w ! z = Some h" "accepted events = take k (lh_work h)" "tk_persisted_size token = 0"
      "run_lane crc token events answers = (r, out)"
  shows "\<exists>S. encode_all recs = Inr S \<and> ap_records (wr_admitted w) = length recs \<and> ap_bytes (wr_admitted w) = length S
    \<and> seal_crc32c w = crc S \<and> fst (seal_digest sha w) = sha S
    \<and> (\<forall>at packed flush. Out_Send at packed flush \<in> set out \<longrightarrow> written S at (packed_bytes packed))"
proof -
  have inv: "writer_inv crc n g recs w"
    using run_writer_inv [OF writer_new_inv [OF new] crc run] crc by (simp add: appends_crc_def)
  then obtain chunks where c: "collect_results (map encode recs) = Inr chunks" "ap_records (wr_admitted w) = length recs"
      "ap_bytes (wr_admitted w) = length (concat chunks)" "ap_crc32c (wr_admitted w) = crc (concat chunks)"
      "drain_digest (ap_digest (wr_admitted w)) = concat chunks"
      "batches_span (concat chunks) 0 (lh_work h) (int (length (concat chunks)))"
    using lane(1,2) unfolding writer_inv_def by blast
  obtain e where "batches_span (concat chunks) 0 (take k (lh_work h)) e"
    using c(6) batches_span_append [of "concat chunks" 0 "take k (lh_work h)" "drop k (lh_work h)"] by auto
  then have "batches_span (concat chunks) (tk_persisted_size token) (accepted events) e" using lane(3,4) by simp
  note sends = lane_sends_written [OF this lane(5)]
  show ?thesis using c sends
    by (intro exI [of _ "concat chunks"]) (auto simp: encode_all_collect seal_crc32c_def seal_digest_def prefix_digest_def Let_def)
qed

text \<open>Two records admitted into three zones, of which one lane has already ended.\<close>

definition writer_demo_tokens :: "append_token list" where
  "writer_demo_tokens = map (\<lambda>z. lane_demo_token\<lparr>tk_zone := z, tk_persisted_size := 0\<rparr>) [0, 1, 2]"

definition writer_demo_run :: "(record_frame list \<times> writer) option" where
  "writer_demo_run =
     Option.bind (writer_new 3 default_client_config Map.empty writer_demo_tokens [0, 0, 0]) (\<lambda>w.
       run_writer (\<lambda>_ _. 0) ([], w) [W_Enqueue (\<lambda>z. z = 2) [\<lparr>payload = [7]\<rparr>], W_Enqueue (\<lambda>_. False) [\<lparr>payload = [8, 9]\<rparr>]])"

lemma accepted_each: "accepted (map (\<lambda>b. Ev_Work b [] False) bs) = bs"
  by (induction bs) simp_all

theorem writer_lanes_carry_log_witness:
  "\<exists>recs w h S. writer_demo_run = Some (recs, w) \<and> wr_lanes w ! 0 = Some h
     \<and> encode_all recs = Inr S \<and> ap_records (wr_admitted w) = length recs \<and> ap_bytes (wr_admitted w) = length S"
proof -
  have "case writer_demo_run of None \<Rightarrow> False | Some (recs, w) \<Rightarrow> (case wr_lanes w ! 0 of None \<Rightarrow> False | Some _ \<Rightarrow> True)"
    by code_simp
  then obtain recs w h where d: "writer_demo_run = Some (recs, w)" "wr_lanes w ! 0 = Some h"
    by (auto split: option.splits prod.splits)
  then obtain w0 where w0: "writer_new 3 default_client_config Map.empty writer_demo_tokens [0, 0, 0] = Some w0"
      "run_writer (\<lambda>_ _. 0) ([], w0) [W_Enqueue (\<lambda>z. z = 2) [\<lparr>payload = [7]\<rparr>], W_Enqueue (\<lambda>_. False) [\<lparr>payload = [8, 9]\<rparr>]]
        = Some (recs, w)"
    unfolding writer_demo_run_def bind_eq_Some_conv by blast
  obtain r out where lane: "run_lane (\<lambda>_. 0) (lane_demo_token\<lparr>tk_persisted_size := 0\<rparr>)
      (map (\<lambda>b. Ev_Work b [] False) (lh_work h)) [Ans_Sent (Inr ())] = (r, out)" by (rule prod.exhaust)
  have "appends_crc (\<lambda>_ _. 0) (\<lambda>_. 0)" by (simp add: appends_crc_def)
  from writer_lanes_carry_log [OF w0 this _ d(2) _ _ lane, of "length (lh_work h)"] d
  show ?thesis by (fastforce simp: accepted_each)
qed

lemma settled_all_committed:
  assumes "settle (length recs) notices t0 = Some (Inr (), t, rest)" "apply_notices rest t = Some t'"
    and "tracker_reached n g (chunk_ends 0 chunks) t0" "0 < n" "length g = n" "length chunks = length recs" "recs \<noteq> []"
  shows "committed (state t') = length recs \<and> committed_bytes (state t') = length (concat chunks)"
proof -
  have reached: "tracker_reached n g (chunk_ends 0 chunks) t" "length chunks \<le> sn_committed (updates t)"
    using settle_committed [OF assms(1,3)] assms(6) by auto
  have "sn_committed (updates t) = committed (state t)"
    using reached(1) assms(4,5) run_tracker_reachable_inv [of "majority n" n g] majority_bounds [of n]
    by (fastforce simp: tracker_reached_def tracker_core_def)
  then have "length chunks \<le> committed (state t')" using reached(2) notices_mono [OF assms(2)] by simp
  moreover have "chunks \<noteq> []" using assms(6,7) by auto
  ultimately show ?thesis
    using all_committed_bytes [OF tracker_reached_notices [OF assms(2) reached(1)] assms(4,5)] assms(6) by auto
qed

text \<open>The course of a successful seal.\<close>

lemma writer_seal_run:
  assumes seal: "run_state (writer_seal ops crc sha notices ends grace w) s = (Some (Inr report, w'), s')"
    and fed: "drain_digest (ap_digest (wr_admitted w)) = S"
  obtains t rest t' w3 results s1 where
    "ap_records (wr_admitted w) \<noteq> 0" "settle (ap_records (wr_admitted w)) notices (wr_commits w) = Some (Inr (), t, rest)"
    "apply_notices rest t = Some t'" "w' = shutdown_background_tasks w3" "wr_commits w3 = t'"
    "run_state (join_all (finalize_lane ops (wr_config w) (int (committed_bytes (state t'))))
       (drained_lanes (writer_quorum w) grace ends)) s = (results, s1)"
    "if writer_quorum w \<le> live_count (finalized_vector (wr_replicas w) results)
     then report = finalized_vector (wr_replicas w) results \<and> s' = s1
     else run_state (seal_from_storage ops crc sha w3 (ap_records (wr_admitted w)) (sha S) (ap_crc32c (wr_admitted w))) s1 = (Inr report, s')"
proof -
  have some: "ap_records (wr_admitted w) \<noteq> 0"
    using seal by (cases "ap_records (wr_admitted w) = 0") (auto simp: writer_seal_def Let_def)
  let ?w2 = "w\<lparr>wr_sealed := True, wr_admitted := (wr_admitted w)\<lparr>ap_digest := Digest_Ready S\<rparr>, wr_lanes := []\<rparr>"
  obtain t rest t' where t: "settle (ap_records (wr_admitted w)) notices (wr_commits w) = Some (Inr (), t, rest)" "apply_notices rest t = Some t'"
    using seal some fed
    by (auto simp: writer_seal_def seal_digest_def prefix_digest_def Let_def split: if_splits option.splits sum.splits)
  let ?w3 = "?w2\<lparr>wr_commits := t'\<rparr>"
  obtain results s1 where fin: "run_state (join_all (finalize_lane ops (wr_config w) (int (committed_bytes (state t'))))
      (drained_lanes (writer_quorum w) grace ends)) s = (results, s1)" by fastforce
  let ?v = "finalized_vector (wr_replicas w) results"
  have "(if writer_quorum w \<le> live_count ?v then (Inr ?v, shutdown_background_tasks ?w3, s1)
      else case run_state (seal_from_storage ops crc sha ?w3 (ap_records (wr_admitted w)) (sha S) (ap_crc32c (wr_admitted w))) s1 of
        (r, s2) \<Rightarrow> (r, shutdown_background_tasks ?w3, s2)) = (Inr report, w', s')"
    using seal some fed t fin
    by (auto simp: writer_seal_def seal_digest_def prefix_digest_def Let_def seal_crc32c_def physical_size_def writer_quorum_def
        split: if_splits prod.splits)
  then show thesis using some t fin by (intro that [of t rest t' ?w3 results s1]) (auto split: if_splits prod.splits)
qed

text \<open>C7. A seal never freezes anything but the log that was committed: when it succeeds, every record the
  writer admitted is committed, and either a quorum of replicas was finalized at exactly the length of their
  encoding, or the bytes that were read back and enforced on a quorum have the digest and the checksum of that
  encoding.\<close>

theorem seal_freezes_committed_log:
  assumes new: "writer_new n cfg m tokens g = Some w0" and run: "run_writer crc_append ([], w0) es = Some (recs, w)"
    and crc: "appends_crc crc_append crc" and n: "0 < n" "length g = n"
    and seal: "run_state (writer_seal ops crc sha notices ends grace w) s = (Some (Inr report, w'), s')"
  shows "\<exists>S. encode_all recs = Inr S \<and> writer_committed_len w' = length recs \<and> physical_size w' = length S
    \<and> (report = [] \<longrightarrow> (\<exists>vol tail s1. run_state (enforce_seal ops vol tail) s1 = (Inr (), s')
          \<and> sha (cp_bytes (rt_canonical tail)) = sha S \<and> rt_crc32c tail = crc S))
    \<and> (report \<noteq> [] \<longrightarrow> majority n \<le> live_count report
          \<and> (\<forall>z < n. \<forall>x. report ! z = Some x \<longrightarrow>
              (\<exists>token t s1 s2. run_state (finalize_with_retry ops (wr_config w) z (max_retries (wr_config w)) token (int (length S))) s1
                 = ((Inr x, t), s2))))"
proof -
  have inv: "writer_inv crc n g recs w"
    using run_writer_inv [OF writer_new_inv [OF new] crc run] crc by (simp add: appends_crc_def)
  then obtain chunks where c: "encode_all recs = Inr (concat chunks)" "length chunks = length recs"
      "ap_records (wr_admitted w) = length recs" "ap_crc32c (wr_admitted w) = crc (concat chunks)"
      "drain_digest (ap_digest (wr_admitted w)) = concat chunks" "tracker_reached n g (chunk_ends 0 chunks) (wr_commits w)"
      "wr_replicas w = n" by (rule writer_inv_stream)
  let ?S = "concat chunks"
  from writer_seal_run [OF seal c(5)] obtain t rest t' w3 results s1 where
    t: "recs \<noteq> []" "settle (length recs) notices (wr_commits w) = Some (Inr (), t, rest)" "apply_notices rest t = Some t'"
    and w': "w' = shutdown_background_tasks w3" "wr_commits w3 = t'"
    and fin: "run_state (join_all (finalize_lane ops (wr_config w) (int (committed_bytes (state t'))))
      (drained_lanes (majority n) grace ends)) s = (results, s1)"
    and out: "if majority n \<le> live_count (finalized_vector n results) then report = finalized_vector n results \<and> s' = s1
      else run_state (seal_from_storage ops crc sha w3 (length recs) (sha ?S) (crc ?S)) s1 = (Inr report, s')"
    unfolding writer_quorum_def c(3,4,7) by (metis length_0_conv)
  have full: "committed (state t') = length recs" "committed_bytes (state t') = length ?S"
    using settled_all_committed [OF t(2,3) c(6) n c(2) t(1)] by auto
  have sizes: "writer_committed_len w' = length recs" "physical_size w' = length ?S"
    using full by (simp_all add: w' shutdown_background_tasks_def writer_committed_len_def committed_len_def physical_size_def)
  show ?thesis
  proof (cases "majority n \<le> live_count (finalized_vector n results)")
    case True
    then have v: "report = finalized_vector n results" using out by simp
    have "\<exists>token t s1 s2. run_state (finalize_with_retry ops (wr_config w) z (max_retries (wr_config w)) token (int (length ?S))) s1
        = ((Inr x, t), s2)" if "z < n" "finalized_vector n results ! z = Some x" for z x
      using list_all2_nthD2 [OF join_all_runs [OF fin]] finalized_vector_nth [OF that] finalize_lane_run full(2)
      by (metis in_set_conv_nth)
    then show ?thesis using c(1) sizes v True n length_finalized_vector [of n results] by auto
  next
    case False
    then have "run_state (seal_from_storage ops crc sha w3 (length recs) (sha ?S) (crc ?S)) s1 = (Inr report, s')"
      using out by simp
    from seal_from_storage_run [OF this] show ?thesis using c(1) sizes by auto
  qed
qed

definition seal_demo_writer :: "(record_frame list \<times> writer) option" where
  "seal_demo_writer =
     Option.bind (writer_new 1 default_client_config Map.empty [lane_demo_token\<lparr>tk_persisted_size := 0\<rparr>] [0]) (\<lambda>w.
       run_writer (\<lambda>_ _. 0) ([], w) [W_Enqueue (\<lambda>_. False) [\<lparr>payload = [7]\<rparr>]])"

definition seal_demo_run :: "writer \<Rightarrow> ((protocol_error + seal_report) \<times> writer) option \<times> local_world" where
  "seal_demo_run w =
     run_state (writer_seal (local_ops (\<lambda>_. 0) ''seg'') (\<lambda>_. 0) (\<lambda>_. []) [Notice_Durable 0 5] [Some (0, lane_demo_token)] 0 w)
       demo_world"

theorem seal_freezes_committed_log_witness:
  "\<exists>recs w report w' s'. seal_demo_writer = Some (recs, w) \<and> seal_demo_run w = (Some (Inr report, w'), s')
     \<and> writer_committed_len w' = length recs \<and> report \<noteq> [] \<and> majority 1 \<le> live_count report"
proof -
  have c: "case seal_demo_writer of None \<Rightarrow> False
      | Some (recs, w) \<Rightarrow> (case fst (seal_demo_run w) of Some (Inr report, _) \<Rightarrow> report \<noteq> [] | _ \<Rightarrow> False)"
    by code_simp
  then obtain recs w where d1: "seal_demo_writer = Some (recs, w)" by (cases seal_demo_writer) auto
  have d2: "case fst (seal_demo_run w) of Some (Inr report, _) \<Rightarrow> report \<noteq> [] | _ \<Rightarrow> False"
    using c unfolding d1 by simp
  obtain r w' where r: "fst (seal_demo_run w) = Some (r, w')" using d2 by (cases "fst (seal_demo_run w)") auto
  then obtain report where "r = Inr report" "report \<noteq> []" using d2 by (cases r) auto
  then obtain s' where d: "seal_demo_writer = Some (recs, w)" "seal_demo_run w = (Some (Inr report, w'), s')" "report \<noteq> []"
    using d1 r by (metis prod.collapse)
  then obtain w0 where w0: "writer_new 1 default_client_config Map.empty [lane_demo_token\<lparr>tk_persisted_size := 0\<rparr>] [0] = Some w0"
      "run_writer (\<lambda>_ _. 0) ([], w0) [W_Enqueue (\<lambda>_. False) [\<lparr>payload = [7]\<rparr>]] = Some (recs, w)"
    unfolding seal_demo_writer_def bind_eq_Some_conv by blast
  have "appends_crc (\<lambda>_ _. 0) (\<lambda>_. 0)" by (simp add: appends_crc_def)
  from seal_freezes_committed_log [OF w0 this _ _ d(2) [unfolded seal_demo_run_def]] d(3)
  have "writer_committed_len w' = length recs \<and> majority 1 \<le> live_count report" by auto
  then show ?thesis using d by blast
qed

end
