(* ===== verification/Segment_Writer.thy ===== *)
theory Segment_Writer
  imports Segment_Maintenance Volume_Writer
begin

text \<open>
  The segmented writer of \<open>segment.rs\<close>: opening it from what recovery left, the
  predicates that gate a rotation, spares, the swap to the pending segment and
  the fold that commits it.  A writer is built from the append tokens of its
  object; the lag gauges it starts from are an argument.  Stall timeouts only
  set deadlines and are left out.
\<close>

section \<open>State\<close>

record prepared_spare =
  spr_id :: string
  spr_writer :: writer
  spr_registered :: bool

record segmented_writer =
  sgw_manifest :: manifest
  sgw_factories :: nat
  sgw_prefix :: string
  sgw_config :: client_config
  sgw_sealed_segments :: "segment_descriptor list"
  sgw_writer :: writer
  sgw_active_id :: string
  sgw_base :: nat
  sgw_checkpoint_floor :: nat
  sgw_sweep :: dead_segment_sweep
  sgw_next_seq :: nat
  sgw_spare :: "prepared_spare option"
  sgw_pending_fold :: "writer pending_swap option"
  sgw_max_lag :: nat

text \<open>\<open>Writer::new\<close> cannot panic (\<open>writer_new_total\<close>).\<close>

definition started_writer :: "nat \<Rightarrow> client_config \<Rightarrow> int list \<Rightarrow> append_token list \<Rightarrow> writer" where
  "started_writer n cfg gauge tokens = the (writer_new n cfg protocol_metadata tokens gauge)"

text \<open>A fold that recovery left carries no writer.\<close>

definition recovered_fold :: "append_token list pending_swap \<Rightarrow> writer pending_swap" where
  "recovered_fold p = \<lparr>ps_id = ps_id p, ps_base = ps_base p, ps_end = ps_end p, ps_digest = ps_digest p,
     ps_crc32c = ps_crc32c p, ps_successor_id = ps_successor_id p, ps_writer = None\<rparr>"


section \<open>Opening\<close>

definition open_active ::
  "'w segmented_volume \<Rightarrow> recovered_writer_state \<Rightarrow> ('w, error + append_token list) state" where
  "open_active sv st =
     (case rw_active_writer st of Some tokens \<Rightarrow> succeed tokens | None \<Rightarrow> provision_segment sv (rw_active_id st))"

text \<open>The spare, the id counter and the handle after a missing spare has been provided.\<close>

definition open_spare ::
  "'w segmented_volume \<Rightarrow> recovered_writer_state \<Rightarrow> manifest \<Rightarrow> ('w, error + (string \<times> append_token list) \<times> nat \<times> manifest) state" where
  "open_spare sv st mf =
     (case rw_spare st of
        Some spare \<Rightarrow> succeed (spare, rw_next_segment_seq st, mf)
      | None \<Rightarrow>
          if rw_pending_fold st = None \<and> mr_pending_id (mf_record mf) \<noteq> None
          then fail_with (Err_InvalidCatalog ''recovery did not acquire the manifest pending segment'')
          else let pending_id = segment_id (mr_epoch (mf_record mf)) (rw_next_segment_seq st)
               in (case checked_add u64_max (rw_next_segment_seq st) 1 of
                    None \<Rightarrow> fail_with (Err_InvalidCatalog ''segment id sequence overflowed u64'')
                  | Some seq \<Rightarrow>
                      try_then (provision_segment sv pending_id) (\<lambda>tokens.
                      try_then (if rw_pending_fold st = None then mutate (register_pending (sv_store sv) mf pending_id) else succeed mf)
                        (\<lambda>mf'. succeed ((pending_id, tokens), seq, mf')))))"

definition open_writer ::
  "'w segmented_volume \<Rightarrow> int list \<Rightarrow> recovered_writer_state \<Rightarrow> manifest \<Rightarrow> ('w, error + segmented_writer) state" where
  "open_writer sv gauge st mf =
     try_then (open_active sv st) (\<lambda>active.
     try_then (open_spare sv st mf) (\<lambda>(spare, seq, mf1).
     try_then (mutate (validate_owner (sv_store sv) mf1)) (\<lambda>mf2.
       let n = fa_count (sv_factories sv); start = started_writer n (sv_config sv) gauge
       in succeed \<lparr>sgw_manifest = mf2, sgw_factories = n, sgw_prefix = sv_prefix sv, sgw_config = sv_config sv,
            sgw_sealed_segments = rw_sealed_segments st, sgw_writer = start active, sgw_active_id = rw_active_id st,
            sgw_base = rw_base st, sgw_checkpoint_floor = rw_checkpoint_floor st, sgw_sweep = rw_dead_segment_sweep st,
            sgw_next_seq = seq,
            sgw_spare = Some \<lparr>spr_id = fst spare, spr_writer = start (snd spare), spr_registered = (rw_pending_fold st = None)\<rparr>,
            sgw_pending_fold = map_option recovered_fold (rw_pending_fold st), sgw_max_lag = usize_max\<rparr>)))"

text \<open>\<open>Recovery::start\<close> up to the engine: it needs a replay that reached its end without an error.\<close>

definition start_recovery ::
  "'w segmented_volume \<Rightarrow> int list \<Rightarrow> bool \<Rightarrow> bool \<Rightarrow> recovered_writer_state \<Rightarrow> manifest \<Rightarrow> ('w, error + segmented_writer) state" where
  "start_recovery sv gauge completed failed st mf =
     (if \<not> completed \<or> failed then fail_with Err_RecoveryIncomplete
      else try_then (mutate (validate_owner (sv_store sv) mf)) (\<lambda>mf'. open_writer sv gauge st mf'))"


section \<open>Gates\<close>

definition sgw_quorum :: "segmented_writer \<Rightarrow> nat" where
  "sgw_quorum w = majority (sgw_factories w)"

definition has_room :: "segmented_writer \<Rightarrow> nat \<Rightarrow> bool" where
  "has_room w additional = directory_has_room (mf_record (sgw_manifest w)) additional (mf_max_directory_bytes (sgw_manifest w))"

definition committed_record_end :: "segmented_writer \<Rightarrow> nat" where
  "committed_record_end w = sgw_base w + writer_committed_len (sgw_writer w)"

definition active_segment_bytes :: "segmented_writer \<Rightarrow> nat" where
  "active_segment_bytes w = physical_size (sgw_writer w)"

definition active_segment_has_seal_room :: "segmented_writer \<Rightarrow> bool" where
  "active_segment_has_seal_room w = has_room w 1"

definition rotation_has_directory_room :: "segmented_writer \<Rightarrow> bool" where
  "rotation_has_directory_room w = has_room w 2"

definition rotation_due :: "nat \<Rightarrow> segmented_writer \<Rightarrow> bool" where
  "rotation_due max_segment_bytes w \<longleftrightarrow>
     writer_committed_len (sgw_writer w) \<noteq> 0 \<and> \<not> writer_is_poisoned (sgw_writer w)
   \<and> max_segment_bytes \<le> physical_size (sgw_writer w) \<and> has_room w 2"

definition refresh_rotation_due ::
  "'w manifest_store \<Rightarrow> nat \<Rightarrow> segmented_writer \<Rightarrow> ('w, (error + bool) \<times> segmented_writer) state" where
  "refresh_rotation_due store max_segment_bytes w = do {
     (r, mf) \<leftarrow> refreshed_record store (sgw_manifest w);
     let w' = w\<lparr>sgw_manifest := mf\<rparr>;
     State_Monad.return (case r of Inl e \<Rightarrow> Inl (error_of_protocol e) | Inr _ \<Rightarrow> Inr (rotation_due max_segment_bytes w'), w')
   }"

definition spare_ready :: "segmented_writer \<Rightarrow> bool" where
  "spare_ready w = (case sgw_spare w of None \<Rightarrow> False | Some s \<Rightarrow> spr_registered s)"

definition swap_boundary_ready :: "segmented_writer \<Rightarrow> bool" where
  "swap_boundary_ready w \<longleftrightarrow>
     writer_admitted_len (sgw_writer w) \<noteq> 0 \<and> writer_admitted_len (sgw_writer w) = writer_committed_len (sgw_writer w)"

definition shutdown_seal_ready :: "segmented_writer \<Rightarrow> bool" where
  "shutdown_seal_ready w \<longleftrightarrow> \<not> writer_is_poisoned (sgw_writer w) \<and> swap_boundary_ready w \<and> spare_ready w
     \<and> active_segment_has_seal_room w"

definition spare_wanted :: "segmented_writer \<Rightarrow> bool" where
  "spare_wanted w = (sgw_spare w = None)"

definition unregistered_spare_ready :: "segmented_writer \<Rightarrow> bool" where
  "unregistered_spare_ready w = (case sgw_spare w of None \<Rightarrow> False | Some s \<Rightarrow> \<not> spr_registered s)"


section \<open>Admission\<close>

text \<open>\<open>RecordCommitRange\<close> without the update channel, which is the tracker's.\<close>

record record_commit_range =
  rcr_base :: nat
  rcr_first :: nat
  rcr_end :: nat

definition enqueue_records_for_engine ::
  "(nat \<Rightarrow> bytes \<Rightarrow> nat) \<Rightarrow> (nat \<Rightarrow> bool) \<Rightarrow> record_frame list \<Rightarrow> segmented_writer
     \<Rightarrow> ((error + record_commit_range) \<times> segmented_writer) option" where
  "enqueue_records_for_engine crc_append ended records w =
     map_option (\<lambda>(r, wr).
       (case r of
          Inl e \<Rightarrow> Inl (error_of_protocol e)
        | Inr (first, e) \<Rightarrow> Inr \<lparr>rcr_base = sgw_base w, rcr_first = sgw_base w + first, rcr_end = sgw_base w + e\<rparr>,
        w\<lparr>sgw_writer := wr\<rparr>))
       (enqueue_data_window crc_append ended records (sgw_writer w))"

definition sgw_set_max_replica_lag_bytes :: "nat \<Rightarrow> segmented_writer \<Rightarrow> segmented_writer" where
  "sgw_set_max_replica_lag_bytes limit w =
     w\<lparr>sgw_max_lag := limit, sgw_writer := set_max_replica_lag_bytes limit (sgw_writer w),
       sgw_spare := map_option (\<lambda>s. s\<lparr>spr_writer := set_max_replica_lag_bytes limit (spr_writer s)\<rparr>) (sgw_spare w)\<rparr>"

definition sgw_shutdown_background_tasks :: "segmented_writer \<Rightarrow> segmented_writer" where
  "sgw_shutdown_background_tasks w =
     w\<lparr>sgw_writer := shutdown_background_tasks (sgw_writer w),
       sgw_spare := map_option (\<lambda>s. s\<lparr>spr_writer := shutdown_background_tasks (spr_writer s)\<rparr>) (sgw_spare w)\<rparr>"


section \<open>Spares\<close>

record provision_parts =
  pp_factories :: nat
  pp_prefix :: string
  pp_config :: client_config
  pp_max_lag :: nat
  pp_manifest :: manifest

record registered_spare =
  rsp_id :: string
  rsp_writer :: writer
  rsp_manifest :: manifest_update

definition adopt_spare :: "string \<Rightarrow> writer \<Rightarrow> bool \<Rightarrow> segmented_writer \<Rightarrow> segmented_writer" where
  "adopt_spare i wr registered w =
     w\<lparr>sgw_spare := Some \<lparr>spr_id = i, spr_writer = set_max_replica_lag_bytes (sgw_max_lag w) wr, spr_registered = registered\<rparr>\<rparr>"

definition adopt_registered_spare :: "registered_spare \<Rightarrow> segmented_writer \<Rightarrow> segmented_writer" where
  "adopt_registered_spare s w =
     adopt_spare (rsp_id s) (rsp_writer s) True (w\<lparr>sgw_manifest := install_update (rsp_manifest s) (sgw_manifest w)\<rparr>)"

definition adopt_unregistered_spare :: "string \<Rightarrow> writer \<Rightarrow> segmented_writer \<Rightarrow> segmented_writer" where
  "adopt_unregistered_spare i wr w = adopt_spare i wr False w"

text \<open>The counter wraps at 64 bits in a release build.\<close>

definition next_segment_id :: "segmented_writer \<Rightarrow> string \<times> segmented_writer" where
  "next_segment_id w =
     (segment_id (mr_epoch (mf_record (sgw_manifest w))) (sgw_next_seq w),
      w\<lparr>sgw_next_seq := (sgw_next_seq w + 1) mod (u64_max + 1)\<rparr>)"

definition provision_parts_of :: "segmented_writer \<Rightarrow> error + provision_parts" where
  "provision_parts_of w =
     (case off_path_access (sgw_manifest w) of
        Inl e \<Rightarrow> Inl (error_of_protocol e)
      | Inr access \<Rightarrow> Inr \<lparr>pp_factories = sgw_factories w, pp_prefix = sgw_prefix w, pp_config = sgw_config w,
          pp_max_lag = sgw_max_lag w, pp_manifest = access\<rparr>)"

definition provision_spare_with_replicas ::
  "'w replica_ops \<Rightarrow> nat \<Rightarrow> client_config \<Rightarrow> nat \<Rightarrow> int list \<Rightarrow> string \<Rightarrow> ('w, error + string \<times> writer) state" where
  "provision_spare_with_replicas ops n cfg max_lag gauge i =
     (case with_metadata n cfg protocol_metadata of
        Inl e \<Rightarrow> fail_with (error_of_protocol e)
      | Inr vol \<Rightarrow>
          try_then (lift_protocol (create_writer ops vol)) (\<lambda>tokens.
            succeed (i, set_max_replica_lag_bytes max_lag (started_writer n cfg gauge tokens))))"

definition provision_spare ::
  "'w factories \<Rightarrow> string \<Rightarrow> client_config \<Rightarrow> nat \<Rightarrow> int list \<Rightarrow> string \<Rightarrow> ('w, error + string \<times> writer) state" where
  "provision_spare fac pre cfg max_lag gauge i =
     provision_spare_with_replicas (fa_replicas fac (segment_object pre i)) (fa_count fac) cfg max_lag gauge i"

definition provision_registered_spare_with_replicas ::
  "'w manifest_store \<Rightarrow> 'w replica_ops \<Rightarrow> int list \<Rightarrow> provision_parts \<Rightarrow> string \<Rightarrow> ('w, error + registered_spare) state" where
  "provision_registered_spare_with_replicas store ops gauge parts i =
     try_then (provision_spare_with_replicas ops (pp_factories parts) (pp_config parts) (pp_max_lag parts) gauge i) (\<lambda>(i', wr).
     try_then (lift_protocol (access_register_pending store (pp_manifest parts) i')) (\<lambda>update.
       succeed \<lparr>rsp_id = i', rsp_writer = wr, rsp_manifest = update\<rparr>))"

definition fold_registered_pending ::
  "'w manifest_store \<Rightarrow> manifest \<Rightarrow> pending_fold \<Rightarrow> ('w, error + manifest_update) state" where
  "fold_registered_pending store access f = lift_protocol (access_fold_pending store access f)"


section \<open>Rotation\<close>

record swapped_segment =
  sws_id :: string
  sws_base :: nat
  sws_end :: nat
  sws_digest :: string
  sws_crc32c :: nat
  sws_writer :: writer

definition into_segment :: "writer pending_swap \<Rightarrow> swapped_segment option" where
  "into_segment p =
     map_option (\<lambda>wr. \<lparr>sws_id = ps_id p, sws_base = ps_base p, sws_end = ps_end p, sws_digest = ps_digest p,
       sws_crc32c = ps_crc32c p, sws_writer = wr\<rparr>) (ps_writer p)"

definition take_recovered_fold :: "segmented_writer \<Rightarrow> writer pending_swap option \<times> segmented_writer" where
  "take_recovered_fold w = (sgw_pending_fold w, w\<lparr>sgw_pending_fold := None\<rparr>)"

text \<open>The flip to the spare: the old writer, with its digest drained, leaves in the swap.\<close>

definition flip_to_spare ::
  "(bytes \<Rightarrow> string) \<Rightarrow> prepared_spare \<Rightarrow> segmented_writer \<Rightarrow> writer pending_swap \<times> segmented_writer" where
  "flip_to_spare sha s w =
     (let last_index = sgw_base w + writer_committed_len (sgw_writer w) - 1;
          (digest, old) = seal_digest sha (sgw_writer w)
      in (\<lparr>ps_id = sgw_active_id w, ps_base = sgw_base w, ps_end = last_index, ps_digest = digest,
           ps_crc32c = seal_crc32c old, ps_successor_id = spr_id s, ps_writer = Some old\<rparr>,
          w\<lparr>sgw_spare := None, sgw_base := last_index + 1, sgw_active_id := spr_id s, sgw_writer := spr_writer s\<rparr>))"

definition begin_swap ::
  "(bytes \<Rightarrow> string) \<Rightarrow> segmented_writer \<Rightarrow> (error + writer pending_swap option) \<times> segmented_writer" where
  "begin_swap sha w =
     (if writer_is_poisoned (sgw_writer w) then (Inl Err_Poisoned, w)
      else if writer_admitted_len (sgw_writer w) = 0 then (Inr None, w)
      else if writer_admitted_len (sgw_writer w) \<noteq> writer_committed_len (sgw_writer w)
      then (Inl (Err_Internal (''rotation boundary has '' @ show_dec (writer_committed_len (sgw_writer w)) @ '' of ''
              @ show_dec (writer_admitted_len (sgw_writer w)) @ '' admitted records committed'')), w)
      else case sgw_spare w of
        None \<Rightarrow> (Inl (Err_Internal ''rotation swap without a spare''), w)
      | Some s \<Rightarrow>
          if \<not> spr_registered s then (Inl (Err_Internal ''rotation swap attempted with an unregistered spare''), w)
          else (case flip_to_spare sha s w of (p, w') \<Rightarrow> (Inr (Some p), w')))"

definition pending_fold_request :: "segmented_writer \<Rightarrow> writer pending_swap \<Rightarrow> error + pending_fold" where
  "pending_fold_request w p =
     (case sgw_spare w of
        Some s \<Rightarrow>
          if spr_registered s then Inl (Err_Internal ''pending fold has no refill spare'')
          else Inr \<lparr>pf_old_tail_id = ps_id p, pf_old_tail_base = ps_base p, pf_old_tail_end = ps_end p,
            pf_old_tail_digest = ps_digest p, pf_old_tail_crc32c = ps_crc32c p,
            pf_consumed_pending_id = ps_successor_id p, pf_successor_tail_id = ps_successor_id p,
            pf_refill_pending_id = spr_id s\<rparr>
      | None \<Rightarrow> Inl (Err_Internal ''pending fold has no refill spare''))"

text \<open>The first descriptor of the id keeps its place; an unknown one is appended.\<close>

fun mark_folded :: "nat \<Rightarrow> writer pending_swap \<Rightarrow> segment_descriptor list \<Rightarrow> segment_descriptor list" where
  "mark_folded q p [] =
     [\<lparr>sd_id = ps_id p, sd_base = ps_base p, sd_end = ps_end p, sd_crc32c = ps_crc32c p, sd_copies = q,
       sd_finalized_copies = (if ps_writer p = None then q else 0), sd_seal_pending = (ps_writer p \<noteq> None)\<rparr>]"
| "mark_folded q p (d # ds) =
     (if sd_id d = ps_id p then d\<lparr>sd_seal_pending := (ps_writer p \<noteq> None)\<rparr> # ds else d # mark_folded q p ds)"

definition confirm_fold ::
  "writer pending_swap \<Rightarrow> manifest_update \<Rightarrow> segmented_writer \<Rightarrow> (error + unit) \<times> segmented_writer" where
  "confirm_fold p update w =
     (let w1 = w\<lparr>sgw_manifest := install_update update (sgw_manifest w)\<rparr>
      in case sgw_spare w1 of
           None \<Rightarrow> (Inl (Err_Internal ''fold completed without a refill spare''), w1)
         | Some s \<Rightarrow> (Inr (), w1\<lparr>sgw_spare := Some (s\<lparr>spr_registered := True\<rparr>),
             sgw_sealed_segments := mark_folded (sgw_quorum w) p (sgw_sealed_segments w1)\<rparr>))"

definition repair_sealed_segments ::
  "'w factories \<Rightarrow> 'w manifest_store \<Rightarrow> (bytes \<Rightarrow> nat) \<Rightarrow> segmented_writer \<Rightarrow> ('w, (error + repair_report) \<times> segmented_writer) state" where
  "repair_sealed_segments fac store crc w = do {
     (r, mf) \<leftarrow> refreshed_record store (sgw_manifest w);
     let w' = w\<lparr>sgw_manifest := mf\<rparr>;
     case r of
       Inl e \<Rightarrow> State_Monad.return (Inl (error_of_protocol e), w')
     | Inr reg \<Rightarrow> do {
         rep \<leftarrow> repair_sealed_pass fac crc (sgw_prefix w) (sgw_sealed_segments w) (mr_trunc reg);
         State_Monad.return (rep, w')
       }
   }"

section \<open>Executions\<close>

text \<open>Opening a writer does not panic.\<close>

lemma writer_new_total: "\<exists>w. writer_new n cfg m tokens gauge = Some w"
proof -
  have "\<exists>t'. fold (activate_zone tokens) zs (Some t) = Some t' \<and> length (lanes (state t')) = length (lanes (state t))"
    if "\<forall>z \<in> set zs. z < length (lanes (state t))" for zs t
    using that
  proof (induction zs arbitrary: t)
    case (Cons z zs)
    have "\<exists>t1. activate_zone tokens z (Some t) = Some t1 \<and> length (lanes (state t1)) = length (lanes (state t))"
      using Cons.prems by (auto simp: activate_zone_def activate_lane_def set_lane_def Let_def split: option.splits)
    then obtain t1 where "activate_zone tokens z (Some t) = Some t1" "length (lanes (state t1)) = length (lanes (state t))" by blast
    then show ?case using Cons.IH [of t1] Cons.prems by simp
  qed simp
  from this [of "[0..<n]" "tracker_new n (majority n) gauge"] show ?thesis by (auto simp: writer_new_def tracker_new_def)
qed

lemma started_writer_inv: "crc [] = 0 \<Longrightarrow> writer_inv crc n gauge [] (started_writer n cfg gauge tokens)"
  using writer_new_total [of n cfg protocol_metadata tokens gauge] writer_new_inv [of n cfg protocol_metadata tokens gauge _ crc]
  by (auto simp: started_writer_def)

text \<open>What happens to a segmented writer: admissions, the reports of the active and of the spare's lanes, swaps,
  refills and folds.  A run keeps the swaps made so far with the records of the segment each of them closed, and the
  records admitted to the active segment.\<close>

datatype segment_event =
    Sg_Append "nat \<Rightarrow> bool" "record_frame list"
  | Sg_Notice lane_notice
  | Sg_Release nat lane_charge
  | Sg_Spare_Notice lane_notice
  | Sg_Limit nat
  | Sg_Swap
  | Sg_Refill string "int list" "append_token list"
  | Sg_Register string "int list" "append_token list" manifest_update
  | Sg_Folded "writer pending_swap" manifest_update

type_synonym segment_run = "(writer pending_swap \<times> record_frame list) list \<times> record_frame list \<times> segmented_writer"

fun segment_step :: "(nat \<Rightarrow> bytes \<Rightarrow> nat) \<Rightarrow> (bytes \<Rightarrow> string) \<Rightarrow> segment_run \<Rightarrow> segment_event \<Rightarrow> segment_run option" where
  "segment_step crc_append sha (past, recs, w) (Sg_Append ended records) =
     map_option (\<lambda>(r, w'). (past, (case r of Inl _ \<Rightarrow> recs | Inr _ \<Rightarrow> recs @ records), w'))
       (enqueue_records_for_engine crc_append ended records w)"
| "segment_step crc_append sha (past, recs, w) (Sg_Notice x) =
     map_option (\<lambda>wr. (past, recs, w\<lparr>sgw_writer := wr\<rparr>)) (on_commits (apply_notice x) (sgw_writer w))"
| "segment_step crc_append sha (past, recs, w) (Sg_Release z charge) =
     Some (past, recs, w\<lparr>sgw_writer := release_lane z charge (sgw_writer w)\<rparr>)"
| "segment_step crc_append sha (past, recs, w) (Sg_Spare_Notice x) =
     (case sgw_spare w of
        None \<Rightarrow> Some (past, recs, w)
      | Some s \<Rightarrow> map_option (\<lambda>wr. (past, recs, w\<lparr>sgw_spare := Some (s\<lparr>spr_writer := wr\<rparr>)\<rparr>)) (on_commits (apply_notice x) (spr_writer s)))"
| "segment_step crc_append sha (past, recs, w) (Sg_Limit limit) = Some (past, recs, sgw_set_max_replica_lag_bytes limit w)"
| "segment_step crc_append sha (past, recs, w) Sg_Swap =
     Some (case begin_swap sha w of
       (Inr (Some p), w') \<Rightarrow> (past @ [(p, recs)], [], w')
     | (_, w') \<Rightarrow> (past, recs, w'))"
| "segment_step crc_append sha (past, recs, w) (Sg_Refill i gauge tokens) =
     Some (past, recs, adopt_unregistered_spare i (started_writer (sgw_factories w) (sgw_config w) gauge tokens) w)"
| "segment_step crc_append sha (past, recs, w) (Sg_Register i gauge tokens update) =
     Some (past, recs, adopt_registered_spare
       \<lparr>rsp_id = i, rsp_writer = started_writer (sgw_factories w) (sgw_config w) gauge tokens, rsp_manifest = update\<rparr> w)"
| "segment_step crc_append sha (past, recs, w) (Sg_Folded p update) = Some (past, recs, snd (confirm_fold p update w))"

fun run_segments :: "(nat \<Rightarrow> bytes \<Rightarrow> nat) \<Rightarrow> (bytes \<Rightarrow> string) \<Rightarrow> segment_run \<Rightarrow> segment_event list \<Rightarrow> segment_run option" where
  "run_segments crc_append sha c [] = Some c"
| "run_segments crc_append sha c (e # es) =
     Option.bind (segment_step crc_append sha c e) (\<lambda>c'. run_segments crc_append sha c' es)"

text \<open>A gauge has one entry per zone.\<close>

fun sized_event :: "nat \<Rightarrow> segment_event \<Rightarrow> bool" where
  "sized_event n (Sg_Refill i gauge tokens) \<longleftrightarrow> length gauge = n"
| "sized_event n (Sg_Register i gauge tokens update) \<longleftrightarrow> length gauge = n"
| "sized_event n _ \<longleftrightarrow> True"

text \<open>The swaps continue one another from segment \<open>i\<close> at base \<open>b\<close>, and each describes exactly the records it closed.\<close>

definition closes :: "(bytes \<Rightarrow> nat) \<Rightarrow> (bytes \<Rightarrow> string) \<Rightarrow> writer pending_swap \<Rightarrow> record_frame list \<Rightarrow> bool" where
  "closes crc sha p rs \<longleftrightarrow> rs \<noteq> [] \<and> ps_end p + 1 = ps_base p + length rs
     \<and> (\<exists>S wr. encode_all rs = Inr S \<and> ps_digest p = sha S \<and> ps_crc32c p = crc S \<and> ps_writer p = Some wr
          \<and> writer_committed_len wr = length rs \<and> physical_size wr = length S)"

fun swap_chain ::
  "(bytes \<Rightarrow> nat) \<Rightarrow> (bytes \<Rightarrow> string) \<Rightarrow> string \<Rightarrow> nat \<Rightarrow> (writer pending_swap \<times> record_frame list) list \<Rightarrow> string \<Rightarrow> nat \<Rightarrow> bool" where
  "swap_chain crc sha i b [] j e \<longleftrightarrow> i = j \<and> b = e"
| "swap_chain crc sha i b ((p, rs) # ps) j e \<longleftrightarrow>
     ps_id p = i \<and> ps_base p = b \<and> closes crc sha p rs \<and> swap_chain crc sha (ps_successor_id p) (b + length rs) ps j e"

lemma swap_chain_snoc:
  "swap_chain crc sha i b (ps @ [(p, rs)]) j e \<longleftrightarrow>
     swap_chain crc sha i b ps (ps_id p) (ps_base p) \<and> closes crc sha p rs \<and> ps_successor_id p = j \<and> ps_base p + length rs = e"
  by (induction ps arbitrary: i b) auto

lemma swap_chain_end: "swap_chain crc sha i b ps j e \<Longrightarrow> e = b + length (concat (map snd ps))"
  by (induction ps arbitrary: i b) fastforce+

lemma swap_chain_closes: "swap_chain crc sha i b ps j e \<Longrightarrow> (p, rs) \<in> set ps \<Longrightarrow> closes crc sha p rs"
  by (induction ps arbitrary: i b) auto

definition segment_inv ::
  "(bytes \<Rightarrow> nat) \<Rightarrow> (bytes \<Rightarrow> string) \<Rightarrow> nat \<Rightarrow> string \<Rightarrow> nat \<Rightarrow> segment_run \<Rightarrow> bool" where
  "segment_inv crc sha n i b c \<longleftrightarrow>
     (case c of (past, recs, w) \<Rightarrow>
        sgw_factories w = n
      \<and> (\<exists>g. length g = n \<and> writer_inv crc n g recs (sgw_writer w))
      \<and> (\<forall>s. sgw_spare w = Some s \<longrightarrow> (\<exists>g. length g = n \<and> writer_inv crc n g [] (spr_writer s)))
      \<and> swap_chain crc sha i b past (sgw_active_id w) (sgw_base w))"

section \<open>The log across swaps\<close>

lemma writer_inv_notice:
  "writer_inv crc n g recs w \<Longrightarrow> on_commits (apply_notice x) w = Some w' \<Longrightarrow> writer_inv crc n g recs w'"
  using on_commits_inv tracker_reached_notice by metis

lemma writer_inv_release: "writer_inv crc n g recs w \<Longrightarrow> writer_inv crc n g recs (release_lane z charge w)"
  by (rule writer_inv_mono) (auto simp: writer_inv_def release_lane_def lane_follows_def split: if_splits)

lemma writer_inv_limit: "writer_inv crc n g recs w \<Longrightarrow> writer_inv crc n g recs (set_max_replica_lag_bytes limit w)"
  by (rule writer_inv_mono) (auto simp: writer_inv_def set_max_replica_lag_bytes_def lane_follows_def)

lemma writer_inv_admitted:
  assumes "writer_inv crc n g recs w" "0 < n" "length g = n"
  shows "writer_admitted_len w = length recs"
proof -
  obtain chunks where c: "length chunks = length recs" "tracker_reached n g (chunk_ends 0 chunks) (wr_commits w)"
    using writer_inv_stream [OF assms(1)] by metis
  have "tracker_core n (majority n) g (chunk_ends 0 chunks) (wr_commits w)"
    using c(2) assms(2,3) run_tracker_reachable_inv [of "majority n" n g] majority_bounds [of n] by (auto simp: tracker_reached_def)
  then show ?thesis using c(1) by (auto simp: tracker_core_def writer_admitted_len_def admitted_len_def)
qed

lemma begin_swap_SomeD:
  assumes "begin_swap sha w = (Inr (Some p), w')"
  obtains s where "sgw_spare w = Some s" "spr_registered s" "\<not> writer_is_poisoned (sgw_writer w)"
    "writer_admitted_len (sgw_writer w) \<noteq> 0" "writer_committed_len (sgw_writer w) = writer_admitted_len (sgw_writer w)"
    "flip_to_spare sha s w = (p, w')"
  using assms by (auto simp: begin_swap_def split: if_splits option.splits prod.splits)

lemma begin_swap_other: "begin_swap sha w = (r, w') \<Longrightarrow> (\<nexists>p. r = Inr (Some p)) \<Longrightarrow> w' = w"
  by (auto simp: begin_swap_def split: if_splits option.splits prod.splits)

text \<open>A swap closes exactly the records its writer has admitted, all of them committed.\<close>

lemma begin_swap_closes:
  assumes swap: "begin_swap sha w = (Inr (Some p), w')" and inv: "writer_inv crc n g recs (sgw_writer w)" "0 < n" "length g = n"
  shows "closes crc sha p recs \<and> ps_id p = sgw_active_id w \<and> ps_base p = sgw_base w
    \<and> sgw_active_id w' = ps_successor_id p \<and> sgw_base w' = sgw_base w + length recs"
proof -
  obtain s where s: "writer_admitted_len (sgw_writer w) \<noteq> 0"
      "writer_committed_len (sgw_writer w) = writer_admitted_len (sgw_writer w)" "flip_to_spare sha s w = (p, w')"
    using begin_swap_SomeD [OF swap] by metis
  have len: "writer_admitted_len (sgw_writer w) = length recs" by (rule writer_inv_admitted [OF inv])
  obtain chunks where c: "encode_all recs = Inr (concat chunks)" "length chunks = length recs"
      "ap_crc32c (wr_admitted (sgw_writer w)) = crc (concat chunks)"
      "drain_digest (ap_digest (wr_admitted (sgw_writer w))) = concat chunks"
      "tracker_reached n g (chunk_ends 0 chunks) (wr_commits (sgw_writer w))"
    using writer_inv_stream [OF inv(1)] by metis
  have "chunks \<noteq> []" using s(1) len c(2) by auto
  then have "committed_bytes (state (wr_commits (sgw_writer w))) = length (concat chunks)"
    using all_committed_bytes [OF c(5) inv(2,3)] s(2) len c(2) by (auto simp: writer_committed_len_def committed_len_def)
  then show ?thesis using s len c
    by (auto simp: flip_to_spare_def closes_def seal_digest_def prefix_digest_def seal_crc32c_def Let_def
        physical_size_def writer_committed_len_def)
qed

lemma segment_inv_active:
  assumes "segment_inv crc sha n i b (past, recs, w)" "length g = n" "writer_inv crc n g recs' wr"
  shows "segment_inv crc sha n i b (past, recs', w\<lparr>sgw_writer := wr\<rparr>)"
  using assms by (auto simp: segment_inv_def)

lemma segment_inv_spare:
  assumes "segment_inv crc sha n i b (past, recs, w)" "crc [] = 0" "length gauge = n"
  shows "segment_inv crc sha n i b
    (past, recs, adopt_spare j (started_writer (sgw_factories w) (sgw_config w) gauge tokens) registered w)"
  using assms writer_inv_limit [OF started_writer_inv [of crc, OF assms(2), of n gauge "sgw_config w" tokens], of "sgw_max_lag w"]
  by (auto simp: segment_inv_def adopt_spare_def)

lemma segment_step_inv:
  assumes inv: "segment_inv crc sha n i b (past, recs, w)" and crc: "appends_crc crc_append crc" and n: "0 < n"
    and step: "segment_step crc_append sha (past, recs, w) ev = Some c" "sized_event n ev"
  shows "segment_inv crc sha n i b c"
proof -
  obtain g where g: "length g = n" "writer_inv crc n g recs (sgw_writer w)" using inv by (auto simp: segment_inv_def)
  have nil: "crc [] = 0" using crc by (simp add: appends_crc_def)
  show ?thesis
  proof (cases ev)
    case (Sg_Append ended records)
    then obtain r wr where r: "enqueue_data_window crc_append ended records (sgw_writer w) = Some (r, wr)"
      using step(1) by (auto simp: enqueue_records_for_engine_def)
    have "c = (past, (case r of Inl _ \<Rightarrow> recs | Inr _ \<Rightarrow> recs @ records), w\<lparr>sgw_writer := wr\<rparr>)"
      using step(1) Sg_Append r by (cases r) (auto simp: enqueue_records_for_engine_def)
    then show ?thesis by (simp only:) (rule segment_inv_active [OF inv g(1) enqueue_inv [OF g(2) crc r]])
  next
    case (Sg_Notice x)
    then show ?thesis using step(1) segment_inv_active [OF inv g(1) writer_inv_notice [OF g(2)]] by auto
  next
    case (Sg_Release z charge)
    then show ?thesis using step(1) segment_inv_active [OF inv g(1) writer_inv_release [OF g(2)]] by auto
  next
    case (Sg_Spare_Notice x)
    show ?thesis
    proof (cases "sgw_spare w")
      case (Some s)
      then obtain wr where wr: "on_commits (apply_notice x) (spr_writer s) = Some wr"
          "c = (past, recs, w\<lparr>sgw_spare := Some (s\<lparr>spr_writer := wr\<rparr>)\<rparr>)"
        using step(1) Sg_Spare_Notice by auto
      show ?thesis unfolding wr(2) using inv Some writer_inv_notice [OF _ wr(1)] by (auto simp: segment_inv_def)
    qed (use step(1) inv Sg_Spare_Notice in simp)
  next
    case (Sg_Limit limit)
    then show ?thesis using step(1) inv g writer_inv_limit
      by (fastforce simp: segment_inv_def sgw_set_max_replica_lag_bytes_def)
  next
    case Sg_Swap
    obtain r w' where sw: "begin_swap sha w = (r, w')" by (rule prod.exhaust)
    show ?thesis
    proof (cases "\<exists>p. r = Inr (Some p)")
      case True
      then obtain p where p: "begin_swap sha w = (Inr (Some p), w')" using sw by auto
      obtain s where "sgw_spare w = Some s" "flip_to_spare sha s w = (p, w')" using begin_swap_SomeD [OF p] by metis
      then show ?thesis using Sg_Swap step(1) inv p begin_swap_closes [OF p g(2) n g(1)]
        by (auto simp: segment_inv_def swap_chain_snoc flip_to_spare_def Let_def seal_digest_def split: prod.splits)
    next
      case False
      then show ?thesis using Sg_Swap step(1) inv sw begin_swap_other [OF sw] by (auto split: sum.splits option.splits)
    qed
  next
    case (Sg_Refill j gauge tokens)
    then show ?thesis using step segment_inv_spare [OF inv nil] by (auto simp: adopt_unregistered_spare_def)
  next
    case (Sg_Register j gauge tokens update)
    have "segment_inv crc sha n i b (past, recs, w\<lparr>sgw_manifest := install_update update (sgw_manifest w)\<rparr>)"
      using inv by (auto simp: segment_inv_def)
    from segment_inv_spare [OF this nil] show ?thesis using step Sg_Register by (auto simp: adopt_registered_spare_def)
  next
    case (Sg_Folded p update)
    show ?thesis
    proof (cases "sgw_spare w")
      case None
      then show ?thesis using step(1) inv Sg_Folded by (auto simp: segment_inv_def confirm_fold_def Let_def)
    next
      case (Some s)
      then have c: "c = (past, recs, w\<lparr>sgw_manifest := install_update update (sgw_manifest w),
          sgw_spare := Some (s\<lparr>spr_registered := True\<rparr>), sgw_sealed_segments := mark_folded (sgw_quorum w) p (sgw_sealed_segments w)\<rparr>)"
        using step(1) Sg_Folded by (simp add: confirm_fold_def Let_def)
      show ?thesis unfolding c using inv Some by (simp add: segment_inv_def)
    qed
  qed
qed

lemma run_segments_inv:
  "segment_inv crc sha n i b c \<Longrightarrow> appends_crc crc_append crc \<Longrightarrow> 0 < n \<Longrightarrow> list_all (sized_event n) es \<Longrightarrow>
     run_segments crc_append sha c es = Some c' \<Longrightarrow> segment_inv crc sha n i b c'"
proof (induction es arbitrary: c)
  case (Cons e es)
  then obtain c1 where c1: "segment_step crc_append sha c e = Some c1" "run_segments crc_append sha c1 es = Some c'"
    by (auto simp: bind_eq_Some_conv)
  obtain past recs w where "c = (past, recs, w)" by (rule prod_cases3)
  then have "segment_inv crc sha n i b c1" using segment_step_inv c1(1) Cons.prems by fastforce
  then show ?case using Cons.IH c1(2) Cons.prems by simp
qed simp

lemma admit_window_range: "admit_window bs zones t = Some (t', first, e) \<Longrightarrow> e = admitted_len t' \<and> first + length bs = e"
  by (auto simp: admit_window_def admitted_len_def Let_def recompute_locked_mono dest!: represent_zones_fields
      split: if_splits option.splits)

lemma enqueue_Inr_run:
  assumes "enqueue_data_window crc_append ended records w = Some (Inr (first, e), w')" "records \<noteq> []"
  shows "\<exists>bs zones t0. length bs = length records \<and> admit_window bs zones t0 = Some (wr_commits w', first, e)"
proof -
  obtain chunks where c: "collect_results (map encode records) = Inr chunks"
    using assms by (auto simp: enqueue_data_window_def split: if_splits sum.splits)
  let ?b = "\<lambda>w1. \<lparr>bd_start = int (ap_bytes (wr_admitted w1)), bd_chunks = chunks,
      bd_boundaries = chunk_ends (int (ap_bytes (wr_admitted w1))) chunks\<rparr>"
  obtain rs w1 where "reserve_zones (sum_list (map length chunks)) (length chunks = 1) [0..<length (wr_lanes w)] w = Some (rs, w1)"
    using assms c by (auto simp: enqueue_data_window_def bind_eq_Some_conv split: if_splits)
  then obtain zones w3 t where t: "admit_window (bd_boundaries (?b w1)) zones (wr_commits w3) = Some (t, first, e)"
      "w' = w3\<lparr>wr_admitted := queue_digest chunks (wr_admitted w3), wr_commits := t\<rparr>"
    using assms c by (auto simp: enqueue_data_window_def Let_def bind_eq_Some_conv split: if_splits)
  then show ?thesis using collect_results_length [OF c]
    by (intro exI [of _ "bd_boundaries (?b w1)"] exI [of _ zones] exI [of _ "wr_commits w3"]) simp
qed

text \<open>The global indices of an admission continue the log.\<close>

lemma enqueue_range:
  assumes inv: "writer_inv crc n g recs w" "0 < n" "length g = n" and crc: "appends_crc crc_append crc"
    and enq: "enqueue_data_window crc_append ended records w = Some (Inr (first, e), w')"
  shows "first = length recs \<and> e = length recs + length records"
proof (cases "records = []")
  case True
  then show ?thesis using enq writer_inv_admitted [OF inv] by (simp add: enqueue_data_window_def)
next
  case False
  have "writer_admitted_len w' = length (recs @ records)"
    using writer_inv_admitted [OF _ inv(2,3)] enqueue_inv [OF inv(1) crc enq] by simp
  then show ?thesis using enqueue_Inr_run [OF enq False] admit_window_range by (fastforce simp: writer_admitted_len_def)
qed

lemma append_range:
  assumes inv: "segment_inv crc sha n i b (past, recs, w)" and crc: "appends_crc crc_append crc" and n: "0 < n"
    and enq: "enqueue_records_for_engine crc_append ended records w = Some (Inr cr, w')"
  shows "rcr_first cr = b + length (concat (map snd past) @ recs)
    \<and> rcr_end cr = b + length (concat (map snd past) @ recs @ records)"
proof -
  obtain g where g: "length g = n" "writer_inv crc n g recs (sgw_writer w)" using inv by (auto simp: segment_inv_def)
  have base: "sgw_base w = b + length (concat (map snd past))" using inv swap_chain_end by (fastforce simp: segment_inv_def)
  obtain r wr where r: "enqueue_data_window crc_append ended records (sgw_writer w) = Some (r, wr)"
    using enq by (auto simp: enqueue_records_for_engine_def)
  then obtain first e where a: "enqueue_data_window crc_append ended records (sgw_writer w) = Some (Inr (first, e), wr)"
      "cr = \<lparr>rcr_base = sgw_base w, rcr_first = sgw_base w + first, rcr_end = sgw_base w + e\<rparr>"
    using enq by (cases r) (auto simp: enqueue_records_for_engine_def)
  then show ?thesis using enqueue_range [OF g(2) n g(1) crc a(1)] base by simp
qed

text \<open>What the fold of a swap commits to the manifest.\<close>

lemma fold_publishes_swap:
  assumes "closes crc sha p rs" "pending_fold_request w p = Inr f"
    and "fold_pending_transform epoch owner max_bytes f r = Inr (Update r' ())"
  shows "\<exists>S. encode_all rs = Inr S
    \<and> mr_segments r' = mr_segments r @ [\<lparr>de_id = ps_id p, de_base = ps_base p, de_crc32c = crc S\<rparr>]
    \<and> mr_seal_digest r' = Some (sha S) \<and> mr_tail_id r = Some (ps_id p) \<and> mr_tail_base r = ps_base p
    \<and> mr_tail_id r' = Some (ps_successor_id p) \<and> mr_tail_base r' = ps_base p + length rs"
  using assms
  by (auto simp: closes_def pending_fold_request_def fold_pending_transform_def and_then_Inr_iff
      split: option.splits if_splits)

end
