(* ===== verification/Engine_State.thy ===== *)
theory Engine_State
  imports Segment_Writer
begin

text \<open>
  The configuration, the shared state and the admission handle of the WAL engine
  (\<open>engine.rs\<close>).  The engine task and the handle meet in one record: the command
  channel, the two byte semaphores, the watch values the engine publishes, and
  the answers it gives.  Durations are in nanoseconds, as in \<open>Replica_Ops\<close>, and an
  armed sleep is its delay.  Tokio's limit on semaphore permits is an argument.
\<close>

section \<open>Configuration\<close>

definition u128_max :: nat where "u128_max = 2 ^ 128 - 1"

record wal_engine_config =
  wc_queue_capacity_bytes :: nat
  wc_pipeline_window_bytes :: nat
  wc_max_inflight_bytes :: nat
  wc_max_replica_lag_bytes :: nat
  wc_lane_stall_timeout :: nat
  wc_max_segment_bytes :: nat
  wc_max_active_segment_bytes :: nat
  wc_repair_interval :: "nat option"
  wc_shutdown_timeout :: nat

definition default_engine_config :: wal_engine_config where
  "default_engine_config =
     \<lparr>wc_queue_capacity_bytes = 4 * 1024 * 1024 * 16, wc_pipeline_window_bytes = 4 * 1024 * 1024,
      wc_max_inflight_bytes = 64 * 1024 * 1024, wc_max_replica_lag_bytes = 64 * 1024 * 1024,
      wc_lane_stall_timeout = 5000000000, wc_max_segment_bytes = 256 * 1024 * 1024,
      wc_max_active_segment_bytes = 4 * 1024 * 1024 * 1024, wc_repair_interval = Some 300000000000,
      wc_shutdown_timeout = 300000000000\<rparr>"

definition validate_config :: "nat \<Rightarrow> wal_engine_config \<Rightarrow> error + unit" where
  "validate_config max_permits c =
     and_then (require (wc_queue_capacity_bytes c \<noteq> 0) (Err_InvalidConfig ''queue_capacity_bytes must be nonzero'')) (\<lambda>_.
     and_then (require (wc_pipeline_window_bytes c \<noteq> 0) (Err_InvalidConfig ''pipeline_window_bytes must be nonzero'')) (\<lambda>_.
     and_then (require (wc_max_inflight_bytes c \<noteq> 0) (Err_InvalidConfig ''max_inflight_bytes must be nonzero'')) (\<lambda>_.
     and_then (require (wc_max_replica_lag_bytes c \<noteq> 0) (Err_InvalidConfig ''max_replica_lag_bytes must be nonzero'')) (\<lambda>_.
     and_then (require (wc_max_inflight_bytes c \<le> wc_max_replica_lag_bytes c)
       (Err_InvalidConfig ''max_replica_lag_bytes must be at least max_inflight_bytes'')) (\<lambda>_.
     and_then (require (wc_lane_stall_timeout c \<noteq> 0) (Err_InvalidConfig ''lane_stall_timeout must be nonzero'')) (\<lambda>_.
     and_then (require (wc_max_inflight_bytes c \<le> max_permits)
       (Err_InvalidConfig ''max_inflight_bytes exceeds the semaphore limit'')) (\<lambda>_.
     and_then (require (wc_queue_capacity_bytes c \<le> max_permits)
       (Err_InvalidConfig ''queue_capacity_bytes exceeds the semaphore limit'')) (\<lambda>_.
     and_then (require (wc_max_segment_bytes c \<noteq> 0) (Err_InvalidConfig ''max_segment_bytes must be nonzero'')) (\<lambda>_.
     and_then (require (wc_max_active_segment_bytes c \<noteq> 0) (Err_InvalidConfig ''max_active_segment_bytes must be nonzero'')) (\<lambda>_.
     and_then (require (wc_max_segment_bytes c \<le> wc_max_active_segment_bytes c)
       (Err_InvalidConfig ''max_active_segment_bytes must be at least max_segment_bytes'')) (\<lambda>_.
     and_then (require (wc_repair_interval c \<noteq> Some 0) (Err_InvalidConfig ''repair_interval must be nonzero'')) (\<lambda>_.
     require (wc_shutdown_timeout c \<noteq> 0) (Err_InvalidConfig ''shutdown_timeout must be nonzero'')))))))))))))"


section \<open>Commands and rotation state\<close>

text \<open>An admitted record with the permits it holds; a queue slot is its permits and its share of the queue gauge.\<close>

record admitted_append =
  aa_seqno :: wal_seq_no
  aa_record :: record_frame
  aa_payload_bytes :: nat
  aa_admission_end_bytes :: nat
  aa_inflight :: nat
  aa_queue_slot :: "(nat \<times> nat) option"

definition append_encoded_bytes :: "admitted_append \<Rightarrow> nat" where
  "append_encoded_bytes a = aa_payload_bytes a + HEADER_LEN"

datatype command = Cmd_Append admitted_append | Cmd_Shutdown nat

text \<open>A batch shares the tracker of the segment it was dispatched to, named by its generation.\<close>

record completion_batch =
  cb_commits :: record_commit_range
  cb_generation :: nat
  cb_appends :: "admitted_append list"

record engine_state =
  es_queue :: "command list"
  es_completion_batches :: "completion_batch list"
  es_pending_records :: nat
  es_pending_bytes :: nat
  es_next_completion :: nat
  es_next_admission :: nat
  es_last_dispatched_admission_bytes :: nat
  es_input_closed :: bool
  es_shutdown_response :: bool
  es_seal_deadline :: "nat option"

definition new_engine_state :: "nat \<Rightarrow> engine_state" where
  "new_engine_state i =
     \<lparr>es_queue = [], es_completion_batches = [], es_pending_records = 0, es_pending_bytes = 0, es_next_completion = i,
      es_next_admission = i, es_last_dispatched_admission_bytes = 0, es_input_closed = False,
      es_shutdown_response = False, es_seal_deadline = None\<rparr>"

datatype rotation =
    Rot_Idle
  | Rot_Due
  | Rot_Draining "writer pending_swap" nat "nat option" bool
  | Rot_Sealing

text \<open>Comparing with a constant constructor is a match, as in the source, and needs no equality of writers.\<close>

lemma rotation_equal_code [code_unfold]:
  "HOL.equal r Rot_Idle \<longleftrightarrow> (case r of Rot_Idle \<Rightarrow> True | _ \<Rightarrow> False)"
  "HOL.equal r Rot_Due \<longleftrightarrow> (case r of Rot_Due \<Rightarrow> True | _ \<Rightarrow> False)"
  "HOL.equal r Rot_Sealing \<longleftrightarrow> (case r of Rot_Sealing \<Rightarrow> True | _ \<Rightarrow> False)"
  by (simp_all add: equal_eq split: rotation.split)

definition mark_due :: "bool \<Rightarrow> rotation \<Rightarrow> rotation" where
  "mark_due due r = (if due \<and> r = Rot_Idle then Rot_Due else r)"

definition fold_ready :: "nat \<Rightarrow> rotation \<Rightarrow> bool" where
  "fold_ready next_completion r =
     (case r of Rot_Draining p _ None False \<Rightarrow> ps_end p < next_completion | _ \<Rightarrow> False)"

definition rotation_swap :: "rotation \<Rightarrow> writer pending_swap option" where
  "rotation_swap r = (case r of Rot_Draining p _ _ _ \<Rightarrow> Some p | _ \<Rightarrow> None)"

definition has_pending_fold :: "rotation \<Rightarrow> bool" where
  "has_pending_fold r = (case r of Rot_Draining _ _ _ _ \<Rightarrow> True | _ \<Rightarrow> False)"

definition retry_pending :: "rotation \<Rightarrow> bool" where
  "retry_pending r = (case r of Rot_Draining _ _ (Some _) _ \<Rightarrow> True | _ \<Rightarrow> False)"

definition dispatch_paused :: "bool \<Rightarrow> rotation \<Rightarrow> bool" where
  "dispatch_paused ready r \<longleftrightarrow> r = Rot_Due \<and> ready"

definition ROTATION_MAX_RETRY_DELAY :: nat where "ROTATION_MAX_RETRY_DELAY = 10000000000"

definition arm_fold_retry :: "client_config \<Rightarrow> rotation \<Rightarrow> rotation" where
  "arm_fold_retry cfg r =
     (case r of
        Rot_Draining p attempts _ blocked \<Rightarrow>
          Rot_Draining p (saturating_add usize_max attempts 1) (Some (min (retry_delay cfg attempts) ROTATION_MAX_RETRY_DELAY)) blocked
      | _ \<Rightarrow> r)"

definition set_fold_capacity_block :: "bool \<Rightarrow> rotation \<Rightarrow> rotation" where
  "set_fold_capacity_block b r = (case r of Rot_Draining p attempts retry _ \<Rightarrow> Rot_Draining p attempts retry b | _ \<Rightarrow> r)"

definition rotation_shutdown :: "rotation \<Rightarrow> rotation" where
  "rotation_shutdown r =
     (case r of
        Rot_Draining p attempts retry b \<Rightarrow> Rot_Draining (p\<lparr>ps_writer := map_option shutdown_background_tasks (ps_writer p)\<rparr>) attempts retry b
      | _ \<Rightarrow> r)"


section \<open>Published values\<close>

record active_segment_capacity =
  cap_admission_start_bytes :: nat
  cap_existing_bytes :: nat
  cap_seal_room :: bool

datatype rotation_blocker = SpareNotReady | SealPending | DirectoryFull

record blocked_rotation =
  br_reason :: rotation_blocker
  br_segment_base :: nat
  br_since :: nat

record wal_status =
  ws_rotation_blocked :: "(rotation_blocker \<times> nat) option"
  ws_active_segment_bytes :: nat
  ws_max_active_segment_bytes :: nat
  ws_closed :: bool

text \<open>What the provisioner is asked for.\<close>

datatype provision_attempt =
    Attempt_Fold manifest pending_fold
  | Attempt_Spare provision_parts string
  | Attempt_Registered provision_parts string

text \<open>The answers of the engine: the result of each append, the shutdown acknowledgment, a request to the provisioner,
  and a segment handed to maintenance.\<close>

datatype engine_output =
    Out_Result wal_seq_no "error + unit"
  | Out_Shutdown
  | Out_Attempt provision_attempt
  | Out_Seal swapped_segment

datatype engine_phase =
    Ph_Complete | Ph_Recheck | Ph_Provision | Ph_Swap | Ph_Shutdown | Ph_Dispatch | Ph_Wait | Ph_Exit | Ph_Stopped

record engine =
  en_writer :: segmented_writer
  en_state :: engine_state
  en_rotation :: rotation
  en_retired :: "commit_tracker list"
  en_spare_requested :: bool
  en_spare_attempts :: nat
  en_spare_retry :: "nat option"
  en_recheck_due :: bool
  en_recheck_attempts :: nat
  en_recheck_retry :: "nat option"
  en_rechecks_open :: bool
  en_capacity :: active_segment_capacity
  en_blocked :: "blocked_rotation option"
  en_catalog :: "segment_descriptor list"
  en_channel :: "command list"
  en_receiver_open :: bool
  en_sender_open :: bool
  en_inflight :: nat
  en_queue_slots :: nat
  en_queued_bytes :: nat
  en_out :: "engine_output list"
  en_phase :: engine_phase

section \<open>Resolving appends\<close>

text \<open>A resolved append gives back its in-flight permits, and its queue slot when it still holds one.\<close>

definition emit :: "engine_output \<Rightarrow> engine \<Rightarrow> engine" where
  "emit out en = en\<lparr>en_out := en_out en @ [out]\<rparr>"

definition drop_slot :: "admitted_append \<Rightarrow> engine \<Rightarrow> engine" where
  "drop_slot a en =
     (case aa_queue_slot a of
        None \<Rightarrow> en
      | Some (permits, held) \<Rightarrow> en\<lparr>en_queue_slots := en_queue_slots en + permits, en_queued_bytes := en_queued_bytes en - held\<rparr>)"

definition drop_append :: "admitted_append \<Rightarrow> engine \<Rightarrow> engine" where
  "drop_append a en = drop_slot a (en\<lparr>en_inflight := en_inflight en + aa_inflight a\<rparr>)"

definition complete_append :: "admitted_append \<Rightarrow> engine \<Rightarrow> engine" where
  "complete_append a en = drop_append a (emit (Out_Result (aa_seqno a) (Inr ())) en)"

definition fail_append :: "error \<Rightarrow> admitted_append \<Rightarrow> engine \<Rightarrow> engine" where
  "fail_append e a en = drop_append a (emit (Out_Result (aa_seqno a) (Inl e)) en)"

text \<open>A completion whose sender is dropped resolves as closed.\<close>

definition drop_unresolved :: "admitted_append \<Rightarrow> engine \<Rightarrow> engine" where
  "drop_unresolved a en = fail_append Err_Closed a en"

definition fail_command :: "error \<Rightarrow> command \<Rightarrow> engine \<Rightarrow> engine" where
  "fail_command e c en = (case c of Cmd_Append a \<Rightarrow> fail_append e a en | Cmd_Shutdown _ \<Rightarrow> emit Out_Shutdown en)"

definition with_state :: "(engine_state \<Rightarrow> engine_state) \<Rightarrow> engine \<Rightarrow> engine" where
  "with_state f en = en\<lparr>en_state := f (en_state en)\<rparr>"

definition fail_all :: "error \<Rightarrow> engine \<Rightarrow> engine" where
  "fail_all e en =
     with_state (\<lambda>s. s\<lparr>es_queue := []\<rparr>) (fold (fail_command e) (es_queue (en_state en)) en)"

definition fail_completion_batches :: "error \<Rightarrow> engine \<Rightarrow> engine" where
  "fail_completion_batches e en =
     with_state (\<lambda>s. s\<lparr>es_completion_batches := []\<rparr>)
       (fold (fail_append e) (concat (map cb_appends (es_completion_batches (en_state en)))) en)"

definition stop_admission :: "engine \<Rightarrow> engine" where
  "stop_admission en =
     with_state (\<lambda>s. s\<lparr>es_queue := es_queue s @ en_channel en\<rparr>) (en\<lparr>en_receiver_open := False, en_channel := []\<rparr>)"

definition fail_queued :: "error \<Rightarrow> engine \<Rightarrow> engine" where
  "fail_queued e en = fail_all e (stop_admission en)"

definition poison_engine :: "engine \<Rightarrow> engine" where
  "poison_engine en = fail_all Err_Poisoned (fail_completion_batches Err_Poisoned (stop_admission en))"

definition admit_command :: "command \<Rightarrow> engine_state \<Rightarrow> engine_state" where
  "admit_command c s =
     (case c of
        Cmd_Append _ \<Rightarrow> s\<lparr>es_queue := es_queue s @ [c], es_next_admission := es_next_admission s + 1\<rparr>
      | Cmd_Shutdown _ \<Rightarrow> s\<lparr>es_queue := es_queue s @ [c]\<rparr>)"

text \<open>An empty channel whose sender is gone reports the disconnection.\<close>

definition drain_available :: "engine \<Rightarrow> engine" where
  "drain_available en =
     with_state (\<lambda>s. (fold admit_command (en_channel en) s)\<lparr>es_input_closed := es_input_closed s \<or> \<not> en_sender_open en\<rparr>)
       (en\<lparr>en_channel := []\<rparr>)"


section \<open>The handle\<close>

text \<open>An admission that has passed its checks waits for permits; at most one can, since the handle is borrowed.\<close>

record waiting_append =
  wa_seqno :: wal_seq_no
  wa_record :: record_frame
  wa_encoded_bytes :: nat
  wa_admission_end_bytes :: nat

record wal_handle =
  hd_next_seqno :: nat
  hd_max_inflight_bytes :: nat
  hd_queue_capacity_bytes :: nat
  hd_max_active_segment_bytes :: nat
  hd_total_admitted_bytes :: nat
  hd_shutdown_timeout :: nat
  hd_waiting :: "waiting_append option"

definition start_rotation :: "writer pending_swap option \<Rightarrow> rotation" where
  "start_rotation recovered = (case recovered of None \<Rightarrow> Rot_Idle | Some p \<Rightarrow> Rot_Draining p 0 None False)"

definition start_engine ::
  "nat \<Rightarrow> segmented_writer \<Rightarrow> wal_engine_config \<Rightarrow> error + wal_handle \<times> engine" where
  "start_engine max_permits w cfg =
     and_then (validate_config max_permits cfg) (\<lambda>_.
       if active_segment_bytes w \<noteq> 0 \<and> \<not> active_segment_has_seal_room w then Inl Err_SegmentDirectoryFull
       else case writer_claim_of (sgw_manifest w) of
         Inl e \<Rightarrow> Inl (error_of_protocol e)
       | Inr _ \<Rightarrow>
           let w1 = sgw_set_max_replica_lag_bytes (wc_max_replica_lag_bytes cfg) w;
               (recovered, w2) = take_recovered_fold w1
           in Inr (\<lparr>hd_next_seqno = committed_record_end w, hd_max_inflight_bytes = wc_max_inflight_bytes cfg,
                hd_queue_capacity_bytes = wc_queue_capacity_bytes cfg,
                hd_max_active_segment_bytes = wc_max_active_segment_bytes cfg, hd_total_admitted_bytes = 0,
                hd_shutdown_timeout = wc_shutdown_timeout cfg, hd_waiting = None\<rparr>,
              \<lparr>en_writer = w2, en_state = new_engine_state (committed_record_end w1), en_rotation = start_rotation recovered,
               en_retired = [], en_spare_requested = False, en_spare_attempts = 0, en_spare_retry = None,
               en_recheck_due = False, en_recheck_attempts = 0, en_recheck_retry = None, en_rechecks_open = True,
               en_capacity = \<lparr>cap_admission_start_bytes = 0, cap_existing_bytes = active_segment_bytes w,
                 cap_seal_room = active_segment_has_seal_room w\<rparr>,
               en_blocked = None, en_catalog = sgw_sealed_segments w1, en_channel = [], en_receiver_open = True,
               en_sender_open = True, en_inflight = wc_max_inflight_bytes cfg, en_queue_slots = wc_queue_capacity_bytes cfg,
               en_queued_bytes = 0, en_out = [], en_phase = Ph_Complete\<rparr>))"

text \<open>The checks of \<open>enqueue_inner\<close> before it waits.\<close>

definition check_append :: "wal_handle \<Rightarrow> engine \<Rightarrow> wal_seq_no \<Rightarrow> bytes \<Rightarrow> error + waiting_append" where
  "check_append h en seqno data =
     (let frame = \<lparr>payload = data\<rparr>; cap = en_capacity en; overflow = Err_Internal ''active-segment byte accounting overflowed'' in
     and_then (require (en_receiver_open en) Err_Closed) (\<lambda>_.
     and_then (require (get_seq seqno = hd_next_seqno h) (Err_OutOfOrder (WalSeqNo (hd_next_seqno h)) seqno)) (\<lambda>_.
     and_then (require (get_seq seqno \<noteq> u64_max) Err_SequenceExhausted) (\<lambda>_.
     and_then (case encoded_len frame of Inl _ \<Rightarrow> Inl (Err_RecordTooLarge MAX_PAYLOAD_BYTES (length data)) | Inr n \<Rightarrow> Inr n) (\<lambda>encoded.
     and_then (require (cap_seal_room cap) Err_SegmentDirectoryFull) (\<lambda>_.
     and_then (ok_or (checked_sub (hd_total_admitted_bytes h) (cap_admission_start_bytes cap))
       (Err_Internal ''active-segment admission boundary exceeds total admitted bytes'')) (\<lambda>admitted_here.
     and_then (ok_or (checked_add u128_max (cap_existing_bytes cap) admitted_here) overflow) (\<lambda>current.
     and_then (ok_or (checked_add u128_max current encoded) overflow) (\<lambda>projected.
     and_then (require (projected \<le> hd_max_active_segment_bytes h)
       (Err_ActiveSegmentFull (hd_max_active_segment_bytes h) (min current usize_max) encoded)) (\<lambda>_.
     and_then (ok_or (checked_add u128_max (hd_total_admitted_bytes h) encoded)
       (Err_Internal ''cumulative admission bytes overflowed'')) (\<lambda>admission_end.
     and_then (require (encoded \<le> u32_max) (Err_Internal ''encoded record length exceeds u32'')) (\<lambda>_.
     Inr \<lparr>wa_seqno = seqno, wa_record = frame, wa_encoded_bytes = encoded, wa_admission_end_bytes = admission_end\<rparr>))))))))))))"

definition permits_for :: "nat \<Rightarrow> nat \<Rightarrow> nat" where
  "permits_for budget encoded = min encoded (min budget u32_max)"

definition begin_append :: "wal_seq_no \<Rightarrow> bytes \<Rightarrow> wal_handle \<Rightarrow> engine \<Rightarrow> (error + unit) \<times> wal_handle" where
  "begin_append seqno data h en =
     (case check_append h en seqno data of Inl e \<Rightarrow> (Inl e, h) | Inr wa \<Rightarrow> (Inr (), h\<lparr>hd_waiting := Some wa\<rparr>))"

text \<open>The rest of \<open>enqueue_inner\<close>, once both semaphores can grant the permits; \<open>None\<close> while they cannot.\<close>

definition finish_append :: "wal_handle \<Rightarrow> engine \<Rightarrow> ((error + unit) \<times> wal_handle \<times> engine) option" where
  "finish_append h en =
     Option.bind (hd_waiting h) (\<lambda>wa.
       let inflight = permits_for (hd_max_inflight_bytes h) (wa_encoded_bytes wa);
           slot = permits_for (hd_queue_capacity_bytes h) (wa_encoded_bytes wa);
           h1 = h\<lparr>hd_waiting := None\<rparr>
       in if en_inflight en < inflight \<or> en_queue_slots en < slot then None
          else if \<not> en_receiver_open en then Some (Inl Err_Closed, h1, en)
          else Some (Inr (),
            h1\<lparr>hd_total_admitted_bytes := wa_admission_end_bytes wa, hd_next_seqno := hd_next_seqno h + 1\<rparr>,
            en\<lparr>en_inflight := en_inflight en - inflight, en_queue_slots := en_queue_slots en - slot,
              en_queued_bytes := en_queued_bytes en + wa_encoded_bytes wa,
              en_channel := en_channel en @ [Cmd_Append \<lparr>aa_seqno = wa_seqno wa, aa_record = wa_record wa,
                aa_payload_bytes = length (payload (wa_record wa)), aa_admission_end_bytes = wa_admission_end_bytes wa,
                aa_inflight = inflight, aa_queue_slot = Some (slot, wa_encoded_bytes wa)\<rparr>]\<rparr>))"

definition handle_status :: "nat \<Rightarrow> wal_handle \<Rightarrow> engine \<Rightarrow> wal_status" where
  "handle_status now h en =
     \<lparr>ws_rotation_blocked = map_option (\<lambda>b. (br_reason b, now - br_since b)) (en_blocked en),
      ws_active_segment_bytes = min usize_max (saturating_add u128_max (cap_existing_bytes (en_capacity en))
        (hd_total_admitted_bytes h - cap_admission_start_bytes (en_capacity en))),
      ws_max_active_segment_bytes = hd_max_active_segment_bytes h, ws_closed = (\<not> en_receiver_open en)\<rparr>"

text \<open>The shutdown request, which consumes the handle; the seal gets the first half of the timeout.\<close>

definition send_shutdown :: "nat \<Rightarrow> wal_handle \<Rightarrow> engine \<Rightarrow> engine" where
  "send_shutdown now h en =
     (let en1 = (if en_receiver_open en then en\<lparr>en_channel := en_channel en @ [Cmd_Shutdown (now + hd_shutdown_timeout h div 2)]\<rparr> else en)
      in en1\<lparr>en_sender_open := False\<rparr>)"

end
