(* ===== verification/Engine.thy ===== *)
theory Engine
  imports Engine_State
begin

text \<open>
  The engine task (\<open>run_engine\<close> of \<open>engine.rs\<close>).  One pass of its loop is a sequence
  of phases, so that what other tasks do can fall between any two of them:
  completions, the recheck after a truncation, the request to the provisioner,
  the swap, the shutdown command, dispatch, and the wait for one event.  A phase
  that leaves the loop goes to \<open>Ph_Exit\<close>.  An execution is a sequence of events of
  the caller, the lanes, the engine task and the tasks it waits for.
\<close>

section \<open>Completions\<close>

text \<open>The snapshot a batch reads: of the active segment's tracker, or of a segment that has been swapped out.\<close>

definition batch_tracker :: "engine \<Rightarrow> completion_batch \<Rightarrow> commit_tracker" where
  "batch_tracker en b =
     (if cb_generation b < length (en_retired en) then en_retired en ! cb_generation b
      else wr_commits (sgw_writer (en_writer en)))"

definition batch_progress :: "engine \<Rightarrow> completion_batch \<Rightarrow> nat \<times> error option" where
  "batch_progress en b =
     (case range_progress (batch_tracker en b) of
        (n, e) \<Rightarrow> (rcr_base (cb_commits b) + n, map_option error_of_protocol e))"

datatype completion_failure = Failed_Append admitted_append error | Failed_Invariant string

definition settle_one :: "admitted_append \<Rightarrow> engine_state \<Rightarrow> engine_state" where
  "settle_one a s =
     s\<lparr>es_pending_records := es_pending_records s - 1, es_pending_bytes := es_pending_bytes s - append_encoded_bytes a\<rparr>"

text \<open>The inner loop: the leading appends below the committed end are acknowledged.\<close>

fun pop_committed ::
  "nat \<Rightarrow> nat \<Rightarrow> admitted_append list \<Rightarrow> engine \<Rightarrow> completion_failure option \<times> admitted_append list \<times> engine" where
  "pop_committed max_segment_bytes committed_end [] en = (None, [], en)"
| "pop_committed max_segment_bytes committed_end (a # as) en =
     (if \<not> get_seq (aa_seqno a) < committed_end then (None, a # as, en)
      else if es_pending_records (en_state en) = 0
      then (Some (Failed_Invariant ''completion queue exceeded the pending record count''), as, drop_unresolved a en)
      else let en1 = with_state (\<lambda>s. s\<lparr>es_next_completion := es_next_completion s + 1\<rparr>)
                 (complete_append a (with_state (settle_one a) en));
               en2 = en1\<lparr>en_rotation := mark_due (rotation_due max_segment_bytes (en_writer en1)) (en_rotation en1)\<rparr>
           in pop_committed max_segment_bytes committed_end as en2)"

fun completion_loop ::
  "nat \<Rightarrow> completion_batch list \<Rightarrow> engine \<Rightarrow> completion_failure option \<times> completion_batch list \<times> engine" where
  "completion_loop max_segment_bytes [] en = (None, [], en)"
| "completion_loop max_segment_bytes (b # bs) en =
     (case batch_progress en b of
        (committed_end, failed) \<Rightarrow>
          (case pop_committed max_segment_bytes committed_end (cb_appends b) en of
             (Some f, rest, en1) \<Rightarrow> (Some f, b\<lparr>cb_appends := rest\<rparr> # bs, en1)
           | (None, [], en1) \<Rightarrow> completion_loop max_segment_bytes bs en1
           | (None, a # rest, en1) \<Rightarrow>
               (case failed of
                  None \<Rightarrow> (None, b\<lparr>cb_appends := a # rest\<rparr> # bs, en1)
                | Some e \<Rightarrow>
                    if es_pending_records (en_state en1) = 0
                    then (Some (Failed_Invariant ''failed completion exceeded the pending record count''),
                          b\<lparr>cb_appends := rest\<rparr> # bs, drop_unresolved a en1)
                    else (Some (Failed_Append a e), b\<lparr>cb_appends := rest\<rparr> # bs, with_state (settle_one a) en1))))"

definition phase_complete :: "wal_engine_config \<Rightarrow> engine \<Rightarrow> engine" where
  "phase_complete cfg en =
     (let en0 = drain_available en
      in case completion_loop (wc_max_segment_bytes cfg) (es_completion_batches (en_state en0)) en0 of
           (failed, bs, en1) \<Rightarrow>
             let en2 = with_state (\<lambda>s. s\<lparr>es_completion_batches := bs\<rparr>) en1
             in (case failed of
                   None \<Rightarrow> en2\<lparr>en_phase := Ph_Recheck\<rparr>
                 | Some (Failed_Append a e) \<Rightarrow> (poison_engine (fail_append e a en2))\<lparr>en_phase := Ph_Exit\<rparr>
                 | Some (Failed_Invariant _) \<Rightarrow> (poison_engine en2)\<lparr>en_phase := Ph_Exit\<rparr>))"


section \<open>Recheck, provisioning and swap\<close>

definition publish_seal_room :: "engine \<Rightarrow> engine" where
  "publish_seal_room en =
     en\<lparr>en_capacity := (en_capacity en)\<lparr>cap_seal_room := active_segment_has_seal_room (en_writer en)\<rparr>\<rparr>"

definition phase_recheck :: "'w manifest_store \<Rightarrow> wal_engine_config \<Rightarrow> engine \<Rightarrow> ('w, engine) state" where
  "phase_recheck store cfg en =
     (if \<not> en_recheck_due en then State_Monad.return (en\<lparr>en_phase := Ph_Provision\<rparr>)
      else do {
        (r, w) \<leftarrow> refresh_rotation_due store (wc_max_segment_bytes cfg) (en_writer en);
        let en1 = en\<lparr>en_recheck_due := False, en_writer := w, en_phase := Ph_Provision\<rparr>;
        State_Monad.return (case r of
          Inr due \<Rightarrow> publish_seal_room (en1\<lparr>en_recheck_attempts := 0,
            en_rotation := mark_due due (set_fold_capacity_block False (en_rotation en))\<rparr>)
        | Inl _ \<Rightarrow> en1\<lparr>en_recheck_attempts := saturating_add usize_max (en_recheck_attempts en) 1,
            en_recheck_retry := Some (min (retry_delay (sgw_config w) (en_recheck_attempts en)) ROTATION_MAX_RETRY_DELAY)\<rparr>)
      })"

text \<open>What the engine asks the provisioner for: a fold, a refill, or a registered spare.\<close>

definition next_attempt :: "engine \<Rightarrow> (error + provision_attempt option) \<times> engine" where
  "next_attempt en =
     (let w = en_writer en in
      if fold_ready (es_next_completion (en_state en)) (en_rotation en) \<and> unregistered_spare_ready w
      then (and_then (ok_or (rotation_swap (en_rotation en)) (Err_Internal ''fold readiness without a swap'')) (\<lambda>p.
            and_then (pending_fold_request w p) (\<lambda>f.
            and_then (provision_parts_of w) (\<lambda>parts. Inr (Some (Attempt_Fold (pp_manifest parts) f))))), en)
      else if spare_wanted w
      then (case provision_parts_of w of
              Inl e \<Rightarrow> (Inl e, en)
            | Inr parts \<Rightarrow>
                (case next_segment_id w of
                   (i, w') \<Rightarrow> (Inr (Some (if has_pending_fold (en_rotation en) then Attempt_Spare parts i else Attempt_Registered parts i)),
                     en\<lparr>en_writer := w'\<rparr>)))
      else (Inr None, en))"

text \<open>\<open>taken\<close> is the answer of the request channel.\<close>

definition phase_provision :: "bool \<Rightarrow> engine \<Rightarrow> engine" where
  "phase_provision taken en =
     (if en_spare_requested en \<or> en_spare_retry en \<noteq> None then en\<lparr>en_phase := Ph_Swap\<rparr>
      else case next_attempt en of
        (Inl e, en1) \<Rightarrow> (fail_queued e en1)\<lparr>en_phase := Ph_Exit\<rparr>
      | (Inr None, en1) \<Rightarrow> en1\<lparr>en_phase := Ph_Swap\<rparr>
      | (Inr (Some attempt), en1) \<Rightarrow>
          (if taken then (emit (Out_Attempt attempt) en1)\<lparr>en_spare_requested := True, en_phase := Ph_Swap\<rparr>
           else en1\<lparr>en_phase := Ph_Swap\<rparr>))"

definition phase_swap :: "(bytes \<Rightarrow> string) \<Rightarrow> engine \<Rightarrow> engine" where
  "phase_swap sha en =
     (if en_rotation en = Rot_Due \<and> spare_ready (en_writer en) \<and> swap_boundary_ready (en_writer en)
      then case begin_swap sha (en_writer en) of
        (Inl e, w) \<Rightarrow> (fail_queued e (en\<lparr>en_writer := w\<rparr>))\<lparr>en_phase := Ph_Exit\<rparr>
      | (Inr None, w) \<Rightarrow> en\<lparr>en_writer := w, en_rotation := Rot_Idle, en_phase := Ph_Shutdown\<rparr>
      | (Inr (Some p), w) \<Rightarrow>
          en\<lparr>en_writer := w, en_rotation := Rot_Draining p 0 None False,
            en_retired := en_retired en @ [wr_commits (sgw_writer (en_writer en))],
            en_capacity := \<lparr>cap_admission_start_bytes = es_last_dispatched_admission_bytes (en_state en),
              cap_existing_bytes = active_segment_bytes w, cap_seal_room = active_segment_has_seal_room w\<rparr>,
            en_phase := Ph_Complete\<rparr>
      else en\<lparr>en_phase := Ph_Shutdown\<rparr>)"


section \<open>Shutdown command and dispatch\<close>

definition front_append :: "engine \<Rightarrow> bool" where
  "front_append en = (case es_queue (en_state en) of Cmd_Append _ # _ \<Rightarrow> True | _ \<Rightarrow> False)"

definition phase_shutdown :: "engine \<Rightarrow> engine" where
  "phase_shutdown en =
     (if es_pending_records (en_state en) = 0 \<and> \<not> front_append en
      then case es_queue (en_state en) of
        Cmd_Shutdown deadline # rest \<Rightarrow>
          (with_state (\<lambda>s. s\<lparr>es_shutdown_response := True, es_seal_deadline := Some deadline\<rparr>)
            (fail_all Err_Closed (with_state (\<lambda>s. s\<lparr>es_queue := rest\<rparr>) en)))\<lparr>en_phase := Ph_Exit\<rparr>
      | _ \<Rightarrow> en\<lparr>en_phase := Ph_Dispatch\<rparr>
      else en\<lparr>en_phase := Ph_Dispatch\<rparr>)"

text \<open>The records of one dispatch: those that fit the window, or one larger record when nothing else is in flight.\<close>

fun take_window :: "nat \<Rightarrow> bool \<Rightarrow> command list \<Rightarrow> admitted_append list \<times> command list" where
  "take_window room alone (Cmd_Append a # q) =
     (if room < append_encoded_bytes a \<and> \<not> alone then ([], Cmd_Append a # q)
      else case take_window (room - append_encoded_bytes a) False q of (as, q') \<Rightarrow> (a # as, q'))"
| "take_window room alone q = ([], q)"

definition release_slot :: "admitted_append \<Rightarrow> admitted_append" where
  "release_slot a = a\<lparr>aa_queue_slot := None\<rparr>"

definition fail_dispatch :: "error \<Rightarrow> admitted_append list \<Rightarrow> engine \<Rightarrow> engine" where
  "fail_dispatch e as en = (fail_all e (fold (fail_append e) as (stop_admission en)))\<lparr>en_phase := Ph_Exit\<rparr>"

text \<open>The writer has taken the records of one window.\<close>

definition dispatched :: "wal_engine_config \<Rightarrow> admitted_append list \<Rightarrow> record_commit_range \<Rightarrow> engine \<Rightarrow> engine" where
  "dispatched cfg as cr en =
     (let en1 = with_state (\<lambda>s. s\<lparr>es_last_dispatched_admission_bytes := aa_admission_end_bytes (last as)\<rparr>) (fold drop_slot as en);
          as1 = map release_slot as;
          first = get_seq (aa_seqno (hd as)); e = get_seq (aa_seqno (last as)) + 1
      in if rcr_first cr \<noteq> first \<or> rcr_end cr \<noteq> e
         then fail_dispatch (Err_Internal (''WAL assigned records '' @ show_dec (rcr_first cr) @ ''..'' @ show_dec (rcr_end cr)
                @ '', caller admitted '' @ show_dec first @ ''..'' @ show_dec e)) as1 en1
         else let en2 = with_state (\<lambda>s. s\<lparr>es_pending_records := es_pending_records s + length as,
                    es_pending_bytes := es_pending_bytes s + sum_list (map append_encoded_bytes as),
                    es_completion_batches := es_completion_batches s
                      @ [\<lparr>cb_commits = cr, cb_generation = length (en_retired en), cb_appends = as1\<rparr>]\<rparr>) en1
              in en2\<lparr>en_rotation := mark_due (rotation_due (wc_max_segment_bytes cfg) (en_writer en2)) (en_rotation en2)\<rparr>)"

text \<open>One turn of the dispatch loop; when its condition fails the engine leaves the loop or goes on to wait.
  \<open>None\<close> is a panic of the tracker.\<close>

definition phase_dispatch :: "(nat \<Rightarrow> bytes \<Rightarrow> nat) \<Rightarrow> wal_engine_config \<Rightarrow> (nat \<Rightarrow> bool) \<Rightarrow> engine \<Rightarrow> engine option" where
  "phase_dispatch crc_append cfg ended en =
     (let s = en_state en; room = wc_pipeline_window_bytes cfg - es_pending_bytes s;
          (as, q) = take_window room (es_pending_records s = 0) (es_queue s)
      in if dispatch_paused (spare_ready (en_writer en)) (en_rotation en) \<or> \<not> front_append en
           \<or> wc_pipeline_window_bytes cfg \<le> es_pending_bytes s \<or> as = []
         then Some (en\<lparr>en_phase := (if es_input_closed s \<and> es_queue s = [] \<and> es_pending_records s = 0 then Ph_Exit else Ph_Wait)\<rparr>)
         else map_option (\<lambda>(r, w).
                let en1 = with_state (\<lambda>s. s\<lparr>es_queue := q\<rparr>) (en\<lparr>en_writer := w\<rparr>)
                in case r of Inl e \<Rightarrow> fail_dispatch e as en1 | Inr cr \<Rightarrow> dispatched cfg as cr en1)
              (enqueue_records_for_engine crc_append ended (map aa_record as) (en_writer en)))"

section \<open>Waiting\<close>

definition rotation_blocker_of :: "nat \<Rightarrow> rotation \<Rightarrow> segmented_writer \<Rightarrow> rotation_blocker option" where
  "rotation_blocker_of max_segment_bytes r w =
     (if active_segment_bytes w < max_segment_bytes then None
      else case r of
        Rot_Idle \<Rightarrow> if rotation_has_directory_room w then None else Some DirectoryFull
      | Rot_Due \<Rightarrow> if spare_ready w then None else Some SpareNotReady
      | Rot_Draining _ _ _ blocked \<Rightarrow> Some (if blocked then DirectoryFull else SpareNotReady)
      | Rot_Sealing \<Rightarrow> Some SealPending)"

definition publish_status :: "wal_engine_config \<Rightarrow> nat \<Rightarrow> engine \<Rightarrow> engine" where
  "publish_status cfg now en =
     (let base = sgw_base (en_writer en)
      in en\<lparr>en_blocked := map_option (\<lambda>reason. \<lparr>br_reason = reason, br_segment_base = base,
            br_since = (case en_blocked en of Some b \<Rightarrow> if br_segment_base b = base then br_since b else now | None \<Rightarrow> now)\<rparr>)
          (rotation_blocker_of (wc_max_segment_bytes cfg) (en_rotation en) (en_writer en))\<rparr>)"

datatype provision_outcome =
    Outcome_Registered registered_spare
  | Outcome_Unregistered string writer
  | Outcome_Folded manifest_update

text \<open>The arms of the engine's \<open>select!\<close>; a provisioning result carries whether maintenance takes the sealed segment.\<close>

datatype wait_event =
    Wt_Commit bool
  | Wt_Sealed bool
  | Wt_Retry_Elapsed
  | Wt_Recheck bool
  | Wt_Recheck_Elapsed
  | Wt_Spare_Elapsed
  | Wt_Provision "(error + provision_outcome) option" bool
  | Wt_Command

definition leave_loop :: "engine \<Rightarrow> engine" where
  "leave_loop en = en\<lparr>en_phase := Ph_Exit\<rparr>"

definition mark_rotation :: "wal_engine_config \<Rightarrow> engine \<Rightarrow> engine" where
  "mark_rotation cfg en =
     en\<lparr>en_rotation := mark_due (rotation_due (wc_max_segment_bytes cfg) (en_writer en)) Rot_Idle\<rparr>"

text \<open>\<open>next_commit_update\<close> fails when the update channel of the oldest batch is closed, or when there is no batch.\<close>

definition commit_update_error :: "engine \<Rightarrow> error" where
  "commit_update_error en =
     (if es_completion_batches (en_state en) = [] then Err_Poisoned else error_of_protocol PE_PipelineClosed)"

definition on_commit_error :: "engine \<Rightarrow> engine" where
  "on_commit_error en =
     (let e = commit_update_error en;
          en1 = stop_admission en;
          en2 = (case es_completion_batches (en_state en1) of
            b # bs \<Rightarrow>
              (case cb_appends b of
                 [] \<Rightarrow> en1
               | a # as \<Rightarrow> fail_append e a (with_state (\<lambda>s. s\<lparr>es_completion_batches := b\<lparr>cb_appends := as\<rparr> # bs\<rparr>) en1))
          | [] \<Rightarrow> en1)
      in leave_loop (fail_all Err_Poisoned (fail_completion_batches Err_Poisoned en2)))"

definition on_folded :: "wal_engine_config \<Rightarrow> manifest_update \<Rightarrow> bool \<Rightarrow> engine \<Rightarrow> engine" where
  "on_folded cfg update taken en =
     (case rotation_swap (en_rotation en) of
        None \<Rightarrow> leave_loop (fail_queued Err_Poisoned (en\<lparr>en_rotation := Rot_Idle\<rparr>))
      | Some p \<Rightarrow>
          (case confirm_fold p update (en_writer en) of
             (Inl e, w) \<Rightarrow> leave_loop (fail_queued e (en\<lparr>en_rotation := Rot_Idle, en_writer := w\<rparr>))
           | (Inr _, w) \<Rightarrow>
               let en1 = (publish_seal_room (en\<lparr>en_rotation := Rot_Idle, en_writer := w\<rparr>))\<lparr>en_catalog := sgw_sealed_segments w\<rparr>
               in (case into_segment p of
                     None \<Rightarrow> mark_rotation cfg en1
                   | Some seg \<Rightarrow>
                       if taken then (emit (Out_Seal seg) en1)\<lparr>en_rotation := Rot_Sealing\<rparr>
                       else leave_loop (fail_queued Err_Closed en1))))"

definition on_provision_error :: "error \<Rightarrow> engine \<Rightarrow> engine" where
  "on_provision_error e en =
     (let cfg = sgw_config (en_writer en) in
      if e = Err_SegmentDirectoryFull \<and> has_pending_fold (en_rotation en)
      then en\<lparr>en_rotation := set_fold_capacity_block True (en_rotation en)\<rparr>
      else if (case e of Err_Poisoned \<Rightarrow> True | Err_Fenced _ \<Rightarrow> True | _ \<Rightarrow> False) then leave_loop (fail_queued e en)
      else if has_pending_fold (en_rotation en) \<and> unregistered_spare_ready (en_writer en)
      then en\<lparr>en_rotation := arm_fold_retry cfg (en_rotation en)\<rparr>
      else en\<lparr>en_spare_attempts := saturating_add usize_max (en_spare_attempts en) 1,
        en_spare_retry := Some (min (retry_delay cfg (en_spare_attempts en)) ROTATION_MAX_RETRY_DELAY)\<rparr>)"

definition on_provision :: "wal_engine_config \<Rightarrow> (error + provision_outcome) option \<Rightarrow> bool \<Rightarrow> engine \<Rightarrow> engine" where
  "on_provision cfg result taken en =
     (let en0 = en\<lparr>en_spare_requested := False\<rparr>
      in case result of
           None \<Rightarrow> leave_loop (fail_queued Err_Closed en0)
         | Some (Inl e) \<Rightarrow> on_provision_error e en0
         | Some (Inr (Outcome_Registered spare)) \<Rightarrow>
             en0\<lparr>en_spare_attempts := 0, en_writer := adopt_registered_spare spare (en_writer en0)\<rparr>
         | Some (Inr (Outcome_Unregistered i wr)) \<Rightarrow>
             en0\<lparr>en_spare_attempts := 0, en_writer := adopt_unregistered_spare i wr (en_writer en0)\<rparr>
         | Some (Inr (Outcome_Folded update)) \<Rightarrow> on_folded cfg update taken en0)"

text \<open>The wait: an arm whose guard does not hold cannot fire.\<close>

definition wait_arm :: "wal_engine_config \<Rightarrow> wait_event \<Rightarrow> engine \<Rightarrow> engine option" where
  "wait_arm cfg ev en =
     (case ev of
        Wt_Commit changed \<Rightarrow>
          if es_pending_records (en_state en) = 0 then None
          else Some (if changed then en else on_commit_error en)
      | Wt_Sealed enforced \<Rightarrow>
          if en_rotation en \<noteq> Rot_Sealing then None
          else Some (if enforced then mark_rotation cfg en else leave_loop (fail_queued Err_Closed en))
      | Wt_Retry_Elapsed \<Rightarrow>
          (case en_rotation en of
             Rot_Draining p attempts (Some _) blocked \<Rightarrow> Some (en\<lparr>en_rotation := Rot_Draining p attempts None blocked\<rparr>)
           | _ \<Rightarrow> None)
      | Wt_Recheck requested \<Rightarrow>
          if \<not> en_rechecks_open en then None
          else Some (if requested then en\<lparr>en_recheck_due := True, en_recheck_attempts := 0, en_recheck_retry := None\<rparr>
                     else en\<lparr>en_rechecks_open := False\<rparr>)
      | Wt_Recheck_Elapsed \<Rightarrow>
          if en_recheck_retry en = None then None else Some (en\<lparr>en_recheck_retry := None, en_recheck_due := True\<rparr>)
      | Wt_Spare_Elapsed \<Rightarrow> if en_spare_retry en = None then None else Some (en\<lparr>en_spare_retry := None\<rparr>)
      | Wt_Provision result taken \<Rightarrow> Some (on_provision cfg result taken en)
      | Wt_Command \<Rightarrow>
          if es_input_closed (en_state en) then None
          else (case en_channel en of
             c # cs \<Rightarrow> Some (with_state (admit_command c) (en\<lparr>en_channel := cs\<rparr>))
           | [] \<Rightarrow> if en_sender_open en then None else Some (with_state (\<lambda>s. s\<lparr>es_input_closed := True\<rparr>) en)))"

definition phase_wait :: "wal_engine_config \<Rightarrow> nat \<Rightarrow> wait_event \<Rightarrow> engine \<Rightarrow> engine option" where
  "phase_wait cfg now ev en = wait_arm cfg ev ((publish_status cfg now en)\<lparr>en_phase := Ph_Complete\<rparr>)"


section \<open>Exit\<close>

text \<open>The answers of the clock and of maintenance while the engine seals its active segment.  A provisioning attempt
  that runs into the deadline counts as carried out, with its result dropped.\<close>

record seal_answers =
  sa_previous_enforced :: bool
  sa_expired_before_refill :: bool
  sa_refill_timed_out :: bool
  sa_expired_before_swap :: bool
  sa_expired_before_fold :: bool
  sa_seal_accepted :: bool

definition fold_on_shutdown ::
  "'w manifest_store \<Rightarrow> manifest \<Rightarrow> bool \<Rightarrow> writer pending_swap \<Rightarrow> segmented_writer \<Rightarrow> ('w, bool \<times> segmented_writer) state" where
  "fold_on_shutdown store access expired p w =
     (if expired then State_Monad.return (False, w)
      else case pending_fold_request w p of
        Inl _ \<Rightarrow> State_Monad.return (False, w)
      | Inr f \<Rightarrow> do {
          u \<leftarrow> fold_registered_pending store access f;
          State_Monad.return (case u of
            Inl _ \<Rightarrow> (False, w)
          | Inr update \<Rightarrow> (case confirm_fold p update w of (r, w') \<Rightarrow> (\<not> isl r, w')))
        })"

definition swap_on_shutdown ::
  "'w manifest_store \<Rightarrow> (bytes \<Rightarrow> string) \<Rightarrow> seal_answers \<Rightarrow> manifest \<Rightarrow> string \<Rightarrow> writer \<Rightarrow> engine \<Rightarrow> ('w, engine) state" where
  "swap_on_shutdown store sha ans access refill_id refill en =
     (case begin_swap sha (en_writer en) of
        (Inr (Some p), w) \<Rightarrow> do {
          (folded, w') \<leftarrow> fold_on_shutdown store access (sa_expired_before_fold ans) p (adopt_unregistered_spare refill_id refill w);
          let en1 = en\<lparr>en_writer := w', en_retired := en_retired en @ [wr_commits (sgw_writer (en_writer en))]\<rparr>;
          State_Monad.return (
            if \<not> folded then en1\<lparr>en_rotation := Rot_Draining p 0 None False\<rparr>
            else let en2 = en1\<lparr>en_catalog := sgw_sealed_segments w'\<rparr>
                 in case into_segment p of
                      None \<Rightarrow> en2
                    | Some seg \<Rightarrow> if sa_seal_accepted ans then emit (Out_Seal seg) en2 else en2)
        }
      | (_, w) \<Rightarrow> State_Monad.return (en\<lparr>en_writer := w\<rparr>))"

definition seal_active_on_shutdown ::
  "'w factories \<Rightarrow> 'w manifest_store \<Rightarrow> (bytes \<Rightarrow> string) \<Rightarrow> int list \<Rightarrow> seal_answers \<Rightarrow> engine \<Rightarrow> ('w, engine) state" where
  "seal_active_on_shutdown fac store sha gauge ans en =
     (if has_pending_fold (en_rotation en) \<or> en_rotation en = Rot_Sealing \<and> \<not> sa_previous_enforced ans
      then State_Monad.return en
      else let en1 = (if en_rotation en = Rot_Sealing then en\<lparr>en_rotation := Rot_Idle\<rparr> else en); w = en_writer en1
           in if \<not> shutdown_seal_ready w \<or> sa_expired_before_refill ans then State_Monad.return en1
              else case provision_parts_of w of
                Inl _ \<Rightarrow> State_Monad.return en1
              | Inr parts \<Rightarrow>
                  (case next_segment_id w of
                     (refill_id, w1) \<Rightarrow> do {
                       r \<leftarrow> provision_spare_with_replicas (fa_replicas fac (segment_object (pp_prefix parts) refill_id)) (pp_factories parts)
                         (pp_config parts) (pp_max_lag parts) gauge refill_id;
                       let en2 = en1\<lparr>en_writer := w1\<rparr>;
                       case r of
                         Inl _ \<Rightarrow> State_Monad.return en2
                       | Inr (i, refill) \<Rightarrow>
                           if sa_refill_timed_out ans \<or> sa_expired_before_swap ans then State_Monad.return en2
                           else swap_on_shutdown store sha ans (pp_manifest parts) i refill en2
                     }))"

fun appends_of :: "command list \<Rightarrow> admitted_append list" where
  "appends_of [] = []"
| "appends_of (Cmd_Append a # cs) = a # appends_of cs"
| "appends_of (Cmd_Shutdown _ # cs) = appends_of cs"

text \<open>What the engine still holds: in batches, in its queue and in the channel.\<close>

definition outstanding :: "engine \<Rightarrow> admitted_append list" where
  "outstanding en = concat (map cb_appends (es_completion_batches (en_state en)))
     @ appends_of (es_queue (en_state en)) @ appends_of (en_channel en)"

text \<open>Returning drops the engine's state and its end of the channel; every completion still held resolves as closed.\<close>

definition drop_engine :: "engine \<Rightarrow> engine" where
  "drop_engine en =
     with_state (\<lambda>s. s\<lparr>es_completion_batches := [], es_queue := []\<rparr>)
       ((fold drop_unresolved (outstanding en) en)\<lparr>en_channel := [], en_receiver_open := False, en_phase := Ph_Stopped\<rparr>)"

definition phase_exit ::
  "'w factories \<Rightarrow> 'w manifest_store \<Rightarrow> (bytes \<Rightarrow> string) \<Rightarrow> int list \<Rightarrow> seal_answers \<Rightarrow> engine \<Rightarrow> ('w, engine) state" where
  "phase_exit fac store sha gauge ans en = do {
     en1 \<leftarrow> (if es_shutdown_response (en_state en) \<and> es_seal_deadline (en_state en) \<noteq> None
       then seal_active_on_shutdown fac store sha gauge ans en else State_Monad.return en);
     let en2 = en1\<lparr>en_writer := sgw_shutdown_background_tasks (en_writer en1), en_rotation := rotation_shutdown (en_rotation en1)\<rparr>;
     State_Monad.return (drop_engine (if es_shutdown_response (en_state en2) then emit Out_Shutdown en2 else en2))
   }"

section \<open>Executions\<close>

text \<open>The phase the engine is in, run to its end.  The lanes that have ended and the answer of the request channel
  are arguments; waiting and leaving have events of their own.\<close>

definition run_phase ::
  "'w manifest_store \<Rightarrow> (nat \<Rightarrow> bytes \<Rightarrow> nat) \<Rightarrow> (bytes \<Rightarrow> string) \<Rightarrow> wal_engine_config \<Rightarrow> (nat \<Rightarrow> bool) \<Rightarrow> bool \<Rightarrow> engine
     \<Rightarrow> ('w, engine option) state" where
  "run_phase store crc_append sha cfg ended taken en =
     (case en_phase en of
        Ph_Complete \<Rightarrow> State_Monad.return (Some (phase_complete cfg en))
      | Ph_Recheck \<Rightarrow> do { en' \<leftarrow> phase_recheck store cfg en; State_Monad.return (Some en') }
      | Ph_Provision \<Rightarrow> State_Monad.return (Some (phase_provision taken en))
      | Ph_Swap \<Rightarrow> State_Monad.return (Some (phase_swap sha en))
      | Ph_Shutdown \<Rightarrow> State_Monad.return (Some (phase_shutdown en))
      | Ph_Dispatch \<Rightarrow> State_Monad.return (phase_dispatch crc_append cfg ended en)
      | _ \<Rightarrow> State_Monad.return None)"

text \<open>A lane reports to the tracker of its segment, or to the spare's.\<close>

definition on_writer :: "(writer \<Rightarrow> writer) \<Rightarrow> engine \<Rightarrow> engine" where
  "on_writer f en = en\<lparr>en_writer := (en_writer en)\<lparr>sgw_writer := f (sgw_writer (en_writer en))\<rparr>\<rparr>"

definition notify_segment :: "nat \<Rightarrow> lane_notice \<Rightarrow> engine \<Rightarrow> engine option" where
  "notify_segment g x en =
     (if g < length (en_retired en)
      then map_option (\<lambda>t. en\<lparr>en_retired := (en_retired en)[g := t]\<rparr>) (apply_notice x (en_retired en ! g))
      else map_option (\<lambda>wr. on_writer (\<lambda>_. wr) en) (on_commits (apply_notice x) (sgw_writer (en_writer en))))"

definition notify_spare :: "lane_notice \<Rightarrow> engine \<Rightarrow> engine option" where
  "notify_spare x en =
     (case sgw_spare (en_writer en) of
        None \<Rightarrow> None
      | Some s \<Rightarrow> map_option (\<lambda>wr. en\<lparr>en_writer := (en_writer en)\<lparr>sgw_spare := Some (s\<lparr>spr_writer := wr\<rparr>)\<rparr>\<rparr>)
          (on_commits (apply_notice x) (spr_writer s)))"

text \<open>What the caller, the lanes, the engine task and the tasks it waits for do.\<close>

datatype wal_event =
    Ev_Begin wal_seq_no bytes
  | Ev_Finish
  | Ev_Cancel
  | Ev_Shutdown nat
  | Ev_Drop_Handle
  | Ev_Notice nat lane_notice
  | Ev_Spare_Notice lane_notice
  | Ev_Release nat lane_charge
  | Ev_Run "nat \<Rightarrow> bool" bool
  | Ev_Wait nat wait_event
  | Ev_Exit "int list" seal_answers

text \<open>A run keeps the payloads that were admitted, in order.  \<open>None\<close> is an event that cannot happen.\<close>

type_synonym wal_run = "bytes list \<times> wal_handle \<times> engine"

definition wal_step ::
  "'w factories \<Rightarrow> 'w manifest_store \<Rightarrow> (nat \<Rightarrow> bytes \<Rightarrow> nat) \<Rightarrow> (bytes \<Rightarrow> string) \<Rightarrow> wal_engine_config \<Rightarrow> wal_run \<Rightarrow> wal_event
     \<Rightarrow> ('w, wal_run option) state" where
  "wal_step fac store crc_append sha cfg c ev =
     (case c of (subs, h, en) \<Rightarrow>
       (case ev of
          Ev_Begin seqno data \<Rightarrow> State_Monad.return (
            if en_sender_open en \<and> hd_waiting h = None then Some (subs, snd (begin_append seqno data h en), en) else None)
        | Ev_Finish \<Rightarrow> State_Monad.return (
            if en_sender_open en
            then map_option (\<lambda>(r, h', en'). (subs @ (if isl r then [] else [payload (wa_record (the (hd_waiting h)))]), h', en'))
              (finish_append h en)
            else None)
        | Ev_Cancel \<Rightarrow> State_Monad.return (Some (subs, h\<lparr>hd_waiting := None\<rparr>, en))
        | Ev_Shutdown now \<Rightarrow> State_Monad.return (
            if en_sender_open en \<and> hd_waiting h = None then Some (subs, h, send_shutdown now h en) else None)
        | Ev_Drop_Handle \<Rightarrow> State_Monad.return (Some (subs, h\<lparr>hd_waiting := None\<rparr>, en\<lparr>en_sender_open := False\<rparr>))
        | Ev_Notice g x \<Rightarrow> State_Monad.return (
            if en_phase en = Ph_Stopped then None else map_option (\<lambda>en'. (subs, h, en')) (notify_segment g x en))
        | Ev_Spare_Notice x \<Rightarrow> State_Monad.return (
            if en_phase en = Ph_Stopped then None else map_option (\<lambda>en'. (subs, h, en')) (notify_spare x en))
        | Ev_Release z charge \<Rightarrow> State_Monad.return (
            if en_phase en = Ph_Stopped then None else Some (subs, h, on_writer (release_lane z charge) en))
        | Ev_Run ended taken \<Rightarrow> do {
            r \<leftarrow> run_phase store crc_append sha cfg ended taken en;
            State_Monad.return (map_option (\<lambda>en'. (subs, h, en')) r)
          }
        | Ev_Wait now w \<Rightarrow> State_Monad.return (
            if en_phase en = Ph_Wait then map_option (\<lambda>en'. (subs, h, en')) (phase_wait cfg now w en) else None)
        | Ev_Exit gauge ans \<Rightarrow>
            if en_phase en = Ph_Exit then do {
              en' \<leftarrow> phase_exit fac store sha gauge ans en;
              State_Monad.return (Some (subs, h, en'))
            } else State_Monad.return None))"

fun run_wal ::
  "'w factories \<Rightarrow> 'w manifest_store \<Rightarrow> (nat \<Rightarrow> bytes \<Rightarrow> nat) \<Rightarrow> (bytes \<Rightarrow> string) \<Rightarrow> wal_engine_config \<Rightarrow> wal_run \<Rightarrow> wal_event list
     \<Rightarrow> ('w, wal_run option) state" where
  "run_wal fac store crc_append sha cfg c [] = State_Monad.return (Some c)"
| "run_wal fac store crc_append sha cfg c (ev # evs) = do {
     r \<leftarrow> wal_step fac store crc_append sha cfg c ev;
     case r of None \<Rightarrow> State_Monad.return None | Some c' \<Rightarrow> run_wal fac store crc_append sha cfg c' evs
   }"

end
