(* ===== verification/Engine_Log.thy ===== *)
theory Engine_Log
  imports Engine "HOL-Library.Multiset"
begin

text \<open>
  What the engine owes its callers.  The first part is a ledger: every admitted
  append is answered exactly once or still held, and the permits it took are
  counted.  The second part relates the answers to the log: an acknowledged
  append is committed, acknowledgments come in order, and an error that rules a
  commit out is given only for a record that never entered the log.
\<close>

section \<open>The ledger\<close>

definition seq_of :: "admitted_append \<Rightarrow> nat" where
  "seq_of a = get_seq (aa_seqno a)"

fun answer_of :: "engine_output \<Rightarrow> nat list" where
  "answer_of (Out_Result s _) = [get_seq s]"
| "answer_of _ = []"

definition answered :: "engine \<Rightarrow> nat list" where
  "answered en = concat (map answer_of (en_out en))"

definition slot_permits :: "admitted_append \<Rightarrow> nat" where
  "slot_permits a = (case aa_queue_slot a of None \<Rightarrow> 0 | Some (p, _) \<Rightarrow> p)"

definition slot_bytes :: "admitted_append \<Rightarrow> nat" where
  "slot_bytes a = (case aa_queue_slot a of None \<Rightarrow> 0 | Some (_, n) \<Rightarrow> n)"

text \<open>The engine holds the appends \<open>A\<close>: together with the answers they make up \<open>M\<close>, and with the free permits the budgets.\<close>

definition balance :: "nat multiset \<Rightarrow> nat \<Rightarrow> nat \<Rightarrow> admitted_append multiset \<Rightarrow> engine \<Rightarrow> bool" where
  "balance M I Q A en \<longleftrightarrow> mset (answered en) + image_mset seq_of A = M
     \<and> en_inflight en + sum_mset (image_mset aa_inflight A) = I
     \<and> en_queue_slots en + sum_mset (image_mset slot_permits A) = Q
     \<and> en_queued_bytes en = sum_mset (image_mset slot_bytes A)"

lemma balance_frame [simp]:
  "balance M I Q A (en\<lparr>en_writer := a1\<rparr>) = balance M I Q A en"
  "balance M I Q A (en\<lparr>en_state := a2\<rparr>) = balance M I Q A en"
  "balance M I Q A (en\<lparr>en_rotation := a3\<rparr>) = balance M I Q A en"
  "balance M I Q A (en\<lparr>en_retired := a4\<rparr>) = balance M I Q A en"
  "balance M I Q A (en\<lparr>en_spare_requested := a5\<rparr>) = balance M I Q A en"
  "balance M I Q A (en\<lparr>en_spare_attempts := a6\<rparr>) = balance M I Q A en"
  "balance M I Q A (en\<lparr>en_spare_retry := a7\<rparr>) = balance M I Q A en"
  "balance M I Q A (en\<lparr>en_recheck_due := a8\<rparr>) = balance M I Q A en"
  "balance M I Q A (en\<lparr>en_recheck_attempts := a9\<rparr>) = balance M I Q A en"
  "balance M I Q A (en\<lparr>en_recheck_retry := a10\<rparr>) = balance M I Q A en"
  "balance M I Q A (en\<lparr>en_rechecks_open := a11\<rparr>) = balance M I Q A en"
  "balance M I Q A (en\<lparr>en_capacity := a12\<rparr>) = balance M I Q A en"
  "balance M I Q A (en\<lparr>en_blocked := a13\<rparr>) = balance M I Q A en"
  "balance M I Q A (en\<lparr>en_catalog := a14\<rparr>) = balance M I Q A en"
  "balance M I Q A (en\<lparr>en_channel := a15\<rparr>) = balance M I Q A en"
  "balance M I Q A (en\<lparr>en_receiver_open := a16\<rparr>) = balance M I Q A en"
  "balance M I Q A (en\<lparr>en_sender_open := a17\<rparr>) = balance M I Q A en"
  "balance M I Q A (en\<lparr>en_phase := a18\<rparr>) = balance M I Q A en"
  "balance M I Q A (with_state f en) = balance M I Q A en"
  "answer_of out = [] \<Longrightarrow> balance M I Q A (emit out en) = balance M I Q A en"
  by (simp_all add: balance_def answered_def with_state_def emit_def)

lemma answered_emit [simp]: "answered (emit out en) = answered en @ answer_of out"
  by (simp add: answered_def emit_def)

lemma balance_drop:
  assumes "balance M I Q (add_mset a A) en"
  shows "balance M I Q A (drop_append a (emit (Out_Result (aa_seqno a) r) en))"
  using assms
  by (cases "aa_queue_slot a")
    (auto simp: balance_def drop_append_def drop_slot_def answered_def emit_def slot_permits_def slot_bytes_def seq_of_def)

lemma balance_fail: "balance M I Q (add_mset a A) en \<Longrightarrow> balance M I Q A (fail_append e a en)"
  unfolding fail_append_def by (rule balance_drop)

lemma balance_complete: "balance M I Q (add_mset a A) en \<Longrightarrow> balance M I Q A (complete_append a en)"
  unfolding complete_append_def by (rule balance_drop)

lemma balance_fails: "balance M I Q (mset as + A) en \<Longrightarrow> balance M I Q A (fold (fail_append e) as en)"
  by (induction as arbitrary: en) (auto intro: balance_fail)

lemma balance_commands: "balance M I Q (mset (appends_of cs) + A) en \<Longrightarrow> balance M I Q A (fold (fail_command e) cs en)"
  by (induction cs arbitrary: en rule: appends_of.induct) (auto simp: fail_command_def intro: balance_fail)

text \<open>Answering touches neither the engine's state nor the channel.\<close>

lemma answer_frame [simp]:
  "en_state (emit out en) = en_state en" "en_channel (emit out en) = en_channel en"
  "en_state (drop_append a en) = en_state en" "en_channel (drop_append a en) = en_channel en"
  "en_state (fail_append e a en) = en_state en" "en_channel (fail_append e a en) = en_channel en"
  "en_state (complete_append a en) = en_state en" "en_channel (complete_append a en) = en_channel en"
  "en_state (fail_command e c en) = en_state en" "en_channel (fail_command e c en) = en_channel en"
  by (simp_all add: emit_def drop_append_def drop_slot_def fail_append_def complete_append_def fail_command_def
      split: option.split command.split prod.split)

lemma fold_append_frame [simp]:
  "en_state (fold (fail_append e) as en) = en_state en" "en_channel (fold (fail_append e) as en) = en_channel en"
  by (induction as arbitrary: en) simp_all

lemma fold_command_frame [simp]:
  "en_state (fold (fail_command e) cs en) = en_state en" "en_channel (fold (fail_command e) cs en) = en_channel en"
  by (induction cs arbitrary: en) simp_all

lemma appends_of_append [simp]: "appends_of (xs @ ys) = appends_of xs @ appends_of ys"
  by (induction xs rule: appends_of.induct) auto

definition in_balance :: "nat multiset \<Rightarrow> nat \<Rightarrow> nat \<Rightarrow> engine \<Rightarrow> bool" where
  "in_balance M I Q en \<longleftrightarrow> balance M I Q (mset (outstanding en)) en"

lemma fail_all_balance: "balance M I Q (mset (appends_of (es_queue (en_state en))) + A) en \<Longrightarrow> balance M I Q A (fail_all e en)"
  by (simp add: fail_all_def balance_commands)

lemma fail_completion_batches_balance:
  "balance M I Q (mset (concat (map cb_appends (es_completion_batches (en_state en)))) + A) en \<Longrightarrow>
     balance M I Q A (fail_completion_batches e en)"
  by (simp add: fail_completion_batches_def balance_fails)

lemma fail_all_outstanding:
  "outstanding (fail_all e en) = concat (map cb_appends (es_completion_batches (en_state en))) @ appends_of (en_channel en)"
  "en_channel (fail_all e en) = en_channel en"
  by (simp_all add: outstanding_def fail_all_def with_state_def)

lemma stop_admission_outstanding [simp]: "outstanding (stop_admission en) = outstanding en"
  by (simp add: outstanding_def stop_admission_def with_state_def)

lemma stop_admission_frame [simp]:
  "balance M I Q A (stop_admission en) = balance M I Q A en" "en_channel (stop_admission en) = []"
  "es_completion_batches (en_state (stop_admission en)) = es_completion_batches (en_state en)"
  "es_queue (en_state (stop_admission en)) = es_queue (en_state en) @ en_channel en"
  by (simp_all add: stop_admission_def with_state_def)

lemma fail_queued_in_balance: "in_balance M I Q en \<Longrightarrow> in_balance M I Q (fail_queued e en)"
  unfolding in_balance_def fail_queued_def fail_all_outstanding
  by (rule fail_all_balance) (simp add: outstanding_def ac_simps)

lemma poison_engine_in_balance: "in_balance M I Q en \<Longrightarrow> in_balance M I Q (poison_engine en)"
  unfolding in_balance_def poison_engine_def fail_all_outstanding
  by (rule fail_all_balance, simp add: fail_completion_batches_def with_state_def, rule balance_fails)
    (simp add: outstanding_def ac_simps)

lemma with_state_simps [simp]:
  "en_state (with_state f en) = f (en_state en)" "en_channel (with_state f en) = en_channel en"
  by (simp_all add: with_state_def)

lemma in_balance_frame:
  assumes "in_balance M I Q en" "\<And>A. balance M I Q A en' = balance M I Q A en" "outstanding en' = outstanding en"
  shows "in_balance M I Q en'"
  using assms by (simp add: in_balance_def)

lemma pop_committed_balance:
  "pop_committed m ce as en = (f, rest, en') \<Longrightarrow> balance M I Q (mset as + A) en \<Longrightarrow>
     balance M I Q (mset rest + A) en' \<and> es_queue (en_state en') = es_queue (en_state en) \<and> en_channel en' = en_channel en
   \<and> (\<forall>a e. f \<noteq> Some (Failed_Append a e))"
proof (induction as arbitrary: en)
  case (Cons a as)
  consider "\<not> seq_of a < ce" | "seq_of a < ce" "es_pending_records (en_state en) = 0" | "seq_of a < ce" "es_pending_records (en_state en) \<noteq> 0" by blast
  then show ?case
  proof cases
    case 2
    then show ?thesis using Cons.prems by (auto simp: seq_of_def drop_unresolved_def intro: balance_fail)
  next
    case 3
    let ?en1 = "with_state (\<lambda>s. s\<lparr>es_next_completion := es_next_completion s + 1\<rparr>) (complete_append a (with_state (settle_one a) en))"
    have "balance M I Q (mset as + A) ?en1" using Cons.prems(2) by (simp add: balance_complete)
    then show ?thesis using 3 Cons.prems(1) Cons.IH [of "?en1\<lparr>en_rotation := mark_due (rotation_due m (en_writer ?en1)) (en_rotation ?en1)\<rparr>"]
      by (simp add: seq_of_def Let_def settle_one_def)
  qed (use Cons.prems in \<open>auto simp: seq_of_def\<close>)
qed simp

fun popped :: "completion_failure option \<Rightarrow> admitted_append multiset" where
  "popped (Some (Failed_Append a e)) = {#a#}"
| "popped _ = {#}"

lemma completion_loop_balance:
  "completion_loop m bs en = (f, bs', en') \<Longrightarrow> balance M I Q (mset (concat (map cb_appends bs)) + A) en \<Longrightarrow>
     balance M I Q (mset (concat (map cb_appends bs')) + popped f + A) en' \<and> es_queue (en_state en') = es_queue (en_state en)
   \<and> en_channel en' = en_channel en"
proof (induction bs arbitrary: en)
  case (Cons b bs)
  obtain ce failed where pr: "batch_progress en b = (ce, failed)" by (rule prod.exhaust)
  obtain g rest en1 where pop: "pop_committed m ce (cb_appends b) en = (g, rest, en1)" by (rule prod_cases3)
  have "balance M I Q (mset (cb_appends b) + (mset (concat (map cb_appends bs)) + A)) en" using Cons.prems(2) by (simp add: ac_simps)
  note step = pop_committed_balance [OF pop this]
  show ?case
  proof (cases g)
    case (Some x)
    then show ?thesis using Cons.prems(1) pr pop step by (cases x) (auto simp: ac_simps)
  next
    case None
    show ?thesis
    proof (cases rest)
      case Nil
      then show ?thesis using None Cons.prems(1) Cons.IH [of en1] pr pop step by simp
    next
      case (Cons a rest')
      show ?thesis
        using None Cons Cons.prems(1) pr pop step
        by (auto simp: ac_simps settle_one_def drop_unresolved_def split: option.splits if_splits intro: balance_fail)
    qed
  qed
qed simp

lemma drain_available_outstanding:
  "outstanding (drain_available en) = outstanding en" "balance M I Q A (drain_available en) = balance M I Q A en"
proof -
  have "appends_of (es_queue (fold admit_command cs s)) = appends_of (es_queue s) @ appends_of cs
      \<and> es_completion_batches (fold admit_command cs s) = es_completion_batches s" for cs s
    by (induction cs arbitrary: s rule: appends_of.induct) (simp_all add: admit_command_def)
  then show "outstanding (drain_available en) = outstanding en" by (simp add: outstanding_def drain_available_def)
qed (simp add: drain_available_def)

lemma phase_complete_in_balance:
  assumes "in_balance M I Q en" shows "in_balance M I Q (phase_complete cfg en)"
proof -
  let ?en0 = "drain_available en" and ?q = "mset (appends_of (es_queue (en_state (drain_available en))) @ appends_of (en_channel (drain_available en)))"
  obtain f bs en1 where loop: "completion_loop (wc_max_segment_bytes cfg) (es_completion_batches (en_state ?en0)) ?en0 = (f, bs, en1)"
    by (rule prod_cases3)
  have "balance M I Q (mset (concat (map cb_appends (es_completion_batches (en_state ?en0)))) + ?q) ?en0"
    using in_balance_frame [OF assms drain_available_outstanding(2,1)] by (simp add: in_balance_def outstanding_def)
  note step = completion_loop_balance [OF loop this]
  let ?en2 = "with_state (\<lambda>s. s\<lparr>es_completion_batches := bs\<rparr>) en1"
  have bal: "balance M I Q (popped f + mset (outstanding ?en2)) ?en2" using step by (simp add: outstanding_def ac_simps)
  show ?thesis
  proof (cases "\<exists>a e. f = Some (Failed_Append a e)")
    case True
    then obtain a e where f: "f = Some (Failed_Append a e)" by blast
    have "in_balance M I Q (fail_append e a ?en2)"
      using balance_fail [of M I Q a "mset (outstanding ?en2)" ?en2 e] bal f by (simp add: in_balance_def outstanding_def)
    from poison_engine_in_balance [OF this] show ?thesis
      using loop f by (simp add: phase_complete_def Let_def in_balance_def outstanding_def)
  next
    case False
    then have "popped f = {#}" by (cases f rule: popped.cases) auto
    then have "in_balance M I Q ?en2" using bal by (simp add: in_balance_def)
    then show ?thesis using loop False poison_engine_in_balance [of M I Q ?en2]
      by (auto simp: phase_complete_def Let_def in_balance_def outstanding_def split: option.split completion_failure.split)
  qed
qed

lemma outstanding_frame [simp]:
  "outstanding (en\<lparr>en_writer := a1\<rparr>) = outstanding en" "outstanding (en\<lparr>en_rotation := a3\<rparr>) = outstanding en"
  "outstanding (en\<lparr>en_retired := a4\<rparr>) = outstanding en" "outstanding (en\<lparr>en_spare_requested := a5\<rparr>) = outstanding en"
  "outstanding (en\<lparr>en_spare_attempts := a6\<rparr>) = outstanding en" "outstanding (en\<lparr>en_spare_retry := a7\<rparr>) = outstanding en"
  "outstanding (en\<lparr>en_recheck_due := a8\<rparr>) = outstanding en" "outstanding (en\<lparr>en_recheck_attempts := a9\<rparr>) = outstanding en"
  "outstanding (en\<lparr>en_recheck_retry := a10\<rparr>) = outstanding en" "outstanding (en\<lparr>en_rechecks_open := a11\<rparr>) = outstanding en"
  "outstanding (en\<lparr>en_capacity := a12\<rparr>) = outstanding en" "outstanding (en\<lparr>en_blocked := a13\<rparr>) = outstanding en"
  "outstanding (en\<lparr>en_catalog := a14\<rparr>) = outstanding en" "outstanding (en\<lparr>en_receiver_open := a16\<rparr>) = outstanding en"
  "outstanding (en\<lparr>en_sender_open := a17\<rparr>) = outstanding en" "outstanding (en\<lparr>en_phase := a18\<rparr>) = outstanding en"
  "outstanding (emit out en) = outstanding en"
  by (simp_all add: outstanding_def)

lemma in_balance_simps [simp]:
  "in_balance M I Q (en\<lparr>en_writer := a1\<rparr>) = in_balance M I Q en" "in_balance M I Q (en\<lparr>en_rotation := a3\<rparr>) = in_balance M I Q en"
  "in_balance M I Q (en\<lparr>en_retired := a4\<rparr>) = in_balance M I Q en" "in_balance M I Q (en\<lparr>en_spare_requested := a5\<rparr>) = in_balance M I Q en"
  "in_balance M I Q (en\<lparr>en_spare_attempts := a6\<rparr>) = in_balance M I Q en" "in_balance M I Q (en\<lparr>en_spare_retry := a7\<rparr>) = in_balance M I Q en"
  "in_balance M I Q (en\<lparr>en_recheck_due := a8\<rparr>) = in_balance M I Q en" "in_balance M I Q (en\<lparr>en_recheck_attempts := a9\<rparr>) = in_balance M I Q en"
  "in_balance M I Q (en\<lparr>en_recheck_retry := a10\<rparr>) = in_balance M I Q en" "in_balance M I Q (en\<lparr>en_rechecks_open := a11\<rparr>) = in_balance M I Q en"
  "in_balance M I Q (en\<lparr>en_capacity := a12\<rparr>) = in_balance M I Q en" "in_balance M I Q (en\<lparr>en_blocked := a13\<rparr>) = in_balance M I Q en"
  "in_balance M I Q (en\<lparr>en_catalog := a14\<rparr>) = in_balance M I Q en" "in_balance M I Q (en\<lparr>en_receiver_open := a16\<rparr>) = in_balance M I Q en"
  "in_balance M I Q (en\<lparr>en_sender_open := a17\<rparr>) = in_balance M I Q en" "in_balance M I Q (en\<lparr>en_phase := a18\<rparr>) = in_balance M I Q en"
  "answer_of out = [] \<Longrightarrow> in_balance M I Q (emit out en) = in_balance M I Q en"
  by (simp_all add: in_balance_def)

lemma phase_recheck_in_balance:
  "run_state (phase_recheck store cfg en) s = (en', s') \<Longrightarrow> in_balance M I Q en \<Longrightarrow> in_balance M I Q en'"
  by (auto simp: phase_recheck_def publish_seal_room_def Let_def split: if_splits prod.splits sum.splits)

lemma next_attempt_in_balance: "next_attempt en = (r, en') \<Longrightarrow> in_balance M I Q en' = in_balance M I Q en"
  by (auto simp: next_attempt_def Let_def split: if_splits sum.splits prod.splits)

lemma phase_provision_in_balance: "in_balance M I Q en \<Longrightarrow> in_balance M I Q (phase_provision taken en)"
  by (auto simp: phase_provision_def fail_queued_in_balance dest: next_attempt_in_balance [of en _ _ M I Q]
      split: prod.split sum.split option.split)

lemma phase_swap_in_balance: "in_balance M I Q en \<Longrightarrow> in_balance M I Q (phase_swap sha en)"
  by (auto simp: phase_swap_def fail_queued_in_balance split: prod.split sum.split option.split)

lemma phase_shutdown_in_balance:
  assumes "in_balance M I Q en" shows "in_balance M I Q (phase_shutdown en)"
proof (cases "\<exists>d rest. es_queue (en_state en) = Cmd_Shutdown d # rest \<and> es_pending_records (en_state en) = 0")
  case True
  then obtain d rest where q: "es_queue (en_state en) = Cmd_Shutdown d # rest" "es_pending_records (en_state en) = 0" by blast
  let ?en = "with_state (\<lambda>s. s\<lparr>es_queue := rest\<rparr>) en"
  have "in_balance M I Q (fail_all Err_Closed ?en)"
    unfolding in_balance_def fail_all_outstanding
    by (rule fail_all_balance) (use assms q in \<open>simp add: in_balance_def outstanding_def ac_simps\<close>)
  then show ?thesis using q by (simp add: phase_shutdown_def front_append_def in_balance_def outstanding_def)
next
  case False
  then show ?thesis using assms by (auto simp: phase_shutdown_def split: list.split command.split)
qed

lemma take_window_split: "take_window room alone q = (as, q') \<Longrightarrow> appends_of q = as @ appends_of q'"
  by (induction room alone q arbitrary: as q' rule: take_window.induct) (auto split: if_splits prod.splits)

lemma drop_slot_frame [simp]: "en_state (drop_slot a en) = en_state en" "en_channel (drop_slot a en) = en_channel en"
  by (simp_all add: drop_slot_def split: option.split prod.split)

lemma fold_drop_slot_frame [simp]: "en_state (fold drop_slot as en) = en_state en" "en_channel (fold drop_slot as en) = en_channel en"
  by (induction as arbitrary: en) simp_all

lemma balance_release:
  "balance M I Q (mset as + A) en \<Longrightarrow> balance M I Q (mset (map release_slot as) + A) (fold drop_slot as en)"
proof (induction as arbitrary: A en)
  case (Cons a as)
  have "balance M I Q (add_mset (release_slot a) (mset as + A)) (drop_slot a en)"
    using Cons.prems
    by (cases "aa_queue_slot a")
      (auto simp: balance_def drop_slot_def answered_def slot_permits_def slot_bytes_def seq_of_def release_slot_def)
  then have "balance M I Q (mset as + add_mset (release_slot a) A) (drop_slot a en)" by simp
  from Cons.IH [OF this] show ?case by simp
qed simp

lemma fail_dispatch_in_balance:
  assumes "balance M I Q (mset as + mset (outstanding en)) en"
  shows "in_balance M I Q (fail_dispatch e as en)"
proof -
  have "balance M I Q (mset as + mset (outstanding en)) (stop_admission en)" using assms by simp
  from balance_fails [OF this, of e] have "in_balance M I Q (fail_all e (fold (fail_append e) as (stop_admission en)))"
    unfolding in_balance_def fail_all_outstanding
    by (intro fail_all_balance) (simp add: outstanding_def ac_simps)
  then show ?thesis by (simp add: fail_dispatch_def)
qed

lemma dispatched_in_balance:
  assumes "balance M I Q (mset as + mset (outstanding en)) en"
  shows "in_balance M I Q (dispatched cfg as cr en)"
proof -
  let ?en1 = "with_state (\<lambda>s. s\<lparr>es_last_dispatched_admission_bytes := aa_admission_end_bytes (last as)\<rparr>) (fold drop_slot as en)"
  have "balance M I Q (mset (map release_slot as) + mset (outstanding ?en1)) ?en1"
    using balance_release [OF assms] by (simp add: outstanding_def)
  then show ?thesis
    using fail_dispatch_in_balance [of M I Q "map release_slot as" ?en1]
    by (auto simp: dispatched_def Let_def in_balance_def outstanding_def ac_simps)
qed

text \<open>The three outcomes of a turn of the dispatch loop.\<close>

lemma phase_dispatch_cases:
  assumes "phase_dispatch crc_append cfg ended en = Some en'"
  obtains (idle) ph where "en' = en\<lparr>en_phase := ph\<rparr>" "ph = Ph_Exit \<or> ph = Ph_Wait"
  | (failed) as q w e where "appends_of (es_queue (en_state en)) = as @ appends_of q" "as \<noteq> []"
      "enqueue_records_for_engine crc_append ended (map aa_record as) (en_writer en) = Some (Inl e, w)"
      "en' = fail_dispatch e as (with_state (\<lambda>s. s\<lparr>es_queue := q\<rparr>) (en\<lparr>en_writer := w\<rparr>))"
  | (sent) as q w cr where "appends_of (es_queue (en_state en)) = as @ appends_of q" "as \<noteq> []"
      "enqueue_records_for_engine crc_append ended (map aa_record as) (en_writer en) = Some (Inr cr, w)"
      "en' = dispatched cfg as cr (with_state (\<lambda>s. s\<lparr>es_queue := q\<rparr>) (en\<lparr>en_writer := w\<rparr>))"
proof -
  obtain as q where tw: "take_window (wc_pipeline_window_bytes cfg - es_pending_bytes (en_state en))
      (es_pending_records (en_state en) = 0) (es_queue (en_state en)) = (as, q)" by (rule prod.exhaust)
  show thesis
  proof (cases "dispatch_paused (spare_ready (en_writer en)) (en_rotation en) \<or> \<not> front_append en
      \<or> wc_pipeline_window_bytes cfg \<le> es_pending_bytes (en_state en) \<or> as = []")
    case True
    let ?ph = "if es_input_closed (en_state en) \<and> es_queue (en_state en) = [] \<and> es_pending_records (en_state en) = 0
      then Ph_Exit else Ph_Wait"
    have "en' = en\<lparr>en_phase := ?ph\<rparr>" using assms True unfolding phase_dispatch_def Let_def tw by (simp split: if_splits)
    then show thesis by (rule idle) simp
  next
    case False
    then obtain r w where r: "enqueue_records_for_engine crc_append ended (map aa_record as) (en_writer en) = Some (r, w)"
      using assms tw by (auto simp: phase_dispatch_def Let_def)
    show thesis
    proof (cases r)
      case (Inl e)
      then show thesis using False assms tw r take_window_split [OF tw]
        by (intro failed [of as q e w]) (simp_all add: phase_dispatch_def Let_def)
    next
      case (Inr cr)
      then show thesis using False assms tw r take_window_split [OF tw]
        by (intro sent [of as q cr w]) (simp_all add: phase_dispatch_def Let_def)
    qed
  qed
qed

lemma phase_dispatch_in_balance:
  assumes "in_balance M I Q en" "phase_dispatch crc_append cfg ended en = Some en'"
  shows "in_balance M I Q en'"
proof -
  have taken: "balance M I Q (mset as + mset (outstanding (with_state (\<lambda>s. s\<lparr>es_queue := q\<rparr>) (en\<lparr>en_writer := w\<rparr>))))
      (with_state (\<lambda>s. s\<lparr>es_queue := q\<rparr>) (en\<lparr>en_writer := w\<rparr>))"
    if "appends_of (es_queue (en_state en)) = as @ appends_of q" for as q w
    using assms(1) that by (simp add: in_balance_def outstanding_def ac_simps)
  from assms(2) show ?thesis
  proof (cases rule: phase_dispatch_cases)
    case (failed as q w e)
    then show ?thesis using fail_dispatch_in_balance [OF taken] by simp
  next
    case (sent as q w cr)
    then show ?thesis using dispatched_in_balance [OF taken] by simp
  qed (use assms(1) in simp)
qed

lemma fail_rest_in_balance:
  assumes "in_balance M I Q en" "en_channel en = []"
  shows "in_balance M I Q (fail_all e (fail_completion_batches e' en))"
  unfolding in_balance_def fail_all_outstanding
  by (rule fail_all_balance, simp add: fail_completion_batches_def, rule balance_fails)
    (use assms in \<open>simp add: in_balance_def outstanding_def fail_completion_batches_def ac_simps\<close>)

lemma on_commit_error_in_balance:
  assumes "in_balance M I Q en" shows "in_balance M I Q (on_commit_error en)"
proof -
  let ?en1 = "stop_admission en" and ?e = "commit_update_error en"
  have en1: "in_balance M I Q ?en1" using assms by (simp add: in_balance_def)
  have pop: "in_balance M I Q (fail_append ?e a (with_state (\<lambda>s. s\<lparr>es_completion_batches := b\<lparr>cb_appends := as\<rparr> # bs\<rparr>) ?en1))"
    if "es_completion_batches (en_state ?en1) = b # bs" "cb_appends b = a # as" for a as b bs
    using en1 that balance_fail [of M I Q a _ "with_state (\<lambda>s. s\<lparr>es_completion_batches := b\<lparr>cb_appends := as\<rparr> # bs\<rparr>) ?en1" ?e]
    by (simp add: in_balance_def outstanding_def add.assoc)
  show ?thesis
    using en1 pop fail_rest_in_balance
    by (auto simp: on_commit_error_def leave_loop_def Let_def split: list.split)
qed

lemma on_folded_in_balance:
  assumes "in_balance M I Q en" shows "in_balance M I Q (on_folded cfg u taken en)"
proof (cases "rotation_swap (en_rotation en)")
  case None
  then show ?thesis using assms by (simp add: on_folded_def leave_loop_def fail_queued_in_balance)
next
  case (Some p)
  obtain r w where cf: "confirm_fold p u (en_writer en) = (r, w)" by (rule prod.exhaust)
  show ?thesis
    using assms Some cf
    by (cases r; cases "into_segment p")
      (simp_all add: on_folded_def leave_loop_def publish_seal_room_def mark_rotation_def Let_def fail_queued_in_balance)
qed

lemma on_provision_in_balance:
  assumes "in_balance M I Q en" shows "in_balance M I Q (on_provision cfg result taken en)"
proof -
  have err: "in_balance M I Q (on_provision_error e en)" if "in_balance M I Q en" for e en
    using that by (simp add: on_provision_error_def leave_loop_def Let_def fail_queued_in_balance)
  consider "result = None" | e where "result = Some (Inl e)" | s where "result = Some (Inr (Outcome_Registered s))"
    | i wr where "result = Some (Inr (Outcome_Unregistered i wr))" | u where "result = Some (Inr (Outcome_Folded u))"
    by (metis not_Some_eq provision_outcome.exhaust sum.exhaust)
  then show ?thesis
    by cases (use assms in \<open>simp_all add: on_provision_def Let_def err on_folded_in_balance leave_loop_def fail_queued_in_balance\<close>)
qed

lemma wait_arm_in_balance:
  assumes "in_balance M I Q en" "wait_arm cfg ev en = Some en'"
  shows "in_balance M I Q en'"
proof (cases ev)
  case (Wt_Commit x)
  then show ?thesis using assms on_commit_error_in_balance by (auto simp: wait_arm_def split: if_splits)
next
  case (Wt_Provision result taken)
  then show ?thesis using assms on_provision_in_balance by (auto simp: wait_arm_def)
next
  case Wt_Command
  show ?thesis
  proof (cases "en_channel en")
    case Nil
    then show ?thesis using assms Wt_Command by (auto simp: wait_arm_def in_balance_def outstanding_def split: if_splits)
  next
    case (Cons c cs)
    then show ?thesis using assms Wt_Command
      by (cases c) (auto simp: wait_arm_def in_balance_def outstanding_def admit_command_def split: if_splits)
  qed
qed (use assms in \<open>auto simp: wait_arm_def leave_loop_def mark_rotation_def fail_queued_in_balance
      split: if_splits rotation.splits option.splits\<close>)

lemma swap_on_shutdown_in_balance:
  "run_state (swap_on_shutdown store sha ans access i refill en) s = (en', s') \<Longrightarrow> in_balance M I Q en \<Longrightarrow> in_balance M I Q en'"
  by (auto simp: swap_on_shutdown_def Let_def split: prod.splits sum.splits option.splits if_splits)

lemma seal_active_in_balance:
  assumes "run_state (seal_active_on_shutdown fac store sha gauge ans en) s = (en', s')" "in_balance M I Q en"
  shows "in_balance M I Q en'"
  using assms
  by (auto simp: seal_active_on_shutdown_def Let_def split: prod.splits sum.splits if_splits
      dest!: swap_on_shutdown_in_balance [of _ _ _ _ _ _ _ _ _ _ M I Q])

lemma drop_engine_in_balance: "in_balance M I Q en \<Longrightarrow> in_balance M I Q (drop_engine en) \<and> outstanding (drop_engine en) = []"
  using balance_fails [of M I Q "outstanding en" "{#}" en Err_Closed]
  by (simp add: drop_engine_def in_balance_def outstanding_def drop_unresolved_def [abs_def])

lemma phase_exit_in_balance:
  assumes "run_state (phase_exit fac store sha gauge ans en) s = (en', s')" "in_balance M I Q en"
  shows "in_balance M I Q en' \<and> outstanding en' = [] \<and> en_phase en' = Ph_Stopped"
proof -
  obtain en1 s1 where en1: "run_state (if es_shutdown_response (en_state en) \<and> es_seal_deadline (en_state en) \<noteq> None
      then seal_active_on_shutdown fac store sha gauge ans en else State_Monad.return en) s = (en1, s1)" by (rule prod.exhaust)
  have "in_balance M I Q en1" using en1 assms(2) seal_active_in_balance by (auto split: if_splits)
  moreover obtain en2 where "en' = drop_engine en2" "en2 = en1\<lparr>en_writer := sgw_shutdown_background_tasks (en_writer en1),
      en_rotation := rotation_shutdown (en_rotation en1)\<rparr> \<or> en2 = emit Out_Shutdown (en1\<lparr>en_writer := sgw_shutdown_background_tasks (en_writer en1),
      en_rotation := rotation_shutdown (en_rotation en1)\<rparr>)"
    using assms(1) en1 by (auto simp: phase_exit_def Let_def split: if_splits)
  ultimately show ?thesis using drop_engine_in_balance [of M I Q en2] by (auto simp: drop_engine_def with_state_def)
qed

lemma run_phase_in_balance:
  assumes "run_state (run_phase store crc_append sha cfg ended taken en) s = (Some en', s')" "in_balance M I Q en"
  shows "in_balance M I Q en'"
proof (cases "en_phase en")
  case Ph_Recheck
  then show ?thesis using assms phase_recheck_in_balance by (auto simp: run_phase_def split: prod.splits)
qed (use assms phase_dispatch_in_balance in \<open>auto simp: run_phase_def phase_complete_in_balance phase_provision_in_balance
  phase_swap_in_balance phase_shutdown_in_balance\<close>)

lemma notify_in_balance:
  "notify_segment g x en = Some en' \<Longrightarrow> in_balance M I Q en' = in_balance M I Q en \<and> en_phase en' = en_phase en"
  "notify_spare x en = Some en' \<Longrightarrow> in_balance M I Q en' = in_balance M I Q en \<and> en_phase en' = en_phase en"
  by (auto simp: notify_segment_def notify_spare_def on_writer_def split: if_splits option.splits)

lemma finish_append_in_balance:
  assumes "finish_append h en = Some (r, h', en')" "in_balance M I Q en"
  shows "if isl r then en' = en \<and> hd_next_seqno h' = hd_next_seqno h
    else in_balance (add_mset (get_seq (wa_seqno (the (hd_waiting h)))) M) I Q en' \<and> hd_next_seqno h' = hd_next_seqno h + 1
      \<and> en_receiver_open en"
  using assms
  by (auto simp: finish_append_def bind_eq_Some_conv Let_def in_balance_def balance_def outstanding_def answered_def seq_of_def
      slot_permits_def slot_bytes_def split: if_splits)

text \<open>No phase of the loop stops the engine; leaving it does, and closes its end of the channel.\<close>

lemma fold_phase [simp]:
  "en_phase (fold (fail_append e) as en) = en_phase en" "en_phase (fold (fail_command e) cs en) = en_phase en"
  "en_phase (fold drop_slot as en) = en_phase en"
proof -
  have one: "en_phase (fail_append e a en) = en_phase en" "en_phase (drop_slot a en) = en_phase en"
    "en_phase (fail_command e c en) = en_phase en" for a c en
    by (simp_all add: fail_append_def drop_append_def drop_slot_def emit_def fail_command_def split: option.split prod.split command.split)
  show "en_phase (fold (fail_append e) as en) = en_phase en" by (induction as arbitrary: en) (simp_all add: one)
  show "en_phase (fold (fail_command e) cs en) = en_phase en" by (induction cs arbitrary: en) (simp_all add: one)
  show "en_phase (fold drop_slot as en) = en_phase en" by (induction as arbitrary: en) (simp_all add: one)
qed

lemma next_attempt_phase: "next_attempt en = (r, en') \<Longrightarrow> en_phase en' = en_phase en"
  by (auto simp: next_attempt_def Let_def split: if_splits sum.splits prod.splits)

lemma run_phase_running:
  assumes "run_state (run_phase store crc_append sha cfg ended taken en) s = (Some en', s')"
  shows "en_phase en' \<noteq> Ph_Stopped"
proof (cases "en_phase en")
  case Ph_Complete
  then show ?thesis using assms
    by (auto simp: run_phase_def phase_complete_def Let_def split: prod.splits option.splits completion_failure.splits)
next
  case Ph_Recheck
  then show ?thesis using assms
    by (auto simp: run_phase_def phase_recheck_def publish_seal_room_def Let_def split: prod.splits if_splits sum.splits)
next
  case Ph_Provision
  then show ?thesis using assms
    by (auto simp: run_phase_def phase_provision_def emit_def split: prod.splits if_splits sum.splits option.splits)
next
  case Ph_Swap
  then show ?thesis using assms
    by (auto simp: run_phase_def phase_swap_def split: prod.splits if_splits sum.splits option.splits)
next
  case Ph_Shutdown
  then show ?thesis using assms
    by (auto simp: run_phase_def phase_shutdown_def split: if_splits list.splits command.splits)
next
  case Ph_Dispatch
  then have "phase_dispatch crc_append cfg ended en = Some en'" using assms by (simp add: run_phase_def)
  then show ?thesis using Ph_Dispatch
    by (cases rule: phase_dispatch_cases) (auto simp: fail_dispatch_def dispatched_def Let_def with_state_def)
qed (use assms in \<open>simp_all add: run_phase_def\<close>)

lemma phase_wait_running:
  assumes "phase_wait cfg now ev en = Some en'" shows "en_phase en' \<noteq> Ph_Stopped"
proof -
  have queued: "en_phase (fail_queued e en) = en_phase en" for e en
    by (simp add: fail_queued_def fail_all_def stop_admission_def with_state_def)
  have prov: "en_phase (on_provision cfg r taken en) \<noteq> Ph_Stopped" if "en_phase en = Ph_Complete" for r taken en
    using that
    by (simp add: on_provision_def on_provision_error_def on_folded_def leave_loop_def publish_seal_room_def mark_rotation_def emit_def
        Let_def queued split: option.split sum.split provision_outcome.split prod.split)
  let ?en = "(publish_status cfg now en)\<lparr>en_phase := Ph_Complete\<rparr>"
  have arm: "wait_arm cfg ev ?en = Some en'" and start: "en_phase ?en = Ph_Complete" using assms by (simp_all add: phase_wait_def)
  show ?thesis
  proof (cases ev)
    case (Wt_Provision r taken)
    then show ?thesis using arm prov [OF start] by (auto simp: wait_arm_def)
  qed (use arm start in \<open>auto simp: wait_arm_def on_commit_error_def leave_loop_def mark_rotation_def
    with_state_def Let_def queued split: if_splits rotation.splits option.splits list.splits\<close>)
qed

lemma phase_exit_closed:
  "run_state (phase_exit fac store sha gauge ans en) s = (en', s') \<Longrightarrow> \<not> en_receiver_open en'"
  by (auto simp: phase_exit_def drop_engine_def with_state_def Let_def split: prod.splits)

text \<open>The invariant of a run; a stopped engine holds nothing and takes nothing.\<close>

definition accounted :: "nat \<Rightarrow> nat \<Rightarrow> nat \<Rightarrow> wal_run \<Rightarrow> bool" where
  "accounted b I Q c \<longleftrightarrow>
     (case c of (subs, h, en) \<Rightarrow>
        in_balance (mset [b..<b + length subs]) I Q en \<and> hd_next_seqno h = b + length subs
      \<and> (\<forall>wa. hd_waiting h = Some wa \<longrightarrow> get_seq (wa_seqno wa) = hd_next_seqno h)
      \<and> (en_phase en = Ph_Stopped \<longrightarrow> outstanding en = [] \<and> \<not> en_receiver_open en))"

lemma check_append_seqno: "check_append h en seqno data = Inr wa \<Longrightarrow> wa_seqno wa = seqno \<and> get_seq seqno = hd_next_seqno h"
  by (auto simp: check_append_def Let_def and_then_Inr_iff require_def split: if_splits)

lemma finish_append_accounted:
  assumes acc: "accounted b I Q (subs, h, en)" and fin: "finish_append h en = Some (r, h', en')"
  shows "accounted b I Q (subs @ (if isl r then [] else [payload (wa_record (the (hd_waiting h)))]), h', en')"
proof -
  have bal: "in_balance (mset [b..<b + length subs]) I Q en" using acc by (simp add: accounted_def)
  have "hd_waiting h' = None" using fin by (auto simp: finish_append_def bind_eq_Some_conv Let_def split: if_splits)
  moreover have "en_phase en' = en_phase en" using fin by (auto simp: finish_append_def bind_eq_Some_conv Let_def split: if_splits)
  moreover obtain wa where "hd_waiting h = Some wa" using fin by (auto simp: finish_append_def bind_eq_Some_conv)
  ultimately show ?thesis using acc finish_append_in_balance [OF fin bal] by (cases r) (auto simp: accounted_def atLeastLessThanSuc)
qed

lemma wal_step_accounted:
  assumes acc: "accounted b I Q (subs, h, en)"
    and step: "run_state (wal_step fac store crc_append sha cfg (subs, h, en) ev) s = (Some c', s')"
  shows "accounted b I Q c'"
proof -
  have bal: "in_balance (mset [b..<b + length subs]) I Q en" using acc by (simp add: accounted_def)
  show ?thesis
  proof (cases ev)
    case (Ev_Begin seqno data)
    then show ?thesis using acc step
      by (auto simp: wal_step_def accounted_def begin_append_def split: if_splits sum.splits dest!: check_append_seqno)
  next
    case Ev_Finish
    then show ?thesis using step finish_append_accounted [OF acc] by (auto simp: wal_step_def split: if_splits)
  next
    case (Ev_Shutdown now)
    then show ?thesis using acc step
      by (auto simp: wal_step_def accounted_def send_shutdown_def Let_def in_balance_def outstanding_def split: if_splits)
  next
    case (Ev_Notice g x)
    then show ?thesis using acc step by (auto simp: wal_step_def accounted_def split: if_splits dest!: notify_in_balance(1))
  next
    case (Ev_Spare_Notice x)
    then show ?thesis using acc step by (auto simp: wal_step_def accounted_def split: if_splits dest!: notify_in_balance(2))
  next
    case (Ev_Release z charge)
    then show ?thesis using acc step by (auto simp: wal_step_def accounted_def on_writer_def split: if_splits)
  next
    case (Ev_Run ended taken)
    then obtain en' where en': "run_state (run_phase store crc_append sha cfg ended taken en) s = (Some en', s')" "c' = (subs, h, en')"
      using step by (auto simp: wal_step_def split: prod.splits)
    then show ?thesis using acc run_phase_in_balance [OF en'(1) bal] run_phase_running [OF en'(1)] by (auto simp: accounted_def)
  next
    case (Ev_Wait now w)
    then obtain en' where en': "phase_wait cfg now w en = Some en'" "c' = (subs, h, en')"
      using step by (auto simp: wal_step_def split: if_splits)
    have "in_balance (mset [b..<b + length subs]) I Q ((publish_status cfg now en)\<lparr>en_phase := Ph_Complete\<rparr>)"
      using bal by (simp add: publish_status_def Let_def)
    then have "in_balance (mset [b..<b + length subs]) I Q en'"
      using en'(1) unfolding phase_wait_def by (rule wait_arm_in_balance)
    then show ?thesis using acc en'(2) phase_wait_running [OF en'(1)] by (simp add: accounted_def)
  next
    case (Ev_Exit gauge ans)
    then obtain en' where en': "run_state (phase_exit fac store sha gauge ans en) s = (en', s')" "c' = (subs, h, en')"
      using step by (auto simp: wal_step_def split: if_splits prod.splits)
    then show ?thesis using acc phase_exit_in_balance [OF en'(1) bal] phase_exit_closed [OF en'(1)] by (auto simp: accounted_def)
  qed (use acc step in \<open>auto simp: wal_step_def accounted_def\<close>)
qed

lemma run_wal_accounted:
  "\<lbrakk>accounted b I Q c; run_state (run_wal fac store crc_append sha cfg c evs) s = (Some c', s')\<rbrakk> \<Longrightarrow> accounted b I Q c'"
proof (induction evs arbitrary: c s)
  case (Cons ev evs)
  obtain subs h en where c: "c = (subs, h, en)" by (cases c)
  obtain c1 s1 where step: "run_state (wal_step fac store crc_append sha cfg c ev) s = (Some c1, s1)"
    and rest: "run_state (run_wal fac store crc_append sha cfg c1 evs) s1 = (Some c', s')"
    using Cons.prems(2) by (auto split: prod.splits option.splits)
  show ?case using Cons.IH [OF wal_step_accounted [OF Cons.prems(1) [unfolded c] step [unfolded c]] rest] .
qed simp

lemma start_engine_accounted:
  assumes "start_engine max_permits w cfg = Inr (h, en)"
  shows "accounted (hd_next_seqno h) (wc_max_inflight_bytes cfg) (wc_queue_capacity_bytes cfg) ([], h, en)"
  using assms
  by (auto simp: start_engine_def and_then_Inr_iff Let_def accounted_def in_balance_def balance_def outstanding_def answered_def
      new_engine_state_def require_def split: if_splits sum.splits prod.splits)

lemma in_balance_iff:
  "in_balance M I Q en \<longleftrightarrow> mset (answered en) + mset (map seq_of (outstanding en)) = M
     \<and> en_inflight en + (\<Sum>a\<leftarrow>outstanding en. aa_inflight a) = I
     \<and> en_queue_slots en + (\<Sum>a\<leftarrow>outstanding en. slot_permits a) = Q
     \<and> en_queued_bytes en = (\<Sum>a\<leftarrow>outstanding en. slot_bytes a)"
  unfolding in_balance_def balance_def by (simp flip: sum_mset_sum_list)

end
