(* ===== verification/Slate_Codec.thy ===== *)
theory Slate_Codec
  imports Transport "HOL-Library.Code_Target_Nat"
begin

text \<open>
  The SlateDB adapter's batch encoding (\<open>slatedb/codec.rs\<close>), with the two
  constructors of SlateDB's errors it reports (\<open>internal_error\<close> and
  \<open>data_error\<close> of \<open>slatedb.rs\<close>).  A row is what the codec reads of SlateDB's
  row entries: timestamps and sequence numbers are 64-bit words, written
  big-endian.
\<close>

unbundle bit_operations_syntax

section \<open>Errors\<close>

datatype wal_cause = Message string | Cause error

datatype wal_error =
    Wal_Fenced
  | Wal_Closed
  | Wal_Truncated nat
  | Wal_Data wal_cause
  | Wal_Internal wal_cause
  | Wal_Unavailable wal_cause

definition internal_error :: "string \<Rightarrow> wal_error" where
  "internal_error m = Wal_Internal (Message m)"

definition data_error :: "string \<Rightarrow> wal_error" where
  "data_error m = Wal_Data (Message m)"

section \<open>Rows\<close>

datatype value_deletable = Value bytes | Merge bytes | Tombstone

record row_entry =
  row_key :: bytes
  row_value :: value_deletable
  row_seq :: "64 word"
  row_create_ts :: "64 word option"
  row_expire_ts :: "64 word option"

fun value_bytes :: "value_deletable \<Rightarrow> bytes option" where
  "value_bytes (Value v) = Some v"
| "value_bytes (Merge v) = Some v"
| "value_bytes Tombstone = None"

fun value_len :: "value_deletable \<Rightarrow> nat" where
  "value_len (Value v) = length v"
| "value_len (Merge v) = length v"
| "value_len Tombstone = 0"

section \<open>Encoding\<close>

definition MAGIC :: bytes where
  "MAGIC = [67, 72, 83, 76, 87, 65, 76, 1]"

definition put_u32 :: "nat \<Rightarrow> bytes" where
  "put_u32 n = be_bytes 4 n"

definition put_u64 :: "64 word \<Rightarrow> bytes" where
  "put_u64 w = be_bytes 8 (unat w)"

definition row_metadata :: "row_entry \<Rightarrow> nat" where
  "row_metadata row =
     6 + (if row_create_ts row \<noteq> None then 8 else 0) + (if row_expire_ts row \<noteq> None then 8 else 0)
       + (if row_value row = Tombstone then 0 else 4)"

text \<open>The first loop of \<open>encode\<close>: the rows are checked in order and their size is accumulated.\<close>

fun batch_size :: "64 word \<Rightarrow> nat \<Rightarrow> row_entry list \<Rightarrow> wal_error + nat" where
  "batch_size seq n0 [] = Inr n0"
| "batch_size seq n0 (row # rows) =
     and_then (require (row_seq row = seq) (internal_error ''all rows in a SlateDB batch must share a sequence'')) (\<lambda>_.
     and_then (require (length (row_key row) \<le> u32_max) (internal_error ''key too large'')) (\<lambda>_.
     and_then (require (value_len (row_value row) \<le> u32_max) (internal_error ''value too large'')) (\<lambda>_.
     and_then (ok_or (Option.bind (Option.bind (checked_add usize_max n0 (row_metadata row))
                 (\<lambda>n. checked_add usize_max n (length (row_key row))))
                 (\<lambda>n. checked_add usize_max n (value_len (row_value row))))
               (internal_error ''batch size overflow'')) (\<lambda>n1.
     batch_size seq n1 rows))))"

definition value_tag :: "value_deletable \<Rightarrow> byte" where
  "value_tag v = (case v of Value _ \<Rightarrow> 0 | Merge _ \<Rightarrow> 1 | Tombstone \<Rightarrow> 2)"

definition row_flags :: "row_entry \<Rightarrow> byte" where
  "row_flags row = (if row_create_ts row \<noteq> None then 1 else 0) OR push_bit 1 (if row_expire_ts row \<noteq> None then 1 else 0)"

definition put_opt :: "64 word option \<Rightarrow> bytes" where
  "put_opt ts = (case ts of None \<Rightarrow> [] | Some t \<Rightarrow> put_u64 t)"

definition put_value :: "value_deletable \<Rightarrow> bytes" where
  "put_value v = (case value_bytes v of None \<Rightarrow> [] | Some b \<Rightarrow> put_u32 (length b) @ b)"

definition put_row :: "row_entry \<Rightarrow> bytes" where
  "put_row row = put_u32 (length (row_key row)) @ row_key row @ [value_tag (row_value row)] @ [row_flags row]
     @ put_opt (row_create_ts row) @ put_opt (row_expire_ts row) @ put_value (row_value row)"

definition encode_batch :: "row_entry list \<Rightarrow> nat \<Rightarrow> wal_error + bytes" where
  "encode_batch rows max_bytes =
     (case rows of
        [] \<Rightarrow> Inl (internal_error ''empty SlateDB write batch'')
      | first # _ \<Rightarrow>
          and_then (require (length rows \<le> u32_max) (internal_error ''too many batch rows'')) (\<lambda>_.
          and_then (batch_size (row_seq first) (length MAGIC + 4 + 8) rows) (\<lambda>total_size.
          and_then (require (total_size \<le> max_bytes) (internal_error (''encoded SlateDB batch is '' @ show_radix 10 total_size
            @ '' bytes, exceeding the '' @ show_radix 10 max_bytes @ ''-byte record limit''))) (\<lambda>_.
          Inr (MAGIC @ put_u32 (length rows) @ put_u64 (row_seq first) @ concat (map put_row rows))))))"

section \<open>Decoding\<close>

definition take_bytes :: "nat \<Rightarrow> bytes \<Rightarrow> wal_error + (bytes \<times> bytes)" where
  "take_bytes n b = (if length b < n then Inl (data_error ''truncated SlateDB WAL batch'') else Inr (take n b, drop n b))"

definition take_field :: "bytes \<Rightarrow> wal_error + (bytes \<times> bytes)" where
  "take_field b = and_then (take_bytes 4 b) (\<lambda>(n, b). take_bytes (be_nat n) b)"

definition take_opt :: "bool \<Rightarrow> bytes \<Rightarrow> wal_error + (64 word option \<times> bytes)" where
  "take_opt present b =
     (if present then and_then (take_bytes 8 b) (\<lambda>(t, b). Inr (Some (of_nat (be_nat t)), b)) else Inr (None, b))"

definition take_value :: "byte \<Rightarrow> bytes \<Rightarrow> wal_error + (value_deletable \<times> bytes)" where
  "take_value tag b =
     (if tag = 0 then and_then (take_field b) (\<lambda>(v, b). Inr (Value v, b))
      else if tag = 1 then and_then (take_field b) (\<lambda>(v, b). Inr (Merge v, b))
      else if tag = 2 then Inr (Tombstone, b)
      else Inl (data_error ''unknown SlateDB WAL value tag''))"

definition take_row :: "64 word \<Rightarrow> bytes \<Rightarrow> wal_error + (row_entry \<times> bytes)" where
  "take_row seq b =
     and_then (take_field b) (\<lambda>(key, b).
     and_then (take_bytes 1 b) (\<lambda>(tag, b).
     and_then (take_bytes 1 b) (\<lambda>(flags, b).
     and_then (require (hd flags AND NOT 3 = 0) (data_error ''unknown SlateDB WAL row flags'')) (\<lambda>_.
     and_then (take_opt (hd flags AND 1 \<noteq> 0) b) (\<lambda>(create_ts, b).
     and_then (take_opt (hd flags AND 2 \<noteq> 0) b) (\<lambda>(expire_ts, b).
     and_then (take_value (hd tag) b) (\<lambda>(v, b).
     Inr (\<lparr>row_key = key, row_value = v, row_seq = seq, row_create_ts = create_ts, row_expire_ts = expire_ts\<rparr>, b))))))))"

fun take_rows :: "64 word \<Rightarrow> nat \<Rightarrow> bytes \<Rightarrow> wal_error + (row_entry list \<times> bytes)" where
  "take_rows seq 0 b = Inr ([], b)"
| "take_rows seq (Suc n) b =
     and_then (take_row seq b) (\<lambda>(row, b).
     and_then (take_rows seq n b) (\<lambda>(rows, b). Inr (row # rows, b)))"

definition decode_batch :: "bytes \<Rightarrow> wal_error + row_entry list" where
  "decode_batch b =
     and_then (take_bytes (length MAGIC) b) (\<lambda>(magic, b).
     and_then (require (magic = MAGIC) (data_error ''unknown Chorus SlateDB WAL format/version'')) (\<lambda>_.
     and_then (take_bytes 4 b) (\<lambda>(n, b).
     and_then (take_bytes 8 b) (\<lambda>(s, b).
     and_then (require (\<not> (be_nat n = 0 \<or> length b div 6 < be_nat n)) (data_error ''invalid SlateDB WAL row count'')) (\<lambda>_.
     and_then (take_rows (of_nat (be_nat s)) (be_nat n) b) (\<lambda>(rows, b).
     and_then (require (b = []) (data_error ''trailing bytes in SlateDB WAL batch'')) (\<lambda>_.
     Inr rows)))))))"

section \<open>Round trips\<close>

lemma length_put [simp]: "length (put_u32 n) = 4" "length (put_u64 w) = 8"
  by (simp_all add: put_u32_def put_u64_def)

lemma u32_power: "n \<le> u32_max \<longleftrightarrow> n < 256 ^ 4"
  by (auto simp: u32_max_def)

lemma be_nat_put_u32 [codec_simps]: "n \<le> u32_max \<Longrightarrow> be_nat (put_u32 n) = n"
  by (simp add: put_u32_def u32_power)

lemma of_nat_put_u64 [codec_simps]: "of_nat (be_nat (put_u64 w)) = w"
proof -
  have "unat w < 256 ^ 8" using unsigned_less [of w] by simp
  then show ?thesis by (simp add: put_u64_def)
qed

lemma take_bytes_append [codec_simps]: "length x = n \<Longrightarrow> take_bytes n (x @ b) = Inr (x, b)"
  by (auto simp: take_bytes_def)

lemma take_bytes_Inr: "take_bytes n b = Inr (x, b') \<longleftrightarrow> b = x @ b' \<and> length x = n"
  by (auto simp: take_bytes_def)

lemma take_bytes_one [codec_simps]: "take_bytes (Suc 0) (x # b) = Inr ([x], b)"
  by (simp add: take_bytes_def)

lemma take_field_append [codec_simps]: "length x \<le> u32_max \<Longrightarrow> take_field (put_u32 (length x) @ x @ b) = Inr (x, b)"
  by (simp add: take_field_def take_bytes_append be_nat_put_u32)

lemma put_u32_be_nat: "length n = 4 \<Longrightarrow> put_u32 (be_nat n) = n"
  using be_bytes_be_nat [of n] by (simp add: put_u32_def)

lemma be_nat_u32: "length n = 4 \<Longrightarrow> be_nat n \<le> u32_max"
  using be_nat_bound [of n] by (simp add: u32_max_def)

lemma put_u64_of_nat: "length t = 8 \<Longrightarrow> put_u64 (of_nat (be_nat t)) = t"
  using be_nat_bound [of t] be_bytes_be_nat [of t] by (simp add: put_u64_def unat_of_nat)

lemma take_field_Inr: "take_field b = Inr (x, b') \<longleftrightarrow> b = put_u32 (length x) @ x @ b' \<and> length x \<le> u32_max"
proof
  assume "take_field b = Inr (x, b')"
  then obtain n r where n: "take_bytes 4 b = Inr (n, r)" "take_bytes (be_nat n) r = Inr (x, b')"
    by (auto simp: take_field_def result_simps)
  then show "b = put_u32 (length x) @ x @ b' \<and> length x \<le> u32_max"
    using put_u32_be_nat [of n] be_nat_u32 [of n] by (auto simp: take_bytes_Inr)
qed (auto simp: take_field_append)

lemma take_opt_append [codec_simps]: "take_opt (ts \<noteq> None) (put_opt ts @ b) = Inr (ts, b)"
  by (cases ts) (simp_all add: take_opt_def put_opt_def take_bytes_append of_nat_put_u64)

lemma take_opt_Inr: "take_opt p b = Inr (ts, b') \<longleftrightarrow> b = put_opt ts @ b' \<and> (ts \<noteq> None) = p"
proof
  assume r: "take_opt p b = Inr (ts, b')"
  show "b = put_opt ts @ b' \<and> (ts \<noteq> None) = p"
  proof (cases p)
    case True
    then obtain t where "take_bytes 8 b = Inr (t, b')" "ts = Some (of_nat (be_nat t))"
      using r by (auto simp: take_opt_def result_simps)
    then show ?thesis using True put_u64_of_nat [of t] by (auto simp: take_bytes_Inr put_opt_def)
  qed (use r in \<open>auto simp: take_opt_def put_opt_def\<close>)
qed (use take_opt_append in auto)

lemma take_value_append [codec_simps]:
  "value_len v \<le> u32_max \<Longrightarrow> take_value (value_tag v) (put_value v @ b) = Inr (v, b)"
  by (cases v) (simp_all add: take_value_def value_tag_def put_value_def take_field_append)

lemma take_value_Inr:
  "take_value tag b = Inr (v, b') \<longleftrightarrow> b = put_value v @ b' \<and> tag = value_tag v \<and> value_len v \<le> u32_max"
proof
  assume "take_value tag b = Inr (v, b')"
  then show "b = put_value v @ b' \<and> tag = value_tag v \<and> value_len v \<le> u32_max"
    by (auto simp: take_value_def result_simps take_field_Inr value_tag_def put_value_def split: if_splits)
qed (auto simp: take_value_append)

lemma flags_cases: "(f :: byte) AND NOT 3 = 0 \<Longrightarrow> f = 0 \<or> f = 1 \<or> f = 2 \<or> f = 3"
proof -
  assume f: "f AND NOT 3 = 0"
  have "f = (f AND NOT 3) OR (f AND 3)" by (simp add: bit.conj_disj_distrib [symmetric])
  then have "f = f AND mask 2" using f by (simp add: mask_eq_exp_minus_1)
  then have "f = take_bit 2 f" by (simp add: take_bit_eq_mask)
  then have "unat f < 4" by (metis take_bit_nat_less_exp unsigned_take_bit_eq num_double numeral_times_numeral power2_eq_square)
  then have "unat f = 0 \<or> unat f = 1 \<or> unat f = 2 \<or> unat f = 3" by linarith
  then show ?thesis by (simp add: word_unat_eq_iff)
qed

lemma row_flags_bits [codec_simps]:
  "row_flags row AND NOT 3 = 0"
  "row_flags row AND 1 \<noteq> 0 \<longleftrightarrow> row_create_ts row \<noteq> None"
  "row_flags row AND 2 \<noteq> 0 \<longleftrightarrow> row_expire_ts row \<noteq> None"
  by (cases "row_create_ts row"; cases "row_expire_ts row"; simp add: row_flags_def)+

definition row_fits :: "64 word \<Rightarrow> row_entry \<Rightarrow> bool" where
  "row_fits seq row \<longleftrightarrow> row_seq row = seq \<and> length (row_key row) \<le> u32_max \<and> value_len (row_value row) \<le> u32_max"

lemma take_row_append: "row_fits seq row \<Longrightarrow> take_row seq (put_row row @ b) = Inr (row, b)"
  using row_flags_bits(1) [of row] by (simp add: take_row_def put_row_def row_fits_def codec_simps del: not_None_eq)

lemma row_flags_determined:
  assumes "f AND NOT 3 = 0" "(row_create_ts row \<noteq> None) = (f AND 1 \<noteq> 0)" "(row_expire_ts row \<noteq> None) = (f AND 2 \<noteq> 0)"
  shows "row_flags row = f"
  using flags_cases [OF assms(1)] assms(2,3) by (auto simp: row_flags_def)

lemma take_row_Inr:
  assumes "take_row seq b = Inr (row, b')"
  shows "b = put_row row @ b' \<and> row_fits seq row"
proof -
  obtain key tag flags create_ts expire_ts v b1 b2 b3 b4 b5 where
    r: "take_field b = Inr (key, b1)" "take_bytes 1 b1 = Inr (tag, b2)" "take_bytes 1 b2 = Inr (flags, b3)"
       "hd flags AND NOT 3 = 0" "take_opt (hd flags AND 1 \<noteq> 0) b3 = Inr (create_ts, b4)"
       "take_opt (hd flags AND 2 \<noteq> 0) b4 = Inr (expire_ts, b5)" "take_value (hd tag) b5 = Inr (v, b')"
       "row = \<lparr>row_key = key, row_value = v, row_seq = seq, row_create_ts = create_ts, row_expire_ts = expire_ts\<rparr>"
    using assms by (auto simp: take_row_def result_simps)
  have "row_flags row = hd flags" using r by (intro row_flags_determined) (simp_all add: take_opt_Inr)
  moreover have "tag = [hd tag]" "flags = [hd flags]" using r(2,3) by (auto simp: take_bytes_Inr length_Suc_conv)
  ultimately show ?thesis
    using r by (auto simp: take_field_Inr take_bytes_Inr take_opt_Inr take_value_Inr put_row_def row_fits_def)
qed

lemma take_rows_append:
  "(\<forall>row \<in> set rows. row_fits seq row) \<Longrightarrow> take_rows seq (length rows) (concat (map put_row rows) @ b) = Inr (rows, b)"
  by (induction rows) (simp_all add: take_row_append)

lemma take_rows_Inr:
  "take_rows seq n b = Inr (rows, b') \<Longrightarrow>
     b = concat (map put_row rows) @ b' \<and> length rows = n \<and> (\<forall>row \<in> set rows. row_fits seq row)"
proof (induction n arbitrary: b rows)
  case (Suc n)
  then obtain row b1 rows1 where "take_row seq b = Inr (row, b1)" "take_rows seq n b1 = Inr (rows1, b')" "rows = row # rows1"
    by (auto simp: result_simps)
  then show ?case using Suc.IH [of b1 rows1] take_row_Inr [of seq b row b1] by auto
qed simp

lemma length_put_row: "length (put_row row) = row_metadata row + length (row_key row) + value_len (row_value row)"
  by (cases "row_value row"; cases "row_create_ts row"; cases "row_expire_ts row")
     (simp_all add: put_row_def row_metadata_def put_opt_def put_value_def)

lemma length_put_rows: "6 * length rows \<le> length (concat (map put_row rows))"
  by (induction rows) (auto simp: length_put_row row_metadata_def)

lemma batch_size_Inr:
  "n0 \<le> usize_max \<Longrightarrow> batch_size seq n0 rows = Inr n \<longleftrightarrow>
     (\<forall>row \<in> set rows. row_fits seq row) \<and> n = n0 + length (concat (map put_row rows)) \<and> n \<le> usize_max"
proof (induction rows arbitrary: n0)
  case (Cons row rows)
  show ?case
  proof (cases "row_fits seq row \<and> n0 + length (put_row row) \<le> usize_max")
    case True
    then have "batch_size seq n0 (row # rows) = batch_size seq (n0 + length (put_row row)) rows"
      by (simp add: row_fits_def length_put_row checked_add_def add.assoc)
    then show ?thesis using True Cons.IH [of "n0 + length (put_row row)"] by auto
  next
    case False
    then have "batch_size seq n0 (row # rows) \<noteq> Inr n" for n
      by (auto simp: row_fits_def length_put_row result_simps bind_eq_Some_conv)
    then show ?thesis using False by auto
  qed
qed auto

lemma encode_batch_Inr:
  "encode_batch rows max_bytes = Inr b \<longleftrightarrow>
     rows \<noteq> [] \<and> length rows \<le> u32_max \<and> (\<forall>row \<in> set rows. row_fits (row_seq (hd rows)) row)
   \<and> b = MAGIC @ put_u32 (length rows) @ put_u64 (row_seq (hd rows)) @ concat (map put_row rows)
   \<and> length b \<le> max_bytes \<and> length b \<le> usize_max"
proof (cases rows)
  case (Cons first rest)
  have "length MAGIC + 4 + 8 \<le> usize_max" by (simp add: MAGIC_def u64_max_def)
  note size = batch_size_Inr [OF this, of "row_seq first" rows]
  show ?thesis unfolding encode_batch_def Cons list.case
    unfolding Cons [symmetric] and_then_Inr_iff require_Inr_iff size by (auto simp: Cons)
qed (simp add: encode_batch_def)

lemma decode_batch_Inr:
  "decode_batch b = Inr rows \<longleftrightarrow>
     rows \<noteq> [] \<and> length rows \<le> u32_max \<and> (\<forall>row \<in> set rows. row_fits (row_seq (hd rows)) row)
   \<and> b = MAGIC @ put_u32 (length rows) @ put_u64 (row_seq (hd rows)) @ concat (map put_row rows)"
proof
  assume "decode_batch b = Inr rows"
  then obtain n s b1 b2 b3 where
    r: "take_bytes (length MAGIC) b = Inr (MAGIC, b1)" "take_bytes 4 b1 = Inr (n, b2)" "take_bytes 8 b2 = Inr (s, b3)"
       "be_nat n \<noteq> 0" "take_rows (of_nat (be_nat s)) (be_nat n) b3 = Inr (rows, [])"
    by (auto simp: decode_batch_def result_simps)
  have rows: "b3 = concat (map put_row rows)" "length rows = be_nat n" "\<forall>row \<in> set rows. row_fits (of_nat (be_nat s)) row"
    using take_rows_Inr [OF r(5)] by auto
  have "rows \<noteq> []" using rows(2) r(4) by auto
  then have "row_seq (hd rows) = of_nat (be_nat s)" using rows(3) by (simp add: row_fits_def)
  then show "rows \<noteq> [] \<and> length rows \<le> u32_max \<and> (\<forall>row \<in> set rows. row_fits (row_seq (hd rows)) row)
      \<and> b = MAGIC @ put_u32 (length rows) @ put_u64 (row_seq (hd rows)) @ concat (map put_row rows)"
    using r rows \<open>rows \<noteq> []\<close> by (auto simp: take_bytes_Inr be_nat_u32 put_u32_be_nat put_u64_of_nat)
next
  assume "rows \<noteq> [] \<and> length rows \<le> u32_max \<and> (\<forall>row \<in> set rows. row_fits (row_seq (hd rows)) row)
      \<and> b = MAGIC @ put_u32 (length rows) @ put_u64 (row_seq (hd rows)) @ concat (map put_row rows)"
  then show "decode_batch b = Inr rows"
    using div_le_mono [OF length_put_rows [of rows], of 6] take_rows_append [of rows "row_seq (hd rows)" "[]"]
    by (simp add: decode_batch_def codec_simps not_less)
qed

text \<open>C27. The SlateDB batch codec round-trips in both directions: what the encoder accepts decodes to the
  same rows and stays within the limit, and every byte string the decoder accepts is the one encoding of the
  rows it returns, so the encoder gives it back whenever it fits the limit.\<close>

theorem slate_batch_roundtrip:
  "(encode_batch rows max_bytes = Inr b \<longrightarrow> decode_batch b = Inr rows \<and> length b \<le> max_bytes)
 \<and> (decode_batch b = Inr rows \<longrightarrow> length b \<le> max_bytes \<longrightarrow> max_bytes \<le> usize_max \<longrightarrow> encode_batch rows max_bytes = Inr b)"
  by (auto simp: encode_batch_Inr decode_batch_Inr)

definition slate_demo_rows :: "row_entry list" where
  "slate_demo_rows =
     [\<lparr>row_key = [1, 2], row_value = Value [0, 9], row_seq = 5, row_create_ts = Some 7, row_expire_ts = None\<rparr>,
      \<lparr>row_key = [], row_value = Tombstone, row_seq = 5, row_create_ts = None, row_expire_ts = Some (- 1)\<rparr>]"

theorem slate_batch_roundtrip_witness:
  "\<exists>b. encode_batch slate_demo_rows 100 = Inr b \<and> decode_batch b = Inr slate_demo_rows \<and> length b \<le> 100"
proof -
  have "case encode_batch slate_demo_rows 100 of Inr _ \<Rightarrow> True | Inl _ \<Rightarrow> False" by code_simp
  then obtain b where b: "encode_batch slate_demo_rows 100 = Inr b" by (auto split: sum.splits)
  then show ?thesis using slate_batch_roundtrip [of slate_demo_rows 100 b] by blast
qed

end
