(* ===== verification/Spec2Isabelle.thy ===== *)
theory Spec2Isabelle
  imports Engine_Log Slate_Codec
begin

text \<open>
  Chorus is a single-writer write-ahead log that replicates every segment over
  one, three or five zonal buckets and keeps its catalog in one compare-and-swap
  manifest register.

  \<^item> \<open>Chorus_Prelude\<close>: results, byte strings, checked arithmetic, order statistics.
  \<^item> \<open>Record_Frame\<close> models \<open>rust/client/src/record.rs\<close>.
\<close>

section \<open>Rotation from open to fold\<close>

lemma open_writer_run:
  assumes "run_state (open_writer sv gauge st mf) s = (Inr w0, s1)"
  obtains active spare where "sgw_writer w0 = started_writer (fa_count (sv_factories sv)) (sv_config sv) gauge active"
    "spr_writer (the (sgw_spare w0)) = started_writer (fa_count (sv_factories sv)) (sv_config sv) gauge spare"
    "sgw_active_id w0 = rw_active_id st" "sgw_base w0 = rw_base st" "sgw_factories w0 = fa_count (sv_factories sv)"
proof -
  obtain a b c e f g h where "w0 = \<lparr>sgw_manifest = a, sgw_factories = fa_count (sv_factories sv), sgw_prefix = sv_prefix sv,
      sgw_config = sv_config sv, sgw_sealed_segments = rw_sealed_segments st,
      sgw_writer = started_writer (fa_count (sv_factories sv)) (sv_config sv) gauge b, sgw_active_id = rw_active_id st,
      sgw_base = rw_base st, sgw_checkpoint_floor = rw_checkpoint_floor st, sgw_sweep = rw_dead_segment_sweep st,
      sgw_next_seq = c,
      sgw_spare = Some \<lparr>spr_id = e, spr_writer = started_writer (fa_count (sv_factories sv)) (sv_config sv) gauge f, spr_registered = g\<rparr>,
      sgw_pending_fold = h, sgw_max_lag = usize_max\<rparr>"
    using assms by (auto simp: open_writer_def try_then_def Let_def split: sum.splits prod.splits)
  then show thesis by (intro that [of b f]) simp_all
qed

text \<open>C1. Rotation never loses, repeats or renumbers a record.  From the writer that opening a recovered volume
  returns, through any sequence of admissions, lane reports, swaps, refills and folds: the swaps made so far
  continue one another without a gap, each names exactly the committed records of the segment it closed, with their
  digest and checksum; every admission is given the global indices that follow the log so far; and the fold of any of
  these swaps, when the manifest takes it, records that segment and moves the tail to the first index after it.\<close>

theorem rotation_preserves_log:
  assumes opened: "run_state (open_writer sv gauge st mf) s = (Inr w0, s1)"
    and n: "n = fa_count (sv_factories sv)" "0 < n" "length gauge = n" and crc: "appends_crc crc_append crc"
    and run: "run_segments crc_append sha ([], [], w0) es = Some (past, recs, w)" "list_all (sized_event n) es"
  shows "swap_chain crc sha (rw_active_id st) (rw_base st) past (sgw_active_id w) (sgw_base w)
    \<and> (\<forall>ended records cr w'. enqueue_records_for_engine crc_append ended records w = Some (Inr cr, w') \<longrightarrow>
         rcr_first cr = rw_base st + length (concat (map snd past) @ recs)
       \<and> rcr_end cr = rw_base st + length (concat (map snd past) @ recs @ records))
    \<and> (\<forall>p rs f epoch owner room r r'. (p, rs) \<in> set past \<longrightarrow> pending_fold_request w p = Inr f \<longrightarrow>
         fold_pending_transform epoch owner room f r = Inr (Update r' ()) \<longrightarrow>
         (\<exists>S. encode_all rs = Inr S
            \<and> mr_segments r' = mr_segments r @ [\<lparr>de_id = ps_id p, de_base = ps_base p, de_crc32c = crc S\<rparr>]
            \<and> mr_seal_digest r' = Some (sha S) \<and> mr_tail_id r = Some (ps_id p) \<and> mr_tail_base r = ps_base p
            \<and> mr_tail_id r' = Some (ps_successor_id p) \<and> mr_tail_base r' = ps_base p + length rs))"
proof -
  obtain active spare where w0: "sgw_writer w0 = started_writer n (sv_config sv) gauge active"
      "spr_writer (the (sgw_spare w0)) = started_writer n (sv_config sv) gauge spare"
      "sgw_active_id w0 = rw_active_id st" "sgw_base w0 = rw_base st" "sgw_factories w0 = n"
    using open_writer_run [OF opened] n(1) by metis
  have "crc [] = 0" using crc by (simp add: appends_crc_def)
  note fresh = started_writer_inv [of crc, OF this, of n gauge "sv_config sv"]
  have "segment_inv crc sha n (rw_active_id st) (rw_base st) ([], [], w0)"
    using w0 n(3) fresh [of active] fresh [of spare] by (auto simp: segment_inv_def)
  from run_segments_inv [OF this crc n(2) run(2,1)]
  have inv: "segment_inv crc sha n (rw_active_id st) (rw_base st) (past, recs, w)" .
  then have chain: "swap_chain crc sha (rw_active_id st) (rw_base st) past (sgw_active_id w) (sgw_base w)"
    by (simp add: segment_inv_def)
  show ?thesis
    using chain append_range [OF inv crc n(2)] fold_publishes_swap [OF swap_chain_closes [OF chain]] by blast
qed

definition rotation_demo_state :: recovered_writer_state where
  "rotation_demo_state = \<lparr>rw_sealed_segments = [], rw_base = 3, rw_checkpoint_floor = 0, rw_active_id = ''t'',
     rw_active_writer = Some [lane_demo_token\<lparr>tk_persisted_size := 0\<rparr>],
     rw_spare = Some (''s'', [lane_demo_token\<lparr>tk_persisted_size := 0\<rparr>]), rw_pending_fold = None, rw_next_segment_seq = 2,
     rw_dead_segment_sweep = \<lparr>ds_keep = {}, ds_claimed_epoch = 1\<rparr>\<rparr>"

definition rotation_demo_events :: "segment_event list" where
  "rotation_demo_events = [Sg_Append (\<lambda>_. False) [\<lparr>payload = [7]\<rparr>], Sg_Notice (Notice_Durable 0 5), Sg_Swap]"

definition rotation_demo_open :: "(error + segmented_writer) \<times> local_deployment" where
  "rotation_demo_open = run_state (open_writer boot_volume [0] rotation_demo_state boot_handle) boot_world"

theorem rotation_preserves_log_witness:
  "\<exists>w0 s1 past recs w. rotation_demo_open = (Inr w0, s1)
     \<and> run_segments (\<lambda>_ _. 0) (\<lambda>_. ''d'') ([], [], w0) rotation_demo_events = Some (past, recs, w)
     \<and> length past = 1 \<and> swap_chain (\<lambda>_. 0) (\<lambda>_. ''d'') ''t'' 3 past (sgw_active_id w) (sgw_base w)"
proof -
  have c: "case fst rotation_demo_open of Inl _ \<Rightarrow> False
      | Inr w0 \<Rightarrow> (case run_segments (\<lambda>_ _. 0) (\<lambda>_. ''d'') ([], [], w0) rotation_demo_events of
          None \<Rightarrow> False | Some (past, _, _) \<Rightarrow> length past = 1)"
    by code_simp
  obtain x s1 where x: "rotation_demo_open = (x, s1)" by (rule prod.exhaust)
  have "\<not> isl x" using c unfolding x by (cases x) simp_all
  then obtain w0 where w0: "rotation_demo_open = (Inr w0, s1)" using x by (cases x) auto
  have d: "case run_segments (\<lambda>_ _. 0) (\<lambda>_. ''d'') ([], [], w0) rotation_demo_events of
      None \<Rightarrow> False | Some (past, _, _) \<Rightarrow> length past = 1"
    using c unfolding w0 by simp
  then obtain past recs w where run: "run_segments (\<lambda>_ _. 0) (\<lambda>_. ''d'') ([], [], w0) rotation_demo_events = Some (past, recs, w)"
    by (cases "run_segments (\<lambda>_ _. 0) (\<lambda>_. ''d'') ([], [], w0) rotation_demo_events") auto
  have one: "length past = 1" using d unfolding run by simp
  have count: "fa_count (sv_factories boot_volume) = 1" by code_simp
  have "appends_crc (\<lambda>_ _. 0) (\<lambda>_. 0)" by (simp add: appends_crc_def)
  moreover have "list_all (sized_event 1) rotation_demo_events" by (simp add: rotation_demo_events_def)
  ultimately have "swap_chain (\<lambda>_. 0) (\<lambda>_. ''d'') (rw_active_id rotation_demo_state) (rw_base rotation_demo_state) past
      (sgw_active_id w) (sgw_base w)"
    using rotation_preserves_log [OF w0 [unfolded rotation_demo_open_def] count [symmetric] _ _ _ run] by simp
  then have "swap_chain (\<lambda>_. 0) (\<lambda>_. ''d'') ''t'' 3 past (sgw_active_id w) (sgw_base w)" by (simp add: rotation_demo_state_def)
  then show ?thesis using w0 run one by blast
qed

section \<open>The engine's answers\<close>

text \<open>C2. Every append the engine admits is answered exactly once, whatever happens to it.  After any sequence of calls,
  lane reports, engine phases, rotations and failures the sequence numbers answered so far and those still held are
  together exactly the ones admitted, each once; the in-flight and queue permits are either free or held by an append
  that is still unanswered; and once the engine has stopped every admitted append has its answer and every permit is
  back.\<close>

theorem engine_answers_each_append_once:
  assumes start: "start_engine max_permits w cfg = Inr (h0, en0)"
    and run: "run_state (run_wal fac store crc_append sha cfg ([], h0, en0) evs) s = (Some (subs, h, en), s')"
  defines "first \<equiv> committed_record_end w"
  shows "mset (answered en) + mset (map seq_of (outstanding en)) = mset [first..<first + length subs]
    \<and> en_inflight en + (\<Sum>a\<leftarrow>outstanding en. aa_inflight a) = wc_max_inflight_bytes cfg
    \<and> en_queue_slots en + (\<Sum>a\<leftarrow>outstanding en. slot_permits a) = wc_queue_capacity_bytes cfg
    \<and> en_queued_bytes en = (\<Sum>a\<leftarrow>outstanding en. slot_bytes a)
    \<and> (en_phase en = Ph_Stopped \<longrightarrow>
         distinct (answered en) \<and> set (answered en) = {first..<first + length subs}
       \<and> en_inflight en = wc_max_inflight_bytes cfg \<and> en_queue_slots en = wc_queue_capacity_bytes cfg)"
proof -
  have first: "hd_next_seqno h0 = first"
    using start unfolding first_def by (auto simp: start_engine_def and_then_Inr_iff Let_def split: if_splits sum.splits prod.splits)
  have acc: "accounted first (wc_max_inflight_bytes cfg) (wc_queue_capacity_bytes cfg) (subs, h, en)"
    using run_wal_accounted [OF start_engine_accounted [OF start] run] unfolding first .
  then have bal: "mset (answered en) + mset (map seq_of (outstanding en)) = mset [first..<first + length subs]"
      "en_inflight en + (\<Sum>a\<leftarrow>outstanding en. aa_inflight a) = wc_max_inflight_bytes cfg"
      "en_queue_slots en + (\<Sum>a\<leftarrow>outstanding en. slot_permits a) = wc_queue_capacity_bytes cfg"
      "en_queued_bytes en = (\<Sum>a\<leftarrow>outstanding en. slot_bytes a)"
    by (simp_all add: accounted_def in_balance_iff)
  have "outstanding en = []" if "en_phase en = Ph_Stopped" using acc that by (simp add: accounted_def)
  then show ?thesis using bal mset_eq_imp_distinct_iff [of "answered en" "[first..<first + length subs]"]
    mset_eq_setD [of "answered en" "[first..<first + length subs]"] by auto
qed

definition engine_demo_lap :: "wal_event list" where
  "engine_demo_lap = replicate 7 (Ev_Run (\<lambda>_. False) True)"

text \<open>Two records become durable and are acknowledged; the commit watch of a third is lost.\<close>

definition engine_demo_events :: "wal_event list" where
  "engine_demo_events = [Ev_Begin (WalSeqNo 3) [7], Ev_Finish, Ev_Begin (WalSeqNo 4) [8], Ev_Finish] @ engine_demo_lap
     @ [Ev_Begin (WalSeqNo 5) [9], Ev_Finish, Ev_Notice 0 (Notice_Durable 0 10), Ev_Wait 0 (Wt_Commit True)] @ engine_demo_lap
     @ [Ev_Wait 0 (Wt_Commit False), Ev_Exit [0] \<lparr>sa_previous_enforced = True, sa_expired_before_refill = True,
          sa_refill_timed_out = False, sa_expired_before_swap = True, sa_expired_before_fold = True, sa_seal_accepted = True\<rparr>]"

definition engine_demo_run :: "wal_handle \<Rightarrow> engine \<Rightarrow> wal_run option \<times> local_deployment" where
  "engine_demo_run h en = run_state (run_wal (sv_factories boot_volume) (sv_store boot_volume) (\<lambda>_ _. 0) (\<lambda>_. ''d'')
     default_engine_config ([], h, en) engine_demo_events) boot_world"

theorem engine_answers_each_append_once_witness:
  "\<exists>w h0 en0 subs h en s'. start_engine 1000000000000 w default_engine_config = Inr (h0, en0)
     \<and> engine_demo_run h0 en0 = (Some (subs, h, en), s') \<and> length subs = 3 \<and> committed_record_end w = 3
     \<and> distinct (answered en) \<and> set (answered en) = {3..<6}"
proof -
  have c: "case fst rotation_demo_open of Inl _ \<Rightarrow> False
      | Inr w \<Rightarrow> committed_record_end w = 3 \<and> (case start_engine 1000000000000 w default_engine_config of
          Inl _ \<Rightarrow> False
        | Inr (h, en) \<Rightarrow> (case fst (engine_demo_run h en) of
            None \<Rightarrow> False | Some (subs, _, en') \<Rightarrow> length subs = 3 \<and> en_phase en' = Ph_Stopped))"
    by code_simp
  obtain w where w: "fst rotation_demo_open = Inr w" using c by (cases "fst rotation_demo_open") simp_all
  obtain h0 en0 where start: "start_engine 1000000000000 w default_engine_config = Inr (h0, en0)"
    using c unfolding w by (cases "start_engine 1000000000000 w default_engine_config") auto
  obtain subs h en s' where run: "engine_demo_run h0 en0 = (Some (subs, h, en), s')"
    using c unfolding w by (cases "engine_demo_run h0 en0"; cases "fst (engine_demo_run h0 en0)") (auto simp: start)
  have demo: "length subs = 3" "en_phase en = Ph_Stopped" "committed_record_end w = 3"
    using c unfolding w by (simp_all add: start run)
  have "distinct (answered en) \<and> set (answered en) = {3..<6}"
    using engine_answers_each_append_once [OF start run [unfolded engine_demo_run_def]] demo by simp
  then show ?thesis using start run demo by blast
qed

end
